(* ===== verification/Hpl_Prelude.thy ===== *)
theory Hpl_Prelude
  imports Main "HOL-Library.Word" "HOL-Library.Char_ord" "HOL-Library.List_Lexorder"
begin

text \<open>
  Shared vocabulary of the development: the outcome type of fallible C++ code, bytes and
  machine words, bounds-checked reads of the memory behind a \<^verbatim>\<open>std::string\<close> or a
  \<^verbatim>\<open>std::vector\<close>, the C library functions the sources call (\<^verbatim>\<open>tolower\<close>, \<^verbatim>\<open>isspace\<close>,
  \<^verbatim>\<open>atoi\<close>, \<^verbatim>\<open>ntohs\<close>, \<^verbatim>\<open>ntohl\<close>), and \<^verbatim>\<open>std::map\<close> as a sorted association list.
\<close>

unbundle bit_operations_syntax

named_theorems res_simps \<open>rewriting of outcomes\<close>
named_theorems byte_simps \<open>conversions between bytes and words\<close>

section \<open>Outcomes\<close>

text \<open>
  What the C++ code can do instead of returning: read or write outside an object, dereference
  a null pointer, use an object after it was destroyed, throw a standard exception, call
  \<^verbatim>\<open>atoi\<close> on a number outside \<^verbatim>\<open>int\<close>, or never return.
\<close>

datatype fault =
    Oob
  | NullDeref
  | UseAfterFree
  | AtoiRange
  | StdOutOfRange
  | RegexError
  | Diverges

type_synonym 'a res = "fault + 'a"

definition rbind :: "'a res \<Rightarrow> ('a \<Rightarrow> 'b res) \<Rightarrow> 'b res" where
  "rbind m f = (case m of Inl e \<Rightarrow> Inl e | Inr x \<Rightarrow> f x)"

lemma rbind_simps [simp, res_simps]:
  "rbind (Inl e) f = Inl e"
  "rbind (Inr x) f = f x"
  by (simp_all add: rbind_def)

lemma rbind_eq_Inr [res_simps]: "rbind m f = Inr y \<longleftrightarrow> (\<exists>x. m = Inr x \<and> f x = Inr y)"
  by (cases m) simp_all

lemma rbind_cong [fundef_cong]:
  "m = m' \<Longrightarrow> (\<And>x. m' = Inr x \<Longrightarrow> f x = g x) \<Longrightarrow> rbind m f = rbind m' g"
  by (cases m') simp_all

lemma rbind_assoc [res_simps]: "rbind (rbind m f) g = rbind m (\<lambda>x. rbind (f x) g)"
  by (cases m) simp_all

definition is_ok :: "'a res \<Rightarrow> bool" where
  "is_ok m = (case m of Inl e \<Rightarrow> False | Inr x \<Rightarrow> True)"

lemma is_ok_simps [simp, res_simps]: "\<not> is_ok (Inl e)" "is_ok (Inr x)"
  by (simp_all add: is_ok_def)

lemma is_ok_iff: "is_ok m \<longleftrightarrow> (\<exists>x. m = Inr x)"
  by (cases m) simp_all

section \<open>Bytes and machine words\<close>

text \<open>A byte of memory or of the wire is a \<^typ>\<open>char\<close>; a run of bytes is a \<^typ>\<open>string\<close>.\<close>

type_synonym bytes = string
type_synonym size_t = "64 word"
type_synonym fd = int

abbreviation NUL :: char where "NUL \<equiv> CHR 0x00"
abbreviation CR :: char where "CR \<equiv> CHR 0x0D"
abbreviation LF :: char where "LF \<equiv> CHR 0x0A"
abbreviation SP :: char where "SP \<equiv> CHR 0x20"
abbreviation CRLF :: bytes where "CRLF \<equiv> [CR, LF]"

definition b2w :: "char \<Rightarrow> 8 word" where
  "b2w c = of_nat (of_char c)"

definition w2b :: "8 word \<Rightarrow> char" where
  "w2b w = char_of (unat w)"

lemma of_char_less_256 [simp]: "(of_char c :: nat) < 256"
  using of_char_mod_256 [where 'a = nat, of c] by (metis mod_less_divisor zero_less_numeral)

lemma unat_b2w [byte_simps, simp]: "unat (b2w c) = of_char c"
  by (simp add: b2w_def unat_of_nat)

lemma w2b_b2w [simp, byte_simps]: "w2b (b2w c) = c"
  by (simp add: w2b_def)

lemma b2w_w2b [simp, byte_simps]: "b2w (w2b w) = w"
proof -
  have "unat w < 256" using unsigned_less [where ?'a = nat, of w] by simp
  then have "unat (b2w (w2b w)) = unat w" by (simp add: w2b_def)
  then show ?thesis by (simp add: word_unat_eq_iff)
qed

lemma b2w_eq_iff [simp]: "b2w c = b2w d \<longleftrightarrow> c = d"
  by (metis w2b_b2w)

lemma w2b_eq_iff [simp]: "w2b v = w2b w \<longleftrightarrow> v = w"
  by (metis b2w_w2b)

text \<open>Little-endian and big-endian loads, as x86-64 and \<^verbatim>\<open>ntohs\<close>/\<^verbatim>\<open>ntohl\<close> give them.\<close>

definition le4 :: "char \<Rightarrow> char \<Rightarrow> char \<Rightarrow> char \<Rightarrow> 32 word" where
  "le4 a b c d = ucast (b2w a) OR push_bit 8 (ucast (b2w b))
     OR push_bit 16 (ucast (b2w c)) OR push_bit 24 (ucast (b2w d))"

definition le2 :: "char \<Rightarrow> char \<Rightarrow> 16 word" where
  "le2 a b = ucast (b2w a) OR push_bit 8 (ucast (b2w b))"

definition be2 :: "char \<Rightarrow> char \<Rightarrow> 64 word" where
  "be2 a b = push_bit 8 (ucast (b2w a)) OR ucast (b2w b)"

definition be4 :: "char \<Rightarrow> char \<Rightarrow> char \<Rightarrow> char \<Rightarrow> 64 word" where
  "be4 a b c d = push_bit 24 (ucast (b2w a)) OR push_bit 16 (ucast (b2w b))
     OR push_bit 8 (ucast (b2w c)) OR ucast (b2w d)"

lemma le2_byte0: "ucast (le2 a b) = b2w a"
  by (rule bit_word_eqI) (auto simp: le2_def bit_simps dest: bit_imp_le_length)

lemma le2_byte1: "ucast (drop_bit 8 (le2 a b)) = b2w b"
  by (rule bit_word_eqI) (auto simp: le2_def bit_simps dest: bit_imp_le_length)

lemma le2_eq_iff [simp]: "le2 a b = le2 a' b' \<longleftrightarrow> a = a' \<and> b = b'"
  by (metis b2w_eq_iff le2_byte0 le2_byte1)

lemma le4_byte0: "ucast (le4 a b c d) = b2w a"
  by (rule bit_word_eqI) (auto simp: le4_def bit_simps dest: bit_imp_le_length)

lemma le4_byte1: "ucast (drop_bit 8 (le4 a b c d)) = b2w b"
  by (rule bit_word_eqI) (auto simp: le4_def bit_simps dest: bit_imp_le_length)

lemma le4_byte2: "ucast (drop_bit 16 (le4 a b c d)) = b2w c"
  by (rule bit_word_eqI) (auto simp: le4_def bit_simps dest: bit_imp_le_length)

lemma le4_byte3: "ucast (drop_bit 24 (le4 a b c d)) = b2w d"
  by (rule bit_word_eqI) (auto simp: le4_def bit_simps dest: bit_imp_le_length)

lemma le4_eq_iff [simp]:
  "le4 a b c d = le4 a' b' c' d' \<longleftrightarrow> a = a' \<and> b = b' \<and> c = c' \<and> d = d'"
  by (metis b2w_eq_iff le4_byte0 le4_byte1 le4_byte2 le4_byte3)

text \<open>Masking with \<^verbatim>\<open>0x00ffffff\<close> keeps the three low bytes.\<close>

lemma le4_mask24: "le4 a b c d AND 0x00ffffff = le4 a b c NUL"
proof -
  have m: "(0x00ffffff :: 32 word) = mask 24" by (simp add: mask_eq_exp_minus_1)
  have z: "b2w NUL = 0" by (simp add: b2w_def)
  show ?thesis
    unfolding m by (rule bit_word_eqI) (auto simp: le4_def z bit_simps dest: bit_imp_le_length)
qed

section \<open>Memory behind strings and vectors\<close>

text \<open>
  \<^verbatim>\<open>s.data() + i\<close> for a \<^verbatim>\<open>std::string\<close>: the characters are followed by one terminating
  NUL that may be read. A read further out is a fault.
\<close>

definition peek :: "bytes \<Rightarrow> nat \<Rightarrow> char res" where
  "peek s i = (if i < length s then Inr (s ! i) else if i = length s then Inr NUL else Inl Oob)"

text \<open>\<^verbatim>\<open>*(int *)(s.data() + i)\<close>: four bytes, least significant first.\<close>

definition load32 :: "bytes \<Rightarrow> nat \<Rightarrow> 32 word res" where
  "load32 s i =
     rbind (peek s i) (\<lambda>a. rbind (peek s (i + 1)) (\<lambda>b.
     rbind (peek s (i + 2)) (\<lambda>c. rbind (peek s (i + 3)) (\<lambda>d. Inr (le4 a b c d)))))"

text \<open>A \<^verbatim>\<open>std::vector<char>\<close> has no terminator: only its elements may be read.\<close>

definition vat :: "bytes \<Rightarrow> nat \<Rightarrow> char res" where
  "vat v i = (if i < length v then Inr (v ! i) else Inl Oob)"

text \<open>\<^verbatim>\<open>std::string_view(s.data() + off)\<close>: up to the first NUL.\<close>

definition c_str :: "bytes \<Rightarrow> nat \<Rightarrow> bytes" where
  "c_str s off = takeWhile (\<lambda>c. c \<noteq> NUL) (drop off s)"

lemma peek_ok: "i \<le> length s \<Longrightarrow> is_ok (peek s i)"
  by (simp add: peek_def)

lemma peek_less [simp]: "i < length s \<Longrightarrow> peek s i = Inr (s ! i)"
  by (simp add: peek_def)

lemma vat_less [simp]: "i < length v \<Longrightarrow> vat v i = Inr (v ! i)"
  by (simp add: vat_def)

lemma load32_ok: "i + 3 \<le> length s \<Longrightarrow> is_ok (load32 s i)"
  by (simp add: load32_def peek_def)

lemma load32_less:
  "i + 3 < length s \<Longrightarrow> load32 s i = Inr (le4 (s ! i) (s ! (i + 1)) (s ! (i + 2)) (s ! (i + 3)))"
  by (simp add: load32_def)

lemma c_str_NUL_free: "NUL \<notin> set s \<Longrightarrow> c_str s off = drop off s"
  unfolding c_str_def by (rule takeWhile_eq_all_conv [THEN iffD2]) (auto dest: in_set_dropD)

section \<open>The C library\<close>

text \<open>\<^verbatim>\<open>tolower\<close> and \<^verbatim>\<open>isspace\<close> of the C locale, on the byte's code.\<close>

definition tolower :: "char \<Rightarrow> char" where
  "tolower c = (let n = (of_char c :: nat) in if 65 \<le> n \<and> n \<le> 90 then char_of (n + 32) else c)"

definition isspace :: "char \<Rightarrow> bool" where
  "isspace c = (let n = (of_char c :: nat) in n = 32 \<or> (9 \<le> n \<and> n \<le> 13))"

definition isdigit :: "char \<Rightarrow> bool" where
  "isdigit c = (let n = (of_char c :: nat) in 48 \<le> n \<and> n \<le> 57)"

definition digit_val :: "char \<Rightarrow> nat" where
  "digit_val c = of_char c - 48"

definition digits_val :: "bytes \<Rightarrow> nat" where
  "digits_val s = foldl (\<lambda>n c. 10 * n + digit_val c) 0 s"

text \<open>
  \<^verbatim>\<open>atoi\<close>: white space, an optional sign, digits up to the first other byte. A value outside
  \<^verbatim>\<open>int\<close> is undefined in C, so it is a fault here.
\<close>

definition atoi :: "bytes \<Rightarrow> int res" where
  "atoi s =
     (let t = dropWhile isspace s;
          neg = (t \<noteq> [] \<and> hd t = CHR ''-'');
          u = (if t \<noteq> [] \<and> (hd t = CHR ''-'' \<or> hd t = CHR ''+'') then tl t else t);
          n = int (digits_val (takeWhile isdigit u));
          v = (if neg then - n else n)
      in if - (2 ^ 31) \<le> v \<and> v < 2 ^ 31 then Inr v else Inl AtoiRange)"

lemma isdigit_not_space: "isdigit c \<Longrightarrow> \<not> isspace c"
  by (auto simp: isdigit_def isspace_def Let_def)

lemma isdigit_not_sign: "isdigit c \<Longrightarrow> c \<noteq> CHR ''-'' \<and> c \<noteq> CHR ''+'' \<and> c \<noteq> SP \<and> c \<noteq> NUL"
  by (auto simp: isdigit_def Let_def)

text \<open>\<^verbatim>\<open>atoi\<close> reads back a decimal numeral that a non-digit follows.\<close>

lemma atoi_decimal:
  assumes "ds \<noteq> []" "\<forall>c \<in> set ds. isdigit c" "rest = [] \<or> \<not> isdigit (hd rest)"
    and "digits_val ds < 2 ^ 31"
  shows "atoi (ds @ rest) = Inr (int (digits_val ds))"
proof -
  obtain d ds' where ds: "ds = d # ds'" using assms(1) by (cases ds) auto
  with assms(2) have d: "isdigit d" by simp
  have "dropWhile isspace (ds @ rest) = ds @ rest"
    using isdigit_not_space [OF d] by (simp add: ds)
  moreover have "takeWhile isdigit (ds @ rest) = ds"
    using assms(2,3) by (cases rest) (auto simp: takeWhile_append2 takeWhile_append)
  ultimately show ?thesis
    using assms(4) isdigit_not_sign [OF d] by (simp add: atoi_def ds)
qed

section \<open>std::map as a sorted association list\<close>

text \<open>
  \<^verbatim>\<open>m[k] = v\<close> overwrites, \<^verbatim>\<open>m.emplace(k, v)\<close> keeps what is there; iteration is in key order
  (\<^verbatim>\<open>std::less\<close> on strings: lexicographic on unsigned bytes).
\<close>

fun map_assign :: "'k::linorder \<Rightarrow> 'v \<Rightarrow> ('k \<times> 'v) list \<Rightarrow> ('k \<times> 'v) list" where
  "map_assign k v [] = [(k, v)]"
| "map_assign k v ((a, b) # ps) =
     (if k < a then (k, v) # (a, b) # ps
      else if k = a then (k, v) # ps else (a, b) # map_assign k v ps)"

definition map_emplace :: "'k::linorder \<Rightarrow> 'v \<Rightarrow> ('k \<times> 'v) list \<Rightarrow> ('k \<times> 'v) list" where
  "map_emplace k v m = (case map_of m k of None \<Rightarrow> map_assign k v m | Some _ \<Rightarrow> m)"

definition map_wf :: "('k::linorder \<times> 'v) list \<Rightarrow> bool" where
  "map_wf m = sorted_wrt (<) (map fst m)"

lemma map_of_assign: "map_of (map_assign k v m) = (map_of m)(k \<mapsto> v)"
  by (induction k v m rule: map_assign.induct) auto

lemma map_of_emplace:
  "map_of (map_emplace k v m) = (case map_of m k of None \<Rightarrow> (map_of m)(k \<mapsto> v) | Some _ \<Rightarrow> map_of m)"
  by (simp add: map_emplace_def map_of_assign split: option.split)

lemma set_map_assign: "fst ` set (map_assign k v m) = insert k (fst ` set m)"
  by (induction k v m rule: map_assign.induct) auto

lemma map_wf_Nil [simp]: "map_wf []"
  by (simp add: map_wf_def)

lemma map_wf_assign: "map_wf m \<Longrightarrow> map_wf (map_assign k v m)"
  unfolding map_wf_def
proof (induction k v m rule: map_assign.induct)
  case (2 k v a b ps)
  have keys: "\<forall>x \<in> set (map fst (map_assign k v ps)). x = k \<or> x \<in> set (map fst ps)"
    using set_map_assign [of k v ps] by force
  show ?case
  proof (cases "k < a \<or> k = a")
    case True
    with 2 show ?thesis by (auto intro: less_trans)
  next
    case False
    then have "a < k" using linorder_cases by blast
    have "\<forall>x \<in> set (map fst (map_assign k v ps)). a < x"
    proof
      fix x assume "x \<in> set (map fst (map_assign k v ps))"
      with keys have "x = k \<or> x \<in> set (map fst ps)" by blast
      with \<open>a < k\<close> 2(2) show "a < x" by auto
    qed
    with False 2 show ?thesis by simp
  qed
qed simp

lemma map_wf_emplace: "map_wf m \<Longrightarrow> map_wf (map_emplace k v m)"
  by (simp add: map_emplace_def map_wf_assign split: option.split)

end
