(* ===== verification/Hpl_Circular_Buffer.thy ===== *)
theory Hpl_Circular_Buffer
  imports Hpl_Prelude
begin

text \<open>
  The ring buffer of \<^verbatim>\<open>src/src/hpl_circular_buffer.h\<close>. Positions are \<^typ>\<open>size_t\<close> and wrap as in
  the code; the heap block is a byte list, \<^const>\<open>None\<close> for a null pointer; a pointer into it is an
  offset. \<^verbatim>\<open>malloc\<close> is an argument: \<^const>\<open>None\<close> when it fails, otherwise the block with its
  indeterminate contents. The contract is a byte queue, stated as a locale and interpreted on
  the buffer.
\<close>

section \<open>The class\<close>

record CircularBuffer =
  cb_size :: size_t
  cb_buffer :: "bytes option"
  cb_read_pos :: size_t
  cb_write_pos :: size_t

definition new_CircularBuffer :: "size_t \<Rightarrow> bytes option \<Rightarrow> CircularBuffer" where
  "new_CircularBuffer sz block =
     \<lparr>cb_size = sz, cb_buffer = block, cb_read_pos = 0, cb_write_pos = 0\<rparr>"

text \<open>Move construction: the new target and the emptied source.\<close>

definition move_CircularBuffer :: "CircularBuffer \<Rightarrow> CircularBuffer \<times> CircularBuffer" where
  "move_CircularBuffer other =
     (\<lparr>cb_size = cb_size other, cb_buffer = cb_buffer other,
       cb_read_pos = cb_read_pos other, cb_write_pos = cb_write_pos other\<rparr>,
      other\<lparr>cb_size := 0, cb_read_pos := 0, cb_write_pos := 0, cb_buffer := None\<rparr>)"

text \<open>
  Move assignment: the block it hands to \<^verbatim>\<open>free\<close>, if any, the target and the source. The flag
  says whether the two are the same object, which the code leaves alone.
\<close>

definition assign_CircularBuffer ::
    "bool \<Rightarrow> CircularBuffer \<Rightarrow> CircularBuffer \<Rightarrow> bytes option \<times> CircularBuffer \<times> CircularBuffer" where
  "assign_CircularBuffer same this other =
     (if same then (None, this, this)
      else (cb_buffer this, this\<lparr>cb_size := cb_size other, cb_buffer := cb_buffer other,
             cb_read_pos := cb_read_pos other, cb_write_pos := cb_write_pos other\<rparr>,
            other\<lparr>cb_size := 0, cb_read_pos := 0, cb_write_pos := 0, cb_buffer := None\<rparr>))"

text \<open>The destructor: the block it hands to \<^verbatim>\<open>free\<close>, if any, and what is left of the object.\<close>

definition delete_CircularBuffer :: "CircularBuffer \<Rightarrow> bytes option \<times> CircularBuffer" where
  "delete_CircularBuffer b = (case cb_buffer b of None \<Rightarrow> (None, b) | Some block \<Rightarrow> (Some block, b\<lparr>cb_buffer := None\<rparr>))"

text \<open>After a move only the target's destructor frees the block; a second destruction frees nothing.\<close>

lemma move_frees_once:
  assumes "move_CircularBuffer b = (t, s)"
  shows "fst (delete_CircularBuffer t) = cb_buffer b" "fst (delete_CircularBuffer s) = None"
    "fst (delete_CircularBuffer (snd (delete_CircularBuffer t))) = None"
  using assms by (auto simp: move_CircularBuffer_def delete_CircularBuffer_def split: option.split)

text \<open>Move assignment frees the target's old block, and each of the two blocks ends up freed once.\<close>

lemma assign_frees_once:
  assumes "assign_CircularBuffer False t0 b = (old, t, s)"
  shows "old = cb_buffer t0" "fst (delete_CircularBuffer t) = cb_buffer b" "fst (delete_CircularBuffer s) = None"
  using assms by (auto simp: assign_CircularBuffer_def delete_CircularBuffer_def split: option.split)

definition Capacity :: "CircularBuffer \<Rightarrow> size_t" where
  "Capacity b = cb_size b - 1"

definition ContinuousWriteBuffer :: "CircularBuffer \<Rightarrow> size_t \<times> size_t" where
  "ContinuousWriteBuffer b =
     (if cb_write_pos b < cb_read_pos b
      then (cb_write_pos b, cb_read_pos b - cb_write_pos b - 1)
      else (cb_write_pos b, cb_size b - cb_write_pos b - (if cb_read_pos b = 0 then 1 else 0)))"

definition Length :: "CircularBuffer \<Rightarrow> size_t" where
  "Length b =
     (if cb_write_pos b = cb_read_pos b then 0
      else if cb_write_pos b \<ge> cb_read_pos b then cb_write_pos b - cb_read_pos b
      else cb_size b - cb_read_pos b + cb_write_pos b)"

definition FreeSpace :: "CircularBuffer \<Rightarrow> size_t" where
  "FreeSpace b = Capacity b - Length b"

text \<open>\<^verbatim>\<open>memcpy(dst + doff, src + soff, n)\<close> between heap blocks, with its bounds.\<close>

definition memcpy :: "bytes \<Rightarrow> nat \<Rightarrow> bytes \<Rightarrow> nat \<Rightarrow> nat \<Rightarrow> bytes res" where
  "memcpy dst doff src soff n =
     (if doff + n \<le> length dst \<and> soff + n \<le> length src
      then Inr (take doff dst @ take n (drop soff src) @ drop (doff + n) dst) else Inl Oob)"

definition Extend :: "size_t \<Rightarrow> bytes option \<Rightarrow> CircularBuffer \<Rightarrow> (bool \<times> CircularBuffer) res" where
  "Extend new_size block b =
     (if new_size \<le> cb_size b then Inr (False, b)
      else case block of None \<Rightarrow> Inr (False, b)
      | Some new_buffer \<Rightarrow>
        let data_len = Length b;
            old = (case cb_buffer b of None \<Rightarrow> [] | Some m \<Rightarrow> m);
            copied =
              (if data_len > 0 then
                 if cb_read_pos b < cb_write_pos b
                 then memcpy new_buffer 0 old (unat (cb_read_pos b)) (unat data_len)
                 else rbind (memcpy new_buffer 0 old (unat (cb_read_pos b))
                              (unat (cb_size b - cb_read_pos b)))
                        (\<lambda>m. memcpy m (unat (cb_size b - cb_read_pos b)) old 0 (unat (cb_write_pos b)))
               else Inr new_buffer)
        in rbind copied (\<lambda>m. Inr (True,
             b\<lparr>cb_buffer := Some m, cb_size := new_size, cb_read_pos := 0, cb_write_pos := data_len\<rparr>)))"

datatype whence = SEEK_SET | SEEK_CUR | SEEK_END | SEEK_OTHER

definition ResetWritePos :: "size_t \<Rightarrow> whence \<Rightarrow> CircularBuffer \<Rightarrow> CircularBuffer" where
  "ResetWritePos offset w b =
     (case w of
        SEEK_SET \<Rightarrow> b\<lparr>cb_write_pos := offset\<rparr>
      | SEEK_CUR \<Rightarrow> b\<lparr>cb_write_pos := cb_write_pos b + offset\<rparr>
      | SEEK_END \<Rightarrow> b\<lparr>cb_write_pos := cb_size b - offset\<rparr>
      | SEEK_OTHER \<Rightarrow> b)"

text \<open>Two read views: offset (\<^const>\<open>None\<close> for the null pointer) and length.\<close>

definition GetReadViews ::
    "CircularBuffer \<Rightarrow> (size_t option \<times> size_t) \<times> (size_t option \<times> size_t)" where
  "GetReadViews b =
     (if cb_write_pos b < cb_read_pos b
      then ((Some (cb_read_pos b), cb_size b - cb_read_pos b), (Some 0, cb_write_pos b))
      else ((Some (cb_read_pos b), cb_write_pos b - cb_read_pos b), (None, 0)))"

text \<open>
  The remainder by \<^verbatim>\<open>size_\<close> is a division by zero in the code when the size is 0, that is on a
  buffer that was moved from; here it is total, and everything proved of it is about a ring with
  a block.
\<close>

definition Popout :: "size_t \<Rightarrow> CircularBuffer \<Rightarrow> size_t \<times> CircularBuffer" where
  "Popout len b =
     (if len > Length b then (0, b)
      else (len, b\<lparr>cb_read_pos := (cb_read_pos b + len) mod cb_size b\<rparr>))"

section \<open>What the buffer holds\<close>

definition view_bytes :: "bytes \<Rightarrow> size_t option \<times> size_t \<Rightarrow> bytes" where
  "view_bytes m v = (case fst v of None \<Rightarrow> [] | Some off \<Rightarrow> take (unat (snd v)) (drop (unat off) m))"

definition contents :: "CircularBuffer \<Rightarrow> bytes" where
  "contents b = (case cb_buffer b of None \<Rightarrow> []
     | Some m \<Rightarrow> view_bytes m (fst (GetReadViews b)) @ view_bytes m (snd (GetReadViews b)))"

text \<open>
  A well-formed ring: a block of the recorded size (an object is never larger than
  \<^verbatim>\<open>PTRDIFF_MAX\<close>), both positions inside it. The class leaves two things to its caller. To write,
  store at most the offered number of bytes at the offered offset and advance the write position
  by that many (\<open>store\<close>). And since the class does not wrap the write position (its comment says
  so), a caller whose bytes reached the end of the block moves it back to the start: \<open>put\<close>. Any
  offered length is allowed, up to the whole region.
\<close>

definition ring_wf :: "CircularBuffer \<Rightarrow> bool" where
  "ring_wf b \<longleftrightarrow> (\<exists>m. cb_buffer b = Some m \<and> length m = unat (cb_size b))
     \<and> unat (cb_size b) < 2 ^ 63 \<and> cb_read_pos b < cb_size b \<and> cb_write_pos b < cb_size b"

definition store :: "bytes \<Rightarrow> CircularBuffer \<Rightarrow> CircularBuffer res" where
  "store data b = (case cb_buffer b of None \<Rightarrow> Inl NullDeref
     | Some m \<Rightarrow> rbind (memcpy m (unat (fst (ContinuousWriteBuffer b))) data 0 (length data))
         (\<lambda>m'. Inr (ResetWritePos (of_nat (length data)) SEEK_CUR (b\<lparr>cb_buffer := Some m'\<rparr>))))"

definition put :: "bytes \<Rightarrow> CircularBuffer \<Rightarrow> CircularBuffer res" where
  "put data b = rbind (store data b) (\<lambda>b'.
     Inr (if cb_write_pos b' = cb_size b' then ResetWritePos 0 SEEK_SET b' else b'))"

definition put_ok :: "bytes \<Rightarrow> CircularBuffer \<Rightarrow> bool" where
  "put_ok data b \<longleftrightarrow> length data \<le> unat (snd (ContinuousWriteBuffer b))"

section \<open>Positions as natural numbers\<close>

lemma unat_Length:
  assumes "ring_wf b"
  shows "unat (Length b) =
    (if unat (cb_read_pos b) \<le> unat (cb_write_pos b)
     then unat (cb_write_pos b) - unat (cb_read_pos b)
     else unat (cb_size b) - unat (cb_read_pos b) + unat (cb_write_pos b))"
  using assms unfolding ring_wf_def Length_def by unat_arith

lemma ring_wf_bounds:
  assumes "ring_wf b"
  shows "unat (cb_read_pos b) < unat (cb_size b)" "unat (cb_write_pos b) < unat (cb_size b)"
    and "unat (cb_size b - cb_read_pos b) = unat (cb_size b) - unat (cb_read_pos b)"
  using assms unfolding ring_wf_def by unat_arith+

lemma unat_Capacity: "0 < cb_size b \<Longrightarrow> unat (Capacity b) = unat (cb_size b) - 1"
  unfolding Capacity_def by unat_arith

lemma unat_sub_le: "v \<le> (w :: size_t) \<Longrightarrow> unat (w - v) = unat w - unat v"
  by unat_arith

text \<open>The offered region lies inside the block and inside the free space.\<close>

lemma offered_nat:
  assumes "ring_wf b"
  shows "unat (snd (ContinuousWriteBuffer b)) =
    (if unat (cb_write_pos b) < unat (cb_read_pos b)
     then unat (cb_read_pos b) - unat (cb_write_pos b) - 1
     else unat (cb_size b) - unat (cb_write_pos b) - (if cb_read_pos b = 0 then 1 else 0))"
  using assms unfolding ring_wf_def ContinuousWriteBuffer_def
  by (auto simp: word_less_nat_alt) unat_arith+

lemma fst_ContinuousWriteBuffer [simp]: "fst (ContinuousWriteBuffer b) = cb_write_pos b"
  by (simp add: ContinuousWriteBuffer_def)

lemma contents_nat:
  assumes "cb_buffer b = Some m" "length m = unat (cb_size b)"
    and "cb_read_pos b < cb_size b" "cb_write_pos b \<le> cb_size b"
  shows "contents b =
    (if unat (cb_read_pos b) \<le> unat (cb_write_pos b)
     then take (unat (cb_write_pos b) - unat (cb_read_pos b)) (drop (unat (cb_read_pos b)) m)
     else drop (unat (cb_read_pos b)) m @ take (unat (cb_write_pos b)) m)"
  using assms
  by (auto simp: contents_def view_bytes_def GetReadViews_def word_less_nat_alt word_le_nat_alt
      unat_sub_le)

lemma length_contents: "ring_wf b \<Longrightarrow> length (contents b) = unat (Length b)"
  by (auto simp: ring_wf_def contents_nat word_less_nat_alt word_le_nat_alt unat_Length)

lemma Length_less_size: "ring_wf b \<Longrightarrow> unat (Length b) < unat (cb_size b)"
  using ring_wf_bounds [of b] by (auto simp: unat_Length)

lemma unat_FreeSpace:
  "ring_wf b \<Longrightarrow> unat (FreeSpace b) = unat (cb_size b) - 1 - unat (Length b)"
proof -
  assume wf: "ring_wf b"
  then have "0 < cb_size b" by (auto simp: ring_wf_def intro: le_less_trans)
  moreover have "Length b \<le> Capacity b"
    using Length_less_size [OF wf] unat_Capacity [OF \<open>0 < cb_size b\<close>] by (simp add: word_le_nat_alt)
  ultimately show ?thesis by (simp add: FreeSpace_def unat_sub_le unat_Capacity)
qed

section \<open>The operations against the queue\<close>

lemma take_drop_splice:
  assumes "r \<le> w" "w + length d \<le> length m"
  shows "take (w + length d - r) (drop r (take w m @ d @ drop (w + length d) m))
    = take (w - r) (drop r m) @ d"
proof -
  have "drop r (take w m @ d @ drop (w + length d) m)
      = take (w - r) (drop r m) @ d @ drop (w + length d) m"
    using assms by (simp add: drop_take)
  moreover have "length (take (w - r) (drop r m)) = w - r" using assms by simp
  ultimately show ?thesis using assms by (simp add: take_Cons')
qed

lemma store_inside:
  assumes wf: "ring_wf b" and ok: "put_ok d b" and bnd: "unat (cb_write_pos b) + length d < unat (cb_size b)"
  shows "\<exists>b'. store d b = Inr b' \<and> ring_wf b' \<and> contents b' = contents b @ d"
proof -
  obtain m where m: "cb_buffer b = Some m" "length m = unat (cb_size b)"
    using wf by (auto simp: ring_wf_def)
  let ?r = "unat (cb_read_pos b)" and ?w = "unat (cb_write_pos b)" and ?n = "unat (cb_size b)"
  let ?m = "take ?w m @ d @ drop (?w + length d) m"
  let ?b = "b\<lparr>cb_buffer := Some ?m, cb_write_pos := cb_write_pos b + of_nat (length d)\<rparr>"
  have "unat (cb_size b) < 2 ^ 63" using wf by (simp add: ring_wf_def)
  with bnd have w': "unat (cb_write_pos b + of_nat (length d)) = ?w + length d"
    by (simp add: unat_word_ariths unat_of_nat)
  have eq: "store d b = Inr ?b"
    using m bnd by (simp add: store_def memcpy_def ResetWritePos_def)
  have wf': "ring_wf ?b"
    using wf m bnd w' by (auto simp: ring_wf_def word_less_nat_alt)
  have off: "length d \<le> unat (snd (ContinuousWriteBuffer b))" using ok by (simp add: put_ok_def)
  have "contents ?b = contents b @ d"
  proof (cases "?r \<le> ?w")
    case True
    then have "contents ?b = take (?w + length d - ?r) (drop ?r ?m)"
      using m bnd w' wf' contents_nat [of ?b ?m]
      by (simp add: ring_wf_def word_less_nat_alt word_le_nat_alt del: take_append drop_append)
    also have "\<dots> = take (?w - ?r) (drop ?r m) @ d"
      using True bnd m by (intro take_drop_splice) auto
    also have "take (?w - ?r) (drop ?r m) = contents b"
      using True m wf by (simp add: ring_wf_def contents_nat word_less_nat_alt word_le_nat_alt)
    finally show ?thesis .
  next
    case False
    with off offered_nat [OF wf] have "?w + length d < ?r" by auto
    with False m wf wf' w' show ?thesis
      by (simp add: ring_wf_def contents_nat word_less_nat_alt word_le_nat_alt)
  qed
  with eq wf' show ?thesis by auto
qed

lemma Popout_step:
  assumes wf: "ring_wf b" and len: "unat len \<le> length (contents b)"
  shows "fst (Popout len b) = len \<and> ring_wf (snd (Popout len b))
    \<and> contents (snd (Popout len b)) = drop (unat len) (contents b)
    \<and> cb_size (snd (Popout len b)) = cb_size b"
proof -
  obtain m where m: "cb_buffer b = Some m" "length m = unat (cb_size b)"
    using wf by (auto simp: ring_wf_def)
  let ?r = "unat (cb_read_pos b)" and ?w = "unat (cb_write_pos b)" and ?n = "unat (cb_size b)"
  let ?k = "unat len"
  have bnds: "?r < ?n" "?w < ?n" using ring_wf_bounds [OF wf] by auto
  have le: "?k \<le> unat (Length b)" using len length_contents [OF wf] by simp
  then have ge: "\<not> len > Length b" by (simp add: word_less_nat_alt)
  have "?n < 2 ^ 63" using wf by (simp add: ring_wf_def)
  moreover have "?k < ?n" using le Length_less_size [OF wf] by simp
  ultimately have "unat ((cb_read_pos b + len) mod cb_size b) = (?r + ?k) mod ?n"
    using bnds by (simp add: unat_mod_distrib unat_word_ariths(1))
  then have r': "unat ((cb_read_pos b + len) mod cb_size b) = (if ?r + ?k < ?n then ?r + ?k else ?r + ?k - ?n)"
    using bnds \<open>?k < ?n\<close> by (simp add: mod_if)
  let ?b = "b\<lparr>cb_read_pos := (cb_read_pos b + len) mod cb_size b\<rparr>"
  have wf': "ring_wf ?b"
    using wf bnds r' \<open>?k < ?n\<close> by (auto simp: ring_wf_def word_less_nat_alt)
  have "contents ?b = drop ?k (contents b)"
    using wf wf' m r' bnds le \<open>?k < ?n\<close>
    by (auto simp: ring_wf_def contents_nat word_less_nat_alt word_le_nat_alt unat_Length [OF wf]
        drop_take ac_simps)
  with ge wf' show ?thesis by (simp add: Popout_def)
qed

lemma Popout_refused:
  "unat (Length b) < unat len \<Longrightarrow> Popout len b = (0, b)"
  by (simp add: Popout_def word_less_nat_alt)

text \<open>A write position equal to the block size: popping everything leaves a full length.\<close>

lemma Popout_at_end:
  assumes "cb_write_pos b = cb_size b" "0 < cb_read_pos b" "cb_read_pos b < cb_size b"
  shows "Popout (Length b) b = (Length b, b\<lparr>cb_read_pos := 0\<rparr>)"
    and "Length (b\<lparr>cb_read_pos := 0\<rparr>) = cb_size b"
    and "unat (Length b) = unat (cb_size b) - unat (cb_read_pos b)"
  using assms by (auto simp: Popout_def Length_def unat_sub_le)

lemma store_to_end:
  assumes wf: "ring_wf b" and rw: "0 < cb_read_pos b" "cb_read_pos b \<le> cb_write_pos b"
    and d: "length d = unat (snd (ContinuousWriteBuffer b))"
  shows "\<exists>b' m. store d b = Inr b' \<and> cb_write_pos b' = cb_size b \<and> cb_size b' = cb_size b
    \<and> cb_read_pos b' = cb_read_pos b \<and> cb_buffer b' = Some m \<and> length m = unat (cb_size b)
    \<and> contents b' = contents b @ d
    \<and> length (contents b') = unat (cb_size b) - unat (cb_read_pos b)"
proof -
  obtain m where m: "cb_buffer b = Some m" "length m = unat (cb_size b)"
    using wf by (auto simp: ring_wf_def)
  let ?r = "unat (cb_read_pos b)" and ?w = "unat (cb_write_pos b)" and ?n = "unat (cb_size b)"
  let ?m = "take ?w m @ d @ drop (?w + length d) m"
  let ?b = "b\<lparr>cb_buffer := Some ?m, cb_write_pos := cb_size b\<rparr>"
  have bnds: "?r < ?n" "?w < ?n" using ring_wf_bounds [OF wf] by auto
  have rw': "?r \<le> ?w" "\<not> cb_write_pos b < cb_read_pos b" using rw by (auto simp: word_le_nat_alt word_less_nat_alt)
  have off: "snd (ContinuousWriteBuffer b) = cb_size b - cb_write_pos b"
    using rw by (auto simp: ContinuousWriteBuffer_def)
  then have pos: "cb_write_pos b + of_nat (length d) = cb_size b" using d by simp
  have ld: "length d = ?n - ?w" using d off bnds by (simp add: unat_sub_le word_le_nat_alt)
  have eq: "store d b = Inr ?b"
    using m ld bnds pos by (simp add: store_def memcpy_def ResetWritePos_def)
  have "contents ?b = take (?w + length d - ?r) (drop ?r ?m)"
    using m bnds ld contents_nat [of ?b ?m]
    by (simp add: word_less_nat_alt word_le_nat_alt del: take_append drop_append)
  also have "\<dots> = take (?w - ?r) (drop ?r m) @ d"
    using rw' bnds ld m by (intro take_drop_splice) auto
  also have "take (?w - ?r) (drop ?r m) = contents b"
    using rw' m wf by (simp add: ring_wf_def contents_nat word_less_nat_alt word_le_nat_alt)
  finally have c: "contents ?b = contents b @ d" .
  have "length (contents b) = ?w - ?r" using length_contents [OF wf] unat_Length [OF wf] rw' by simp
  with c eq ld bnds rw' m show ?thesis by auto
qed

text \<open>Moving the write position from the end of the block to its start keeps what the ring holds.\<close>

lemma contents_wrap:
  assumes "cb_buffer b = Some m" "length m = unat (cb_size b)" "cb_write_pos b = cb_size b"
    and "0 < cb_read_pos b" "cb_read_pos b < cb_size b"
  shows "contents (ResetWritePos 0 SEEK_SET b) = contents b"
  using assms contents_nat [of b m] contents_nat [of "ResetWritePos 0 SEEK_SET b" m]
  by (simp add: ResetWritePos_def word_less_nat_alt word_le_nat_alt)

lemma put_step:
  assumes wf: "ring_wf b" and ok: "put_ok d b"
  shows "\<exists>b'. put d b = Inr b' \<and> ring_wf b' \<and> contents b' = contents b @ d"
proof (cases "unat (cb_write_pos b) + length d < unat (cb_size b)")
  case True
  from store_inside [OF wf ok this] obtain b' where "store d b = Inr b'" "ring_wf b'" "contents b' = contents b @ d" by blast
  moreover from this(2) have "cb_write_pos b' \<noteq> cb_size b'" by (auto simp: ring_wf_def)
  ultimately show ?thesis by (simp add: put_def)
next
  case False
  have off: "length d \<le> unat (snd (ContinuousWriteBuffer b))" using ok by (simp add: put_ok_def)
  have rw: "0 < cb_read_pos b" "cb_read_pos b \<le> cb_write_pos b" "length d = unat (snd (ContinuousWriteBuffer b))"
    using False off offered_nat [OF wf] ring_wf_bounds [OF wf]
    by (auto simp: word_le_nat_alt word_gt_0 split: if_splits)
  from store_to_end [OF wf rw] obtain b' m where b': "store d b = Inr b'" "cb_write_pos b' = cb_size b"
    "cb_size b' = cb_size b" "cb_read_pos b' = cb_read_pos b" "cb_buffer b' = Some m"
    "length m = unat (cb_size b)" "contents b' = contents b @ d" by blast
  let ?b = "ResetWritePos 0 SEEK_SET b'"
  have "ring_wf ?b" using wf b' by (auto simp: ring_wf_def ResetWritePos_def word_gt_0)
  moreover have "contents ?b = contents b @ d"
    using contents_wrap [of b' m] b' rw(1) wf by (simp add: ring_wf_def)
  ultimately show ?thesis using b'(1-3) by (simp add: put_def)
qed

text \<open>A block whose first bytes are the queue, read from position 0, holds the queue.\<close>

lemma contents_linear:
  assumes "length m = unat sz" "unat sz < 2 ^ 63" "unat len < unat sz"
  shows "ring_wf (b\<lparr>cb_buffer := Some m, cb_size := sz, cb_read_pos := 0, cb_write_pos := len\<rparr>)"
    and "contents (b\<lparr>cb_buffer := Some m, cb_size := sz, cb_read_pos := 0, cb_write_pos := len\<rparr>)
      = take (unat len) m"
  using assms by (auto simp: ring_wf_def contents_nat word_less_nat_alt word_le_nat_alt)

lemma Extend_copy:
  assumes wf: "ring_wf b" and m: "cb_buffer b = Some m" and len: "Length b > 0"
    and big: "unat (cb_size b) < length nb"
  shows "(if cb_read_pos b < cb_write_pos b
     then memcpy nb 0 m (unat (cb_read_pos b)) (unat (Length b))
     else rbind (memcpy nb 0 m (unat (cb_read_pos b)) (unat (cb_size b - cb_read_pos b)))
            (\<lambda>m'. memcpy m' (unat (cb_size b - cb_read_pos b)) m 0 (unat (cb_write_pos b))))
   = Inr (contents b @ drop (length (contents b)) nb)"
proof -
  have lm: "length m = unat (cb_size b)" using wf m by (auto simp: ring_wf_def)
  note bnds = ring_wf_bounds [OF wf]
  have ne: "unat (cb_read_pos b) \<noteq> unat (cb_write_pos b)"
    using len by (auto simp: Length_def word_unat_eq_iff split: if_splits)
  show ?thesis
  proof (cases "cb_read_pos b < cb_write_pos b")
    case True
    then have lt: "unat (cb_read_pos b) < unat (cb_write_pos b)" by (simp add: word_less_nat_alt)
    with wf m lm have "contents b = take (unat (Length b)) (drop (unat (cb_read_pos b)) m)"
      by (simp add: ring_wf_def contents_nat word_less_nat_alt word_le_nat_alt unat_Length [OF wf])
    with True lt lm bnds big length_contents [OF wf] unat_Length [OF wf] show ?thesis
      by (simp add: memcpy_def)
  next
    case False
    then have ge: "unat (cb_write_pos b) < unat (cb_read_pos b)"
      using ne by (simp add: word_less_nat_alt)
    with wf m lm have c: "contents b
        = drop (unat (cb_read_pos b)) m @ take (unat (cb_write_pos b)) m"
      by (simp add: ring_wf_def contents_nat word_less_nat_alt word_le_nat_alt)
    have "length (contents b) \<le> unat (cb_size b)"
      using length_contents [OF wf] Length_less_size [OF wf] by simp
    with False ge c lm bnds big show ?thesis
      by (auto simp: memcpy_def min_def add.commute)
  qed
qed

lemma Extend_step:
  assumes wf: "ring_wf b" and sz: "cb_size b < sz" "unat sz < 2 ^ 63" and nb: "length nb = unat sz"
  shows "\<exists>b'. Extend sz (Some nb) b = Inr (True, b') \<and> ring_wf b' \<and> contents b' = contents b
    \<and> cb_size b' = sz"
proof -
  obtain m where m: "cb_buffer b = Some m" using wf by (auto simp: ring_wf_def)
  let ?m = "contents b @ drop (length (contents b)) nb"
  let ?b = "b\<lparr>cb_buffer := Some ?m, cb_size := sz, cb_read_pos := 0, cb_write_pos := Length b\<rparr>"
  have lt: "unat (cb_size b) < unat sz" using sz by (simp add: word_less_nat_alt)
  have len: "unat (Length b) < unat sz" using Length_less_size [OF wf] lt by simp
  have lm: "length ?m = unat sz" using length_contents [OF wf] len nb by simp
  have "Extend sz (Some nb) b = Inr (True, ?b)"
  proof (cases "Length b > 0")
    case True
    with Extend_copy [OF wf m True, of nb] lt nb sz m show ?thesis by (simp add: Extend_def)
  next
    case False
    then have "Length b = 0" by (simp add: word_gt_0)
    with length_contents [OF wf] sz show ?thesis by (simp add: Extend_def)
  qed
  moreover have "contents ?b = contents b"
    using contents_linear(2) [OF lm sz(2) len, of b] length_contents [OF wf] by simp
  ultimately show ?thesis using contents_linear(1) [OF lm sz(2) len, of b] by auto
qed

section \<open>The queue contract\<close>

text \<open>
  A bounded byte queue as its clients see it, and what they may rely on: whatever is accepted
  comes out once, in order. A client is a list of operations; one that the queue cannot take is
  skipped, as a caller that checks the offered room and the length first does.
\<close>

datatype queue_op = Enq bytes | Deq nat

fun run_queue :: "('q \<Rightarrow> bytes) \<Rightarrow> (bytes \<Rightarrow> 'q \<Rightarrow> bool) \<Rightarrow> (bytes \<Rightarrow> 'q \<Rightarrow> 'q res) \<Rightarrow> (nat \<Rightarrow> 'q \<Rightarrow> 'q)
    \<Rightarrow> queue_op list \<Rightarrow> 'q \<Rightarrow> (bytes \<times> bytes \<times> 'q) res" where
  "run_queue q_abs q_room q_enq q_deq [] q = Inr ([], [], q)"
| "run_queue q_abs q_room q_enq q_deq (Enq d # ops) q =
     (if q_room d q
      then rbind (q_enq d q) (\<lambda>q'. rbind (run_queue q_abs q_room q_enq q_deq ops q')
             (\<lambda>(w, r, q''). Inr (d @ w, r, q'')))
      else run_queue q_abs q_room q_enq q_deq ops q)"
| "run_queue q_abs q_room q_enq q_deq (Deq n # ops) q =
     (if n \<le> length (q_abs q)
      then rbind (run_queue q_abs q_room q_enq q_deq ops (q_deq n q))
             (\<lambda>(w, r, q''). Inr (w, take n (q_abs q) @ r, q''))
      else run_queue q_abs q_room q_enq q_deq ops q)"

locale byte_queue =
  fixes q_invar :: "'q \<Rightarrow> bool"
    and q_abs :: "'q \<Rightarrow> bytes"
    and q_room :: "bytes \<Rightarrow> 'q \<Rightarrow> bool"
    and q_enq :: "bytes \<Rightarrow> 'q \<Rightarrow> 'q res"
    and q_deq :: "nat \<Rightarrow> 'q \<Rightarrow> 'q"
  assumes enq_law: "q_invar q \<Longrightarrow> q_room d q
      \<Longrightarrow> \<exists>q'. q_enq d q = Inr q' \<and> q_invar q' \<and> q_abs q' = q_abs q @ d"
    and deq_law: "q_invar q \<Longrightarrow> n \<le> length (q_abs q)
      \<Longrightarrow> q_invar (q_deq n q) \<and> q_abs (q_deq n q) = drop n (q_abs q)"
begin

lemma run_fifo:
  "q_invar q \<Longrightarrow> \<exists>w r q'. run_queue q_abs q_room q_enq q_deq ops q = Inr (w, r, q')
     \<and> q_invar q' \<and> q_abs q @ w = r @ q_abs q'"
proof (induction ops arbitrary: q)
  case Nil
  then show ?case by simp
next
  case (Cons x ops)
  show ?case
  proof (cases x)
    case (Enq d)
    show ?thesis
    proof (cases "q_room d q")
      case True
      from enq_law [OF Cons.prems True] obtain q1 where
        q1: "q_enq d q = Inr q1" "q_invar q1" "q_abs q1 = q_abs q @ d" by blast
      from Cons.IH [OF q1(2)] Enq True q1 show ?thesis by auto
    qed (use Cons Enq in simp)
  next
    case (Deq n)
    show ?thesis
    proof (cases "n \<le> length (q_abs q)")
      case True
      from deq_law [OF Cons.prems True] have
        q1: "q_invar (q_deq n q)" "q_abs (q_deq n q) = drop n (q_abs q)" by auto
      from Cons.IH [OF q1(1)] obtain w r q' where
        "run_queue q_abs q_room q_enq q_deq ops (q_deq n q) = Inr (w, r, q')" "q_invar q'"
        "drop n (q_abs q) @ w = r @ q_abs q'" using q1(2) by auto
      moreover from this(3) have "q_abs q @ w = (take n (q_abs q) @ r) @ q_abs q'"
        by (metis append.assoc append_take_drop_id)
      ultimately show ?thesis using Deq True by auto
    qed (use Cons Deq in simp)
  qed
qed

end

abbreviation ring_deq :: "nat \<Rightarrow> CircularBuffer \<Rightarrow> CircularBuffer" where
  "ring_deq n b \<equiv> snd (Popout (of_nat n) b)"

interpretation ring: byte_queue ring_wf contents put_ok put ring_deq
proof
  fix q :: CircularBuffer and d :: bytes
  assume "ring_wf q" "put_ok d q"
  then show "\<exists>q'. put d q = Inr q' \<and> ring_wf q' \<and> contents q' = contents q @ d"
    using put_step by blast
next
  fix q :: CircularBuffer and n
  assume wf: "ring_wf q" and n: "n \<le> length (contents q)"
  then have "n < 2 ^ 63"
    using length_contents [OF wf] Length_less_size [OF wf] by (simp add: ring_wf_def)
  then have "unat (of_nat n :: size_t) = n" by (simp add: unat_of_nat)
  with Popout_step [OF wf, of "of_nat n"] n
  show "ring_wf (ring_deq n q) \<and> contents (ring_deq n q) = drop n (contents q)" by simp
qed

section \<open>Properties\<close>

text \<open>
  C11. A ring used through its offered regions is a first-in first-out queue, provided that its
  caller moves the write position back to the start whenever its bytes reached the end of the
  block, since the class does not wrap it. Every sequence of writes of up to the whole offered
  region (the region that ends at the end of the block included) and of pops of up to the held
  length runs without a memory fault, and the bytes read followed by the bytes still held are the
  bytes held before followed by the bytes written. A write longer than the offer and a pop longer
  than the contents are not made.
\<close>

theorem ring_fifo:
  assumes "ring_wf b"
  shows "\<exists>w r b'. run_queue contents put_ok put ring_deq ops b = Inr (w, r, b')
    \<and> ring_wf b' \<and> contents b @ w = r @ contents b'"
  using assms by (rule ring.run_fifo)

definition ring8 :: CircularBuffer where
  "ring8 = new_CircularBuffer 8 (Some (replicate 8 NUL))"

lemma ring8_wf: "ring_wf ring8"
  by (simp add: ring_wf_def ring8_def new_CircularBuffer_def)

theorem ring_fifo_witness:
  "\<exists>w r b'. run_queue contents put_ok put ring_deq [Enq ''abcd'', Deq 2, Enq ''efgh'', Enq ''i'', Deq 7] ring8
      = Inr (w, r, b')
    \<and> ring_wf b' \<and> contents ring8 @ w = r @ contents b'"
  using ring_fifo [OF ring8_wf] by blast

text \<open>
  The bookkeeping never exceeds the block: the data length and the free space add up to the
  capacity, and the region offered for writing lies inside the block and inside the free space.
\<close>

theorem ring_bounds:
  assumes "ring_wf b"
  shows "unat (Length b) + unat (FreeSpace b) = unat (Capacity b)
    \<and> unat (snd (ContinuousWriteBuffer b)) \<le> unat (FreeSpace b)
    \<and> unat (fst (ContinuousWriteBuffer b)) + unat (snd (ContinuousWriteBuffer b)) \<le> unat (cb_size b)"
proof -
  have "0 < cb_size b" using assms by (auto simp: ring_wf_def intro: le_less_trans)
  then have cap: "unat (Capacity b) = unat (cb_size b) - 1" by (rule unat_Capacity)
  have rd: "cb_read_pos b = 0 \<longleftrightarrow> unat (cb_read_pos b) = 0" by (simp add: unat_eq_0)
  show ?thesis
    using ring_wf_bounds [OF assms] unat_FreeSpace [OF assms] offered_nat [OF assms]
      unat_Length [OF assms] Length_less_size [OF assms] cap rd
    by (auto split: if_splits)
qed

theorem ring_bounds_witness:
  "unat (Length ring8) + unat (FreeSpace ring8) = unat (Capacity ring8)
    \<and> unat (snd (ContinuousWriteBuffer ring8)) \<le> unat (FreeSpace ring8)
    \<and> unat (fst (ContinuousWriteBuffer ring8)) + unat (snd (ContinuousWriteBuffer ring8))
      \<le> unat (cb_size ring8)"
  by (rule ring_bounds [OF ring8_wf])

text \<open>
  Growing the ring keeps its contents in order, for a wrapped as well as for a contiguous
  layout, and both copies stay inside the old and the new block.
\<close>

theorem ring_extend_keeps_contents:
  assumes "ring_wf b" "cb_size b < sz" "unat sz < 2 ^ 63" "length nb = unat sz"
  shows "\<exists>b'. Extend sz (Some nb) b = Inr (True, b') \<and> ring_wf b'
    \<and> contents b' = contents b \<and> Capacity b < Capacity b'"
proof -
  from Extend_step [OF assms] obtain b' where
    b': "Extend sz (Some nb) b = Inr (True, b')" "ring_wf b'" "contents b' = contents b"
      "cb_size b' = sz" by blast
  have "cb_read_pos b < cb_size b" using assms(1) by (simp add: ring_wf_def)
  with assms(2) b'(4) have "Capacity b < Capacity b'" unfolding Capacity_def by unat_arith
  with b' show ?thesis by blast
qed

definition ring_wrapped :: CircularBuffer where
  "ring_wrapped = \<lparr>cb_size = 4, cb_buffer = Some ''cxab'', cb_read_pos = 2, cb_write_pos = 1\<rparr>"

theorem ring_extend_keeps_contents_witness:
  "contents ring_wrapped = ''abc'' \<and> (\<exists>b'. Extend 6 (Some ''------'') ring_wrapped = Inr (True, b')
    \<and> ring_wf b' \<and> contents b' = contents ring_wrapped \<and> Capacity ring_wrapped < Capacity b')"
proof
  show "contents ring_wrapped = ''abc''"
    by (simp add: contents_def ring_wrapped_def GetReadViews_def view_bytes_def)
  show "\<exists>b'. Extend 6 (Some ''------'') ring_wrapped = Inr (True, b')
    \<and> ring_wf b' \<and> contents b' = contents ring_wrapped \<and> Capacity ring_wrapped < Capacity b'"
    by (rule ring_extend_keeps_contents) (simp_all add: ring_wf_def ring_wrapped_def)
qed

text \<open>
  The write position is never wrapped by the class: a caller that fills the whole region offered
  up to the end of the block without moving the position back itself, and then pops everything,
  finds the ring reporting a full block of data instead of none.
\<close>

theorem ring_write_to_end_not_empty:
  assumes "ring_wf b" "0 < cb_read_pos b" "cb_read_pos b \<le> cb_write_pos b"
    and "length d = unat (snd (ContinuousWriteBuffer b))"
  shows "\<exists>b'. store d b = Inr b' \<and> contents b' = contents b @ d
    \<and> fst (Popout (Length b') b') = Length b' \<and> unat (Length b') = length (contents b')
    \<and> Length (snd (Popout (Length b') b')) = cb_size b"
proof -
  from store_to_end [OF assms] obtain b' where
    b': "store d b = Inr b'" "cb_write_pos b' = cb_size b'" "cb_size b' = cb_size b"
      "cb_read_pos b' = cb_read_pos b" "contents b' = contents b @ d"
      "length (contents b') = unat (cb_size b) - unat (cb_read_pos b)" by auto
  moreover have "cb_read_pos b' < cb_size b'" using assms(1) b' by (simp add: ring_wf_def)
  ultimately show ?thesis using Popout_at_end [of b'] assms(2) by auto
qed

theorem ring_write_to_end_not_empty_witness:
  "\<exists>b'. store ''y'' \<lparr>cb_size = 4, cb_buffer = Some ''---x'', cb_read_pos = 2, cb_write_pos = 3\<rparr> = Inr b'
    \<and> contents b' = contents \<lparr>cb_size = 4, cb_buffer = Some ''---x'', cb_read_pos = 2, cb_write_pos = 3\<rparr> @ ''y''
    \<and> fst (Popout (Length b') b') = Length b' \<and> unat (Length b') = length (contents b')
    \<and> Length (snd (Popout (Length b') b')) = 4"
  using ring_write_to_end_not_empty
    [of "\<lparr>cb_size = 4, cb_buffer = Some ''---x'', cb_read_pos = 2, cb_write_pos = 3\<rparr>" "''y''"]
  by (simp add: ring_wf_def ContinuousWriteBuffer_def)

end
