(* ===== verification/Hpl_Str.thy ===== *)
theory Hpl_Str
  imports Hpl_Prelude
begin

text \<open>
  The case-insensitive helpers of \<^verbatim>\<open>src/src/hpl_str.h\<close>. \<open>icase_cmp\<close> compares only as many bytes
  as the shorter argument has; \<open>icase_find\<close> is \<^verbatim>\<open>std::search\<close> from an offset.
\<close>

definition char_eq_icase :: "char \<Rightarrow> char \<Rightarrow> bool" where
  "char_eq_icase c1 c2 \<longleftrightarrow> tolower c1 = tolower c2"

definition icase_cmp :: "bytes \<Rightarrow> bytes \<Rightarrow> bool" where
  "icase_cmp s1 s2 =
     (let distance = (if length s1 < length s2 then length s1 else length s2)
      in list_all2 char_eq_icase (take distance s1) (take distance s2))"

fun icase_search :: "bytes \<Rightarrow> bytes \<Rightarrow> nat" where
  "icase_search pat s =
     (if length pat \<le> length s \<and> list_all2 char_eq_icase (take (length pat) s) pat then 0
      else case s of [] \<Rightarrow> 0 | _ # s' \<Rightarrow> Suc (icase_search pat s'))"

declare icase_search.simps [simp del]

definition icase_find :: "bytes \<Rightarrow> nat \<Rightarrow> bytes \<Rightarrow> nat res" where
  "icase_find s1 s1_off s2 =
     (if s1_off \<le> length s1 then Inr (s1_off + icase_search s2 (drop s1_off s1)) else Inl Oob)"

section \<open>Lemmas\<close>

text \<open>A keyword no longer than the text: the comparison is a case-insensitive prefix test.\<close>

lemma icase_cmp_prefix:
  "length kw \<le> length s \<Longrightarrow> icase_cmp s kw \<longleftrightarrow> map tolower (take (length kw) s) = map tolower kw"
  by (auto simp: icase_cmp_def char_eq_icase_def list_all2_conv_all_nth list_eq_iff_nth_eq Let_def)

lemma icase_cmp_sym: "icase_cmp s1 s2 \<longleftrightarrow> icase_cmp s2 s1"
  by (auto simp: icase_cmp_def Let_def char_eq_icase_def list_all2_conv_all_nth)

lemma icase_cmp_Nil [simp]: "icase_cmp [] s"
  by (simp add: icase_cmp_def)

lemma icase_cmp_Cons [simp]:
  "icase_cmp (x # xs) (y # ys) \<longleftrightarrow> tolower x = tolower y \<and> icase_cmp xs ys"
  by (auto simp: icase_cmp_def Let_def char_eq_icase_def)

lemma icase_cmp_Nil2 [simp]: "icase_cmp s []"
  by (simp add: icase_cmp_def)

definition icase_at :: "bytes \<Rightarrow> bytes \<Rightarrow> nat \<Rightarrow> bool" where
  "icase_at s pat i \<longleftrightarrow>
     i + length pat \<le> length s \<and> map tolower (take (length pat) (drop i s)) = map tolower pat"

lemma list_all2_icase: "list_all2 char_eq_icase xs ys \<longleftrightarrow> map tolower xs = map tolower ys"
  by (auto simp: char_eq_icase_def list_all2_conv_all_nth list_eq_iff_nth_eq)

lemma icase_search_correct:
  "(icase_at s pat (icase_search pat s) \<or> icase_search pat s = length s)
   \<and> icase_search pat s \<le> length s \<and> (\<forall>j < icase_search pat s. \<not> icase_at s pat j)"
proof (induction pat s rule: icase_search.induct)
  case (1 pat s)
  let ?hit = "length pat \<le> length s \<and> list_all2 char_eq_icase (take (length pat) s) pat"
  show ?case
  proof (cases ?hit)
    case True
    then show ?thesis by (simp add: icase_search.simps [of pat s] icase_at_def list_all2_icase)
  next
    case miss: False
    show ?thesis
    proof (cases s)
      case Nil
      then show ?thesis by (simp add: icase_search.simps [of pat "[]"])
    next
      case (Cons x s')
      have no0: "\<not> icase_at s pat 0" using miss by (auto simp: icase_at_def list_all2_icase)
      have shift: "icase_at s pat (Suc j) = icase_at s' pat j" for j
        using Cons by (simp add: icase_at_def)
      have "icase_search pat s = Suc (icase_search pat s')"
        using miss Cons icase_search.simps [of pat s] by auto
      with "1.IH" [OF miss Cons] no0 shift Cons show ?thesis
        by (auto simp: less_Suc_eq_0_disj)
    qed
  qed
qed

section \<open>Properties\<close>

text \<open>
  \<open>icase_find\<close> is a total search on every offset inside the text: it returns the first
  position at or after the offset where the pattern occurs up to ASCII case, or the end.
\<close>

theorem icase_find_first:
  assumes "off \<le> length s"
  shows "\<exists>k. icase_find s off pat = Inr k \<and> off \<le> k \<and> k \<le> length s
    \<and> (icase_at s pat k \<or> k = length s) \<and> (\<forall>j. off \<le> j \<and> j < k \<longrightarrow> \<not> icase_at s pat j)"
proof -
  let ?t = "drop off s" and ?k = "icase_search pat (drop off s)"
  have shift: "icase_at s pat (off + j) = icase_at ?t pat j" if "off + j \<le> length s" for j
    using assms that by (auto simp: icase_at_def ac_simps)
  from icase_search_correct [of ?t pat] have k: "off + ?k \<le> length s"
    and hit: "icase_at ?t pat ?k \<or> ?k = length s - off"
    and first: "\<And>j. j < ?k \<Longrightarrow> \<not> icase_at ?t pat j" using assms by auto
  have "icase_at s pat (off + ?k) \<or> off + ?k = length s"
    using hit shift [OF k] assms by auto
  moreover have "\<not> icase_at s pat j" if "off \<le> j" "j < off + ?k" for j
    using first [of "j - off"] shift [of "j - off"] that k by simp
  ultimately show ?thesis using k by (auto simp: icase_find_def assms)
qed

theorem icase_find_first_witness:
  "\<exists>k. icase_find ''a KEEP-alive'' 1 ''keep'' = Inr k \<and> 1 \<le> k \<and> k \<le> length ''a KEEP-alive''
    \<and> (icase_at ''a KEEP-alive'' ''keep'' k \<or> k = length ''a KEEP-alive'')
    \<and> (\<forall>j. 1 \<le> j \<and> j < k \<longrightarrow> \<not> icase_at ''a KEEP-alive'' ''keep'' j)"
  by (rule icase_find_first) simp

end
