(* ===== verification/Hpl_Method_Version.thy ===== *)
theory Hpl_Method_Version
  imports Hpl_Prelude
begin

text \<open>
  The method and version tokens of the request line: \<^verbatim>\<open>src/src/hpl_method.h\<close>, \<^verbatim>\<open>hpl_method.cc\<close>,
  \<^verbatim>\<open>hpl_version.h\<close> and \<^verbatim>\<open>hpl_version.cc\<close>. Tokens are compared as 32-bit loads from the text, so
  every load carries its bounds. The enumerators called \<^verbatim>\<open>UNKNOWN\<close> in both enums are
  \<open>UNKNOWN_METHOD\<close> and \<open>UNKNOWN_VERSION\<close> here.
\<close>

section \<open>Methods\<close>

datatype HttpMethod =
    GET | POST | PUT | DELETE | HEAD | CONNECT | OPTIONS | TRACE | PATCH | UNKNOWN_METHOD

text \<open>\<^verbatim>\<open>static_cast<int>(method)\<close>\<close>

fun method_index :: "HttpMethod \<Rightarrow> nat" where
  "method_index GET = 0"
| "method_index POST = 1"
| "method_index PUT = 2"
| "method_index DELETE = 3"
| "method_index HEAD = 4"
| "method_index CONNECT = 5"
| "method_index OPTIONS = 6"
| "method_index TRACE = 7"
| "method_index PATCH = 8"
| "method_index UNKNOWN_METHOD = 9"

definition IntGET :: "32 word" where "IntGET = le4 (CHR ''G'') (CHR ''E'') (CHR ''T'') NUL"
definition IntPUT :: "32 word" where "IntPUT = le4 (CHR ''P'') (CHR ''U'') (CHR ''T'') NUL"
definition IntPOST :: "32 word" where "IntPOST = le4 (CHR ''P'') (CHR ''O'') (CHR ''S'') (CHR ''T'')"

definition ParseHttpMethod :: "bytes \<Rightarrow> nat \<Rightarrow> nat \<Rightarrow> (HttpMethod \<times> nat) res" where
  "ParseHttpMethod method pos end_pos =
     rbind (load32 method pos) (\<lambda>v.
       if v AND 0x00ffffff = IntGET then Inr (GET, pos + 3)
       else if v AND 0x00ffffff = IntPUT then Inr (PUT, pos + 3)
       else if v = IntPOST then Inr (POST, pos + 4)
       else Inr (UNKNOWN_METHOD, end_pos))"

section \<open>Versions\<close>

datatype HttpVersion = HTTP_1_0 | HTTP_1_1 | HTTP_2_0 | WS | UNKNOWN_VERSION

definition IntHTTP :: "32 word" where "IntHTTP = le4 (CHR ''H'') (CHR ''T'') (CHR ''T'') (CHR ''P'')"
definition IntWS :: "32 word" where "IntWS = le4 (CHR ''W'') (CHR ''S'') (CHR ''S'') (CHR ''/'')"
definition Int1_0 :: "32 word" where "Int1_0 = le4 (CHR ''1'') (CHR ''.'') (CHR ''0'') NUL"
definition Int1_1 :: "32 word" where "Int1_1 = le4 (CHR ''1'') (CHR ''.'') (CHR ''1'') NUL"
definition Int2_0 :: "32 word" where "Int2_0 = le4 (CHR ''2'') (CHR ''.'') (CHR ''0'') NUL"

text \<open>
  A \<^verbatim>\<open>const char *\<close> argument is the text it points into and an offset; the \<^verbatim>\<open>string_view\<close> made of
  it ends at the first NUL.
\<close>

definition HttpVersion_number :: "bytes \<Rightarrow> nat \<Rightarrow> nat \<Rightarrow> (HttpVersion \<times> nat) res" where
  "HttpVersion_number s off end_pos =
     rbind (load32 s off) (\<lambda>w. let v = w AND 0x00ffffff in
       if v = Int1_0 then Inr (HTTP_1_0, 3)
       else if v = Int1_1 then Inr (HTTP_1_1, 3)
       else if v = Int2_0 then Inr (HTTP_2_0, 3)
       else Inr (UNKNOWN_VERSION, end_pos))"

definition WsVersion :: "bytes \<Rightarrow> nat \<Rightarrow> nat \<Rightarrow> (HttpVersion \<times> nat) res" where
  "WsVersion s off end_pos = Inr (WS, end_pos)"

definition ParseHttpVersion :: "bytes \<Rightarrow> nat \<Rightarrow> nat \<Rightarrow> (HttpVersion \<times> nat) res" where
  "ParseHttpVersion s off end_pos =
     rbind (load32 s off) (\<lambda>v.
       let version = c_str s off in
       if v = IntHTTP \<and> length version > 4 \<and> version ! 4 = CHR ''/''
       then HttpVersion_number s (off + 5) end_pos
       else if v = IntWS then WsVersion s (off + 4) end_pos
       else Inr (UNKNOWN_VERSION, end_pos))"

fun HttpVersionToString :: "HttpVersion \<Rightarrow> bytes" where
  "HttpVersionToString HTTP_1_0 = ''HTTP/1.0''"
| "HttpVersionToString HTTP_1_1 = ''HTTP/1.1''"
| "HttpVersionToString HTTP_2_0 = ''HTTP/2.0''"
| "HttpVersionToString WS = ''WS''"
| "HttpVersionToString UNKNOWN_VERSION = ''UNKNOWN''"

lemmas token_defs = IntGET_def IntPUT_def IntPOST_def IntHTTP_def IntWS_def
  Int1_0_def Int1_1_def Int2_0_def le4_mask24

section \<open>Lemmas\<close>

lemma take3_eq: "i + 3 \<le> length s \<Longrightarrow> take 3 (drop i s) = [s ! i, s ! (i + 1), s ! (i + 2)]"
  by (rule nth_equalityI) (auto simp: numeral_3_eq_3 nth_Cons less_Suc_eq split: nat.splits)

lemma take4_eq:
  "i + 4 \<le> length s \<Longrightarrow> take 4 (drop i s) = [s ! i, s ! (i + 1), s ! (i + 2), s ! (i + 3)]"
  by (rule nth_equalityI) (auto simp: eval_nat_numeral nth_Cons less_Suc_eq split: nat.splits)

lemma load32_at_end:
  "i + 3 = length s \<Longrightarrow> load32 s i = Inr (le4 (s ! i) (s ! (i + 1)) (s ! (i + 2)) NUL)"
  by (simp add: load32_def peek_def)

lemma ParseHttpMethod_spec:
  assumes "pos + 3 \<le> length m"
  shows "ParseHttpMethod m pos e = Inr (
     if take 3 (drop pos m) = ''GET'' then (GET, pos + 3)
     else if take 3 (drop pos m) = ''PUT'' then (PUT, pos + 3)
     else if take 4 (drop pos m) = ''POST'' then (POST, pos + 4)
     else (UNKNOWN_METHOD, e))"
proof (cases "pos + 3 = length m")
  case True
  then have "length (take 4 (drop pos m)) = 3" by simp
  then have "length (take 4 (drop pos m)) \<noteq> length ''POST''" by simp
  then have "take 4 (drop pos m) \<noteq> ''POST''" by metis
  with True load32_at_end [OF True] take3_eq [OF assms] show ?thesis
    by (simp add: ParseHttpMethod_def token_defs)
next
  case False
  with assms have "pos + 3 < length m" by simp
  with load32_less [OF this] take3_eq [OF assms] take4_eq [of pos m] show ?thesis
    by (simp add: ParseHttpMethod_def token_defs)
qed

lemma ParseHttpMethod_range:
  "ParseHttpMethod m pos e = Inr (r, e') \<Longrightarrow> r \<in> {GET, PUT, POST, UNKNOWN_METHOD}"
  by (auto simp: ParseHttpMethod_def res_simps split: if_splits)

lemma ParseHttpVersion_ok: "off + 9 \<le> length s \<Longrightarrow> is_ok (ParseHttpVersion s off e)"
  using load32_ok [of off s] load32_ok [of "off + 5" s]
  by (auto simp: ParseHttpVersion_def HttpVersion_number_def WsVersion_def Let_def is_ok_iff
      rbind_def split: sum.splits)

text \<open>A load behind a known prefix.\<close>

lemma load32_append: "load32 (p @ a # b # c # d # s) (length p) = Inr (le4 a b c d)"
  by (simp add: load32_def nth_append)

lemma load32_append_end: "load32 (p @ [a, b, c]) (length p) = Inr (le4 a b c NUL)"
  by (simp add: load32_def peek_def nth_append)

lemma ParseHttpVersion_HTTP:
  "ParseHttpVersion (p @ ''HTTP/'' @ s) (length p) e = HttpVersion_number (p @ ''HTTP/'' @ s) (length p + 5) e"
  using load32_append [of p "CHR ''H''" "CHR ''T''" "CHR ''T''" "CHR ''P''" "CHR ''/'' # s"]
  by (simp add: ParseHttpVersion_def token_defs c_str_def)

lemma HttpVersion_number_append:
  "HttpVersion_number (q @ a # b # c # s) (length q) e =
     Inr (if [a, b, c] = ''1.0'' then (HTTP_1_0, 3) else if [a, b, c] = ''1.1'' then (HTTP_1_1, 3)
          else if [a, b, c] = ''2.0'' then (HTTP_2_0, 3) else (UNKNOWN_VERSION, e))"
  using load32_append [of q a b c] load32_append_end [of q a b c]
  by (cases s) (auto simp: HttpVersion_number_def token_defs Let_def)

lemma ParseHttpVersion_number:
  "ParseHttpVersion (p @ ''HTTP/'' @ a # b # c # s) (length p) e =
     Inr (if [a, b, c] = ''1.0'' then (HTTP_1_0, 3) else if [a, b, c] = ''1.1'' then (HTTP_1_1, 3)
          else if [a, b, c] = ''2.0'' then (HTTP_2_0, 3) else (UNKNOWN_VERSION, e))"
proof -
  have "length p + 5 = length (p @ ''HTTP/'')" by simp
  then show ?thesis
    using ParseHttpVersion_HTTP [of p "a # b # c # s" e]
      HttpVersion_number_append [of "p @ ''HTTP/''" a b c s e]
    by (simp only: append.assoc)
qed

lemma version_roundtrip_lemma:
  assumes "v \<in> {HTTP_1_0, HTTP_1_1, HTTP_2_0}"
  shows "ParseHttpVersion (p @ HttpVersionToString v @ s) (length p) e = Inr (v, 3)"
  using assms ParseHttpVersion_number [of p "CHR ''1''" "CHR ''.''" "CHR ''0''" s e]
    ParseHttpVersion_number [of p "CHR ''1''" "CHR ''.''" "CHR ''1''" s e]
    ParseHttpVersion_number [of p "CHR ''2''" "CHR ''.''" "CHR ''0''" s e]
  by auto

section \<open>Properties\<close>

text \<open>
  The 32-bit comparison recognises exactly the words GET, PUT and POST at the position, moves
  the position past the word, and leaves it alone otherwise; three readable bytes are enough.
\<close>

theorem method_token:
  assumes "pos + 3 \<le> length m"
  shows "ParseHttpMethod m pos e = Inr (
     if take 3 (drop pos m) = ''GET'' then (GET, pos + 3)
     else if take 3 (drop pos m) = ''PUT'' then (PUT, pos + 3)
     else if take 4 (drop pos m) = ''POST'' then (POST, pos + 4)
     else (UNKNOWN_METHOD, e))"
  using assms by (rule ParseHttpMethod_spec)

theorem method_token_witness:
  "ParseHttpMethod ''DELETE / HTTP/1.1'' 0 0 = Inr (
     if take 3 (drop 0 ''DELETE / HTTP/1.1'') = ''GET'' then (GET, 0 + 3)
     else if take 3 (drop 0 ''DELETE / HTTP/1.1'') = ''PUT'' then (PUT, 0 + 3)
     else if take 4 (drop 0 ''DELETE / HTTP/1.1'') = ''POST'' then (POST, 0 + 4)
     else (UNKNOWN_METHOD, 0))"
  by (rule method_token) simp

text \<open>
  Printing an HTTP version and parsing it, wherever it stands in the text and whatever
  follows it, gives the version back.
\<close>

theorem version_roundtrip:
  assumes "v \<in> {HTTP_1_0, HTTP_1_1, HTTP_2_0}"
  shows "ParseHttpVersion (p @ HttpVersionToString v @ s) (length p) e = Inr (v, 3)"
  using assms by (rule version_roundtrip_lemma)

theorem version_roundtrip_witness:
  "ParseHttpVersion (''GET / '' @ HttpVersionToString HTTP_1_1 @ CRLF) (length ''GET / '') 0
    = Inr (HTTP_1_1, 3)"
  by (rule version_roundtrip) simp

end
