(* ===== verification/Hpl_Header_Parser.thy ===== *)
theory Hpl_Header_Parser
  imports Hpl_Str Hpl_Method_Version
begin

text \<open>
  The request parser, \<^verbatim>\<open>src/src/hpl_header_parser.h\<close> and \<^verbatim>\<open>hpl_header_parser.cc\<close>: one line (or one
  piece of body) per call of \<open>PushLine\<close>, a four-state machine. An iterator into the line is its
  offset; forming an offset past the end is not a fault, reading there is. Every loop of the
  source is a recursive function: those that always stop carry their termination proof, and the
  loop over the Connection header, which may not stop, runs on fuel with the proof that the fuel
  chosen is enough whenever the loop stops at all.
\<close>

section \<open>The class\<close>

datatype ParserState = FirstLine | Headers | Body | Done

definition ConnectionClose :: "32 word" where "ConnectionClose = 1"
definition ConnectionKeepAlive :: "32 word" where "ConnectionKeepAlive = 2"
definition ConnectionUpgrade :: "32 word" where "ConnectionUpgrade = 4"
definition UpgradeWebSocket :: "32 word" where "UpgradeWebSocket = 1"

record HttpHeaderParser =
  http_method :: HttpMethod
  uri :: bytes
  version :: HttpVersion
  headers :: "(bytes \<times> bytes) list"
  connection_flags :: "32 word"
  upgrade_flags :: "32 word"
  host :: bytes
  user_agent :: bytes
  content_length :: "32 word option"
  body_length :: "32 word"
  state :: ParserState

definition new_HttpHeaderParser :: HttpHeaderParser where
  "new_HttpHeaderParser =
     \<lparr>http_method = UNKNOWN_METHOD, uri = [], version = UNKNOWN_VERSION, headers = [],
      connection_flags = 0, upgrade_flags = 0, host = [], user_agent = [],
      content_length = None, body_length = 0, state = FirstLine\<rparr>"

definition GetHeader :: "HttpHeaderParser \<Rightarrow> bytes \<Rightarrow> bytes" where
  "GetHeader p key = (case map_of (headers p) key of None \<Rightarrow> [] | Some v \<Rightarrow> v)"

definition kContentLength :: bytes where "kContentLength = ''content-length:''"
definition kHost :: bytes where "kHost = ''host:''"
definition kConnection :: bytes where "kConnection = ''connection:''"
definition kUpgrade :: bytes where "kUpgrade = ''upgrade:''"
definition kUserAgent :: bytes where "kUserAgent = ''user-agent:''"
definition kUpgradeWs :: bytes where "kUpgradeWs = ''websocket''"

section \<open>The request line\<close>

text \<open>\<^verbatim>\<open>while (line[pos] == ' ') ++pos;\<close>\<close>

function skip_spaces :: "bytes \<Rightarrow> nat \<Rightarrow> nat res" where
  "skip_spaces line pos =
     rbind (peek line pos) (\<lambda>c. if c = SP then skip_spaces line (pos + 1) else Inr pos)"
  by pat_completeness auto
termination
  by (relation "measure (\<lambda>(line, pos). Suc (length line) - pos)")
    (auto simp: peek_def split: if_splits)

declare skip_spaces.simps [simp del]

text \<open>\<^verbatim>\<open>line.find(' ', pos)\<close>, \<^const>\<open>None\<close> for \<^verbatim>\<open>npos\<close>.\<close>

definition find_space :: "bytes \<Rightarrow> nat \<Rightarrow> nat option" where
  "find_space line pos =
     (let k = length (takeWhile (\<lambda>c. c \<noteq> SP) (drop pos line))
      in if pos + k < length line then Some (pos + k) else None)"

text \<open>
  With no second space \<^verbatim>\<open>next_pos\<close> is \<^verbatim>\<open>npos\<close>: the uri runs to the end of the line and
  \<^verbatim>\<open>data() + npos + 1\<close> wraps to the start of the line.
\<close>

definition ParseFirstLine :: "bytes \<Rightarrow> (HttpMethod \<times> bytes \<times> HttpVersion) res" where
  "ParseFirstLine line =
     rbind (ParseHttpMethod line 0 0) (\<lambda>(m, pos0).
       if m = UNKNOWN_METHOD then Inr (UNKNOWN_METHOD, [], UNKNOWN_VERSION)
       else rbind (skip_spaces line pos0) (\<lambda>pos.
         case find_space line pos of
           Some next_pos \<Rightarrow>
             rbind (ParseHttpVersion line (next_pos + 1) pos) (\<lambda>(v, _).
               Inr (m, take (next_pos - pos) (drop pos line), v))
         | None \<Rightarrow>
             rbind (ParseHttpVersion line 0 pos) (\<lambda>(v, _). Inr (m, drop pos line, v))))"

section \<open>Header lines\<close>

text \<open>The lambda \<^verbatim>\<open>next_char\<close>: the first offset at or after \<open>off\<close> whose byte satisfies the predicate.\<close>

function next_char_from :: "bytes \<Rightarrow> nat \<Rightarrow> (char \<Rightarrow> bool) \<Rightarrow> nat" where
  "next_char_from s i pred =
     (if i < length s \<and> \<not> pred (s ! i) then next_char_from s (i + 1) pred else i)"
  by pat_completeness auto
termination
  by (relation "measure (\<lambda>(s, i, pred). length s - i)") auto

declare next_char_from.simps [simp del]

definition next_char :: "bytes \<Rightarrow> nat \<Rightarrow> (char \<Rightarrow> bool) \<Rightarrow> nat" where
  "next_char s off pred = (if off \<ge> length s then length s else next_char_from s off pred)"

lemma next_char_from_bounds: "i \<le> length s \<Longrightarrow> i \<le> next_char_from s i pred \<and> next_char_from s i pred \<le> length s"
proof (induction s i pred rule: next_char_from.induct)
  case (1 s i pred)
  show ?case
  proof (cases "i < length s \<and> \<not> pred (s ! i)")
    case True
    with "1.IH" show ?thesis by (simp add: next_char_from.simps [of s i])
  next
    case False
    then have "next_char_from s i pred = i" by (auto simp: next_char_from.simps [of s i])
    with "1.prems" show ?thesis by simp
  qed
qed

lemma next_char_le: "next_char s off pred \<le> length s"
  using next_char_from_bounds [of off s pred] by (simp add: next_char_def)

lemma next_char_ge: "next_char s off pred < length s \<Longrightarrow> off \<le> next_char s off pred"
  using next_char_from_bounds [of off s pred] by (auto simp: next_char_def split: if_splits)

text \<open>The loop of the Upgrade header. The predicate of its first search is always true.\<close>

function upgrade_loop :: "bytes \<Rightarrow> nat \<Rightarrow> 32 word \<Rightarrow> 32 word" where
  "upgrade_loop line iter flags =
     (let it = next_char line (iter + 1) (\<lambda>c. c \<noteq> SP \<or> c \<noteq> CR \<or> c \<noteq> LF)
      in if it = length line then flags
         else if icase_cmp (c_str line it) kUpgradeWs
         then (let it2 = next_char line (it + 1) (\<lambda>c. c = CHR '','')
               in if it2 \<noteq> length line then upgrade_loop line it2 (flags OR UpgradeWebSocket)
                  else flags OR UpgradeWebSocket)
         else upgrade_loop line it flags)"
  by pat_completeness auto
termination
proof (relation "measure (\<lambda>(line, iter, flags). length line - iter)")
  fix line :: bytes and iter and flags :: "32 word" and it it2
  assume it: "it = next_char line (iter + 1) (\<lambda>c. c \<noteq> SP \<or> c \<noteq> CR \<or> c \<noteq> LF)" "it \<noteq> length line"
  then have lt: "it < length line" using next_char_le [of line] by (metis le_neq_implies_less)
  with it have ge: "iter + 1 \<le> it" using next_char_ge by metis
  with lt show "((line, it, flags), line, iter, flags) \<in> measure (\<lambda>(line, iter, flags). length line - iter)"
    by simp
  assume it2: "it2 = next_char line (it + 1) (\<lambda>c. c = CHR '','')" "it2 \<noteq> length line"
  then have "it2 < length line" using next_char_le [of line] by (metis le_neq_implies_less)
  with it2 have "it + 1 \<le> it2" using next_char_ge by metis
  with lt ge \<open>it2 < length line\<close>
  show "((line, it2, flags OR UpgradeWebSocket), line, iter, flags)
      \<in> measure (\<lambda>(line, iter, flags). length line - iter)" by simp
qed simp_all

declare upgrade_loop.simps [simp del]

text \<open>
  The loop of the Connection header. One round either leaves the loop (\<^const>\<open>None\<close>) or moves to
  the next offset and flags; an option it does not know leaves the offset where it is.
\<close>

definition skip_option :: "bytes \<Rightarrow> nat \<Rightarrow> nat" where
  "skip_option line it = next_char line it (\<lambda>c. c = CHR '','') + 1"

definition conn_round :: "bytes \<Rightarrow> nat \<Rightarrow> 32 word \<Rightarrow> (nat \<times> 32 word) option" where
  "conn_round line iter flags =
     (let it = next_char line iter (\<lambda>c. c \<noteq> SP)
      in if it = length line then None
         else let value_sv = c_str line it
         in if icase_cmp value_sv ''upgrade''
            then Some (skip_option line (it + length ''upgrade''), flags OR ConnectionUpgrade)
            else if icase_cmp value_sv ''keep-alive''
            then Some (skip_option line (it + length ''keep-alive''), flags OR ConnectionKeepAlive)
            else if icase_cmp value_sv ''close''
            then Some (skip_option line (it + length ''close''), flags OR ConnectionClose)
            else Some (it, flags))"

fun conn_loop :: "nat \<Rightarrow> bytes \<Rightarrow> nat \<Rightarrow> 32 word \<Rightarrow> 32 word option" where
  "conn_loop 0 line iter flags = None"
| "conn_loop (Suc n) line iter flags =
     (case conn_round line iter flags of
        None \<Rightarrow> Some flags
      | Some (iter', flags') \<Rightarrow> conn_loop n line iter' flags')"

text \<open>The text between two offsets, \<^verbatim>\<open>std::string(iter, end_iter)\<close>.\<close>

definition slice :: "bytes \<Rightarrow> nat \<Rightarrow> nat \<Rightarrow> bytes" where
  "slice s i j = take (j - i) (drop i s)"

definition header_value :: "bytes \<Rightarrow> nat \<Rightarrow> bytes" where
  "header_value line off =
     (let iter = next_char line off (\<lambda>c. c \<noteq> SP);
          end_iter = next_char line iter (\<lambda>c. c = CR \<or> c = LF)
      in slice line iter end_iter)"

definition ParseHeaderLine :: "bytes \<Rightarrow> HttpHeaderParser \<Rightarrow> HttpHeaderParser res" where
  "ParseHeaderLine line p =
     (let iter = next_char line 0 (\<lambda>c. c \<noteq> SP); key = c_str line iter
      in if icase_cmp key kContentLength
         then rbind (atoi (c_str line (next_char line (iter + length kContentLength) (\<lambda>c. c \<noteq> SP))))
                (\<lambda>n. Inr (p\<lparr>content_length := Some (of_int n)\<rparr>))
         else if icase_cmp key kUpgrade
         then Inr (p\<lparr>upgrade_flags := upgrade_loop line (iter + length kUpgrade) (upgrade_flags p)\<rparr>)
         else if icase_cmp key kHost
         then Inr (p\<lparr>host := header_value line (iter + length kHost)\<rparr>)
         else if icase_cmp key kConnection
         then (case conn_loop (length line + 2) line (iter + length kConnection + 1) (connection_flags p) of
                 None \<Rightarrow> Inl Diverges
               | Some flags \<Rightarrow> Inr (p\<lparr>connection_flags := flags\<rparr>))
         else if icase_cmp key kUserAgent
         then Inr (p\<lparr>user_agent := header_value line (iter + length kUserAgent)\<rparr>)
         else (let colon = next_char line iter (\<lambda>c. c = CHR '':'')
               in if colon = length line then Inr p
                  else Inr (p\<lparr>headers := map_emplace (slice line 0 colon)
                                (header_value line (colon + 1)) (headers p)\<rparr>)))"

text \<open>Every path of \<open>PushLine\<close> returns \<^verbatim>\<open>state_\<close>, so the result is the parser after the call.\<close>

definition PushLine :: "bytes \<Rightarrow> HttpHeaderParser \<Rightarrow> HttpHeaderParser res" where
  "PushLine line p =
     (case state p of
        FirstLine \<Rightarrow>
          rbind (ParseFirstLine line) (\<lambda>(m, u, v).
            Inr (p\<lparr>http_method := m, version := v, state := Headers, uri := u\<rparr>))
      | Headers \<Rightarrow>
          if line = CRLF
          then Inr (p\<lparr>state := (if content_length p \<noteq> None then Body else Done)\<rparr>)
          else ParseHeaderLine line p
      | Body \<Rightarrow>
          (let p' = p\<lparr>body_length := body_length p + of_nat (length line)\<rparr>
           in case content_length p' of
                Some n \<Rightarrow> Inr (if body_length p' \<ge> n then p'\<lparr>state := Done\<rparr> else p')
              | None \<Rightarrow> Inr p')
      | Done \<Rightarrow> Inr p)"

section \<open>Searching\<close>

lemma next_char_from_append:
  "next_char_from (p @ t) (length p) pred = length p + length (takeWhile (\<lambda>c. \<not> pred c) t)"
proof (induction t arbitrary: p)
  case Nil
  show ?case by (simp add: next_char_from.simps)
next
  case (Cons c t)
  show ?case
    using Cons.IH [of "p @ [c]"] next_char_from.simps [of "p @ c # t" "length p" pred] by simp
qed

lemma next_char_append [simp]:
  "next_char (p @ t) (length p) pred = length p + length (takeWhile (\<lambda>c. \<not> pred c) t)"
  by (simp add: next_char_def next_char_from_append)

lemma next_char_0: "next_char t 0 pred = length (takeWhile (\<lambda>c. \<not> pred c) t)"
  using next_char_append [of "[]"] by simp

lemma next_char_past [simp]: "length s \<le> off \<Longrightarrow> next_char s off pred = length s"
  by (simp add: next_char_def)

lemma next_char_from_sat:
  "next_char_from s i pred < length s \<Longrightarrow> pred (s ! next_char_from s i pred)"
proof (induction s i pred rule: next_char_from.induct)
  case (1 s i pred)
  then show ?case
    by (cases "i < length s \<and> \<not> pred (s ! i)") (auto simp: next_char_from.simps [of s i])
qed

lemma next_char_sat: "next_char s off pred < length s \<Longrightarrow> pred (s ! next_char s off pred)"
  using next_char_from_sat by (auto simp: next_char_def split: if_splits)

lemma next_char_idem:
  "next_char s off pred < length s \<Longrightarrow> next_char s (next_char s off pred) pred = next_char s off pred"
  using next_char_sat [of s off pred] next_char_from.simps [of s "next_char s off pred" pred]
  by (simp add: next_char_def [of s "next_char s off pred"])

lemma c_str_append [simp]: "c_str (p @ t) (length p) = takeWhile (\<lambda>c. c \<noteq> NUL) t"
  by (simp add: c_str_def)

lemma slice_append: "slice (p @ v @ q) (length p) (length p + length v) = v"
  by (simp add: slice_def)

text \<open>A lower-case name met in any case: it starts with no blank and holds no NUL.\<close>

lemma tolower_NUL [simp]: "tolower NUL = NUL"
  by (simp add: tolower_def)

lemma tolower_SP [simp]: "tolower SP = SP"
  by (simp add: tolower_def)

lemma lower_NUL_free: "map tolower k = n \<Longrightarrow> NUL \<notin> set n \<Longrightarrow> NUL \<notin> set k"
  by (metis image_eqI list.set_map tolower_NUL)

lemma takeWhile_NUL_append:
  "NUL \<notin> set k \<Longrightarrow> takeWhile (\<lambda>c. c \<noteq> NUL) (k @ t) = k @ takeWhile (\<lambda>c. c \<noteq> NUL) t"
  by (induction k) auto

lemma lower_hd_not_SP: "map tolower k = n \<Longrightarrow> n \<noteq> [] \<Longrightarrow> hd n \<noteq> SP \<Longrightarrow> k \<noteq> [] \<and> hd k \<noteq> SP"
  by (cases k; cases n) auto

lemma icase_cmp_name:
  "map tolower k = n \<Longrightarrow> map tolower n = n \<Longrightarrow> icase_cmp (k @ t) n"
  by (subst icase_cmp_prefix) (auto dest: map_eq_imp_length_eq simp del: map_map)

section \<open>The Connection header\<close>

lemma conn_loop_mono: "conn_loop n line it fl = Some r \<Longrightarrow> n \<le> m \<Longrightarrow> conn_loop m line it fl = Some r"
proof (induction n arbitrary: m it fl)
  case (Suc n)
  then obtain m' where "m = Suc m'" by (cases m) auto
  with Suc show ?case by (auto split: option.splits)
qed simp

lemma conn_loop_stuck: "conn_round line it fl = Some (it, fl) \<Longrightarrow> conn_loop n line it fl = None"
  by (induction n) auto

text \<open>One round stops, or recognises an option and moves on, or is stuck for good.\<close>

lemma conn_round_cases:
  obtains (stop) "conn_round line it fl = None"
  | (move) it' fl' where "conn_round line it fl = Some (it', fl')" "it < it'" "it < length line"
  | (stuck) it' where "conn_round line it fl = Some (it', fl)" "conn_round line it' fl = Some (it', fl)"
proof -
  let ?it = "next_char line it (\<lambda>c. c \<noteq> SP)"
  show thesis
  proof (cases "?it = length line")
    case True
    then show thesis using stop by (simp add: conn_round_def)
  next
    case False
    then have lt: "?it < length line" using next_char_le [of line it] le_neq_implies_less by blast
    then have ge: "it \<le> ?it" by (rule next_char_ge)
    have adv: "it < skip_option line (?it + k)" if "k > 0" for k
    proof (cases "next_char line (?it + k) (\<lambda>c. c = CHR '','') < length line")
      case True
      then show ?thesis using next_char_ge [OF True] ge that by (simp add: skip_option_def)
    next
      case False
      then show ?thesis using next_char_le [of line] lt ge by (simp add: skip_option_def)
    qed
    show thesis
    proof (cases "icase_cmp (c_str line ?it) ''upgrade'' \<or> icase_cmp (c_str line ?it) ''keep-alive''
        \<or> icase_cmp (c_str line ?it) ''close''")
      case True
      obtain k f where "k > 0" "conn_round line it fl = Some (skip_option line (?it + k), f)"
      proof (cases "icase_cmp (c_str line ?it) ''upgrade''")
        case True
        with False that [of "length ''upgrade''"] show ?thesis by (simp add: conn_round_def Let_def)
      next
        case no_upgrade: False
        show ?thesis
        proof (cases "icase_cmp (c_str line ?it) ''keep-alive''")
          case True
          with False no_upgrade that [of "length ''keep-alive''"] show ?thesis
            by (simp add: conn_round_def Let_def)
        next
          case no_keep: False
          with True no_upgrade False that [of "length ''close''"] show ?thesis
            by (simp add: conn_round_def Let_def)
        qed
      qed
      with adv lt ge show thesis by (intro move) auto
    next
      case unknown: False
      then have "conn_round line it fl = Some (?it, fl)" using False by (simp add: conn_round_def Let_def)
      moreover have "conn_round line ?it fl = Some (?it, fl)"
        using unknown False next_char_idem [OF lt] by (simp add: conn_round_def Let_def)
      ultimately show thesis by (rule stuck)
    qed
  qed
qed

lemma conn_loop_fuel:
  "length line - it + 2 \<le> n
   \<Longrightarrow> (\<exists>r. conn_loop n line it fl = Some r) \<or> (\<forall>m. conn_loop m line it fl = None)"
proof (induction n arbitrary: it fl)
  case (Suc n)
  show ?case
  proof (cases rule: conn_round_cases [of line it fl])
    case stop
    then show ?thesis by simp
  next
    case (move it' fl')
    with Suc.prems have "length line - it' + 2 \<le> n" by simp
    from Suc.IH [OF this, of fl'] show ?thesis
    proof
      assume "\<forall>m. conn_loop m line it' fl' = None"
      then have "conn_loop m line it fl = None" for m using move(1) by (cases m) auto
      then show ?thesis by simp
    qed (use move in simp)
  next
    case (stuck it')
    then have "conn_loop m line it fl = None" for m
      using conn_loop_stuck [OF stuck(2)] by (cases m) auto
    then show ?thesis by simp
  qed
qed simp

text \<open>The flag of an option, in any letter case.\<close>

definition option_flag :: "bytes \<Rightarrow> 32 word option" where
  "option_flag t =
     (if map tolower t = ''upgrade'' then Some ConnectionUpgrade
      else if map tolower t = ''keep-alive'' then Some ConnectionKeepAlive
      else if map tolower t = ''close'' then Some ConnectionClose else None)"

lemma option_cmp:
  assumes "map tolower t = n" "n \<in> {''upgrade'', ''keep-alive'', ''close''}"
    and "m \<in> {''upgrade'', ''keep-alive'', ''close''}"
  shows "icase_cmp (t @ r) m \<longleftrightarrow> m = n"
proof (cases "m = n")
  case True
  moreover have "map tolower n = n" using assms(2) by (auto simp: tolower_def)
  ultimately show ?thesis using icase_cmp_name [OF assms(1)] by simp
next
  case False
  obtain x xs where x: "t = x # xs" using assms(1,2) by (cases t) auto
  with assms(1) have "tolower x = hd n" using assms(2) by auto
  moreover have "tolower (CHR ''u'') = CHR ''u''" "tolower (CHR ''k'') = CHR ''k''"
    "tolower (CHR ''c'') = CHR ''c''" by (simp_all add: tolower_def)
  ultimately show ?thesis using False assms(2,3) x by auto
qed

lemma conn_round_option:
  assumes "option_flag t = Some f" "set sp \<subseteq> {SP}" "rest \<noteq> []"
  shows "conn_round (p @ sp @ t @ rest) (length p) fl
    = Some (skip_option (p @ sp @ t @ rest) (length (p @ sp @ t)), fl OR f)"
proof -
  let ?line = "p @ sp @ t @ rest" and ?v = "t @ takeWhile (\<lambda>c. c \<noteq> NUL) rest"
  obtain n where n: "map tolower t = n" "n \<in> {''upgrade'', ''keep-alive'', ''close''}"
    using assms(1) by (auto simp: option_flag_def split: if_splits)
  then have t: "t \<noteq> [] \<and> hd t \<noteq> SP" "NUL \<notin> set t"
    using lower_hd_not_SP [OF n(1)] lower_NUL_free [OF n(1)] by auto
  have skip: "takeWhile (\<lambda>c. \<not> c \<noteq> SP) (sp @ t @ rest) = sp"
    using assms(2) t(1) by (induction sp) (auto simp: neq_Nil_conv)
  have it: "next_char ?line (length p) (\<lambda>c. c \<noteq> SP) = length (p @ sp)"
    using next_char_append [of p "sp @ t @ rest" "\<lambda>c. c \<noteq> SP"] skip by simp
  have cs: "c_str ?line (length (p @ sp)) = ?v"
    using c_str_append [of "p @ sp" "t @ rest"] takeWhile_NUL_append [OF t(2), of rest] by simp
  have ne: "length (p @ sp) \<noteq> length ?line" using t(1) by simp
  have cmp: "icase_cmp ?v m \<longleftrightarrow> m = n" if "m \<in> {''upgrade'', ''keep-alive'', ''close''}" for m
    using option_cmp [OF n that] .
  have len: "length (p @ sp @ t) = length (p @ sp) + length n" using n(1) by auto
  have cmps: "icase_cmp ?v ''upgrade'' = (''upgrade'' = n)"
    "icase_cmp ?v ''keep-alive'' = (''keep-alive'' = n)" "icase_cmp ?v ''close'' = (''close'' = n)"
    by (rule cmp, simp)+
  have f: "option_flag t = Some (if n = ''upgrade'' then ConnectionUpgrade
      else if n = ''keep-alive'' then ConnectionKeepAlive else ConnectionClose)"
    using n by (auto simp: option_flag_def)
  consider "n = ''upgrade''" | "n = ''keep-alive''" | "n = ''close''" using n(2) by auto
  then show ?thesis
    unfolding conn_round_def it cs Let_def len cmps if_not_P [OF ne]
    by cases (use f assms(1) in simp_all)
qed

text \<open>
  A list of options as clients write it: each with the blanks before it, separated by commas, and the
  flags it stands for.
\<close>

fun option_list :: "(bytes \<times> bytes) list \<Rightarrow> bytes" where
  "option_list [] = CRLF"
| "option_list [(sp, t)] = sp @ t @ CRLF"
| "option_list ((sp, t) # ts) = sp @ t @ '','' @ option_list ts"

definition option_flags :: "(bytes \<times> bytes) list \<Rightarrow> 32 word \<Rightarrow> 32 word" where
  "option_flags ts fl = foldl (\<lambda>fl t. fl OR the (option_flag (snd t))) fl ts"

definition known_option :: "bytes \<times> bytes \<Rightarrow> bool" where
  "known_option t \<longleftrightarrow> set (fst t) \<subseteq> {SP} \<and> option_flag (snd t) \<noteq> None"

lemma conn_loop_options:
  assumes "list_all known_option ts" "ts \<noteq> []" "set sp \<subseteq> {SP}"
  shows "conn_loop (length ts + 1) (p @ sp @ option_list ts) (length p) fl = Some (option_flags ts fl)"
  using assms
proof (induction ts arbitrary: p sp fl rule: option_list.induct)
  case 1
  then show ?case by simp
next
  case (2 sp' t)
  then obtain f where f: "option_flag t = Some f" and sp: "set (sp @ sp') \<subseteq> {SP}" by (auto simp: known_option_def)
  let ?line = "p @ (sp @ sp') @ t @ CRLF"
  have end_it: "skip_option ?line (length (p @ (sp @ sp') @ t)) = length ?line + 1"
    using next_char_append [of "p @ (sp @ sp') @ t" CRLF "\<lambda>c. c = CHR '',''"] by (simp add: skip_option_def)
  have "conn_round ?line (length ?line + 1) (fl OR f) = None" by (simp add: conn_round_def)
  with conn_round_option [OF f sp, of CRLF p fl] end_it f show ?case
    by (simp add: option_flags_def)
next
  case (3 sp' t t2 ts)
  then obtain f where f: "option_flag t = Some f" and sp: "set (sp @ sp') \<subseteq> {SP}" by (auto simp: known_option_def)
  let ?r = "option_list (t2 # ts)"
  let ?line = "p @ (sp @ sp') @ t @ '','' @ ?r" and ?p = "p @ (sp @ sp') @ t @ '',''"
  have it: "skip_option ?line (length (p @ (sp @ sp') @ t)) = length ?p"
    using next_char_append [of "p @ (sp @ sp') @ t" "'','' @ ?r" "\<lambda>c. c = CHR '',''"]
    by (simp add: skip_option_def)
  have "conn_round ?line (length p) fl = Some (length ?p, fl OR f)"
    using conn_round_option [OF f sp, of "'','' @ ?r" p fl] it by simp
  moreover have "conn_loop (length (t2 # ts) + 1) (?p @ [] @ ?r) (length ?p) (fl OR f)
      = Some (option_flags (t2 # ts) (fl OR f))"
    using 3(1) [of "[]" ?p "fl OR f"] 3(2) by simp
  ultimately show ?case using f by (simp add: option_flags_def)
qed

lemma conn_loop_unknown:
  assumes "set sp \<subseteq> {SP}" "t \<noteq> []" "hd t \<noteq> SP"
    and "\<forall>n \<in> {''upgrade'', ''keep-alive'', ''close''}. \<not> icase_cmp (takeWhile (\<lambda>c. c \<noteq> NUL) t) n"
  shows "conn_loop n (p @ sp @ t) (length p) fl = None"
proof -
  have skip: "takeWhile (\<lambda>c. \<not> c \<noteq> SP) (sp @ t) = sp"
    using assms(1-3) by (induction sp) (auto simp: neq_Nil_conv)
  have it: "next_char (p @ sp @ t) (length p) (\<lambda>c. c \<noteq> SP) = length (p @ sp)"
    using next_char_append [of p "sp @ t" "\<lambda>c. c \<noteq> SP"] skip by simp
  have it': "next_char (p @ sp @ t) (length (p @ sp)) (\<lambda>c. c \<noteq> SP) = length (p @ sp)"
    using next_char_append [of "p @ sp" t "\<lambda>c. c \<noteq> SP"] assms(2,3) by (cases t) auto
  have cs: "c_str (p @ sp @ t) (length (p @ sp)) = takeWhile (\<lambda>c. c \<noteq> NUL) t"
    using c_str_append [of "p @ sp" t] by simp
  have ne: "length (p @ sp) \<noteq> length (p @ sp @ t)" using assms(2) by simp
  have "conn_round (p @ sp @ t) (length p) fl = Some (length (p @ sp), fl)"
    "conn_round (p @ sp @ t) (length (p @ sp)) fl = Some (length (p @ sp), fl)"
    using assms(4) unfolding conn_round_def it it' cs Let_def if_not_P [OF ne] by auto
  with conn_loop_stuck [OF this(2)] show ?thesis by (cases n) auto
qed

section \<open>Header names\<close>

lemmas header_names = kContentLength_def kUpgrade_def kHost_def kConnection_def kUserAgent_def

text \<open>Which of the known names a line starts with, in any letter case.\<close>

lemma header_cmp:
  assumes "map tolower k = n" "n \<in> {kContentLength, kUpgrade, kHost, kConnection, kUserAgent}"
    and "m \<in> {kContentLength, kUpgrade, kHost, kConnection, kUserAgent}"
  shows "icase_cmp (k @ r) m \<longleftrightarrow> m = n"
proof (cases "m = n")
  case True
  moreover have "map tolower n = n" using assms(2) by (auto simp: header_names tolower_def)
  ultimately show ?thesis using icase_cmp_name [OF assms(1)] by simp
next
  case False
  have "\<exists>a b c d xs. k = a # b # c # d # xs" 
    using assms(1,2) by (auto simp: header_names map_eq_Cons_conv)
  then obtain a b c d xs where x: "k = a # b # c # d # xs" by blast
  have "tolower (CHR ''c'') = CHR ''c''" "tolower (CHR ''o'') = CHR ''o''"
    "tolower (CHR ''n'') = CHR ''n''" "tolower (CHR ''t'') = CHR ''t''"
    "tolower (CHR ''u'') = CHR ''u''" "tolower (CHR ''p'') = CHR ''p''"
    "tolower (CHR ''s'') = CHR ''s''" "tolower (CHR ''h'') = CHR ''h''"
    by (simp_all add: tolower_def)
  with assms x False show ?thesis
    by (elim insertE emptyE) (simp_all add: header_names)
qed

lemma header_key:
  assumes "map tolower k = n" "n \<in> {kContentLength, kUpgrade, kHost, kConnection, kUserAgent}"
  shows "next_char (k @ r) 0 (\<lambda>c. c \<noteq> SP) = 0"
    and "c_str (k @ r) 0 = k @ takeWhile (\<lambda>c. c \<noteq> NUL) r"
    and "length k = length n"
proof -
  have "n \<noteq> [] \<and> hd n \<noteq> SP \<and> NUL \<notin> set n" using assms(2) by (auto simp: header_names)
  then have k: "k \<noteq> []" "hd k \<noteq> SP" "NUL \<notin> set k"
    using lower_hd_not_SP [OF assms(1)] lower_NUL_free [OF assms(1)] by auto
  show "next_char (k @ r) 0 (\<lambda>c. c \<noteq> SP) = 0"
    using k by (cases k) (auto simp: next_char_0)
  show "c_str (k @ r) 0 = k @ takeWhile (\<lambda>c. c \<noteq> NUL) r"
    using c_str_append [of "[]" "k @ r"] takeWhile_NUL_append [OF k(3)] by simp
  show "length k = length n" using assms(1) by auto
qed

text \<open>Dispatch on the name, one fact per known header.\<close>

lemma header_dispatch:
  assumes "map tolower k = n" "n \<in> {kContentLength, kUpgrade, kHost, kConnection, kUserAgent}"
  shows "ParseHeaderLine (k @ r) p =
    (if n = kContentLength
     then rbind (atoi (c_str (k @ r) (next_char (k @ r) (length k) (\<lambda>c. c \<noteq> SP))))
            (\<lambda>n. Inr (p\<lparr>content_length := Some (of_int n)\<rparr>))
     else if n = kUpgrade
     then Inr (p\<lparr>upgrade_flags := upgrade_loop (k @ r) (length k) (upgrade_flags p)\<rparr>)
     else if n = kHost then Inr (p\<lparr>host := header_value (k @ r) (length k)\<rparr>)
     else if n = kConnection
     then (case conn_loop (length (k @ r) + 2) (k @ r) (length k + 1) (connection_flags p) of
             None \<Rightarrow> Inl Diverges | Some flags \<Rightarrow> Inr (p\<lparr>connection_flags := flags\<rparr>))
     else Inr (p\<lparr>user_agent := header_value (k @ r) (length k)\<rparr>))"
proof -
  have cmp: "icase_cmp (k @ takeWhile (\<lambda>c. c \<noteq> NUL) r) m = (m = n)"
    if "m \<in> {kContentLength, kUpgrade, kHost, kConnection, kUserAgent}" for m
    using header_cmp [OF assms that] .
  have cmps: "icase_cmp (k @ takeWhile (\<lambda>c. c \<noteq> NUL) r) kContentLength = (kContentLength = n)"
    "icase_cmp (k @ takeWhile (\<lambda>c. c \<noteq> NUL) r) kUpgrade = (kUpgrade = n)"
    "icase_cmp (k @ takeWhile (\<lambda>c. c \<noteq> NUL) r) kHost = (kHost = n)"
    "icase_cmp (k @ takeWhile (\<lambda>c. c \<noteq> NUL) r) kConnection = (kConnection = n)"
    "icase_cmp (k @ takeWhile (\<lambda>c. c \<noteq> NUL) r) kUserAgent = (kUserAgent = n)"
    by (rule cmp, simp)+
  show ?thesis
    using assms(2) header_key(3) [OF assms]
    by (auto simp: ParseHeaderLine_def Let_def header_key(1,2) [OF assms] cmps)
qed

lemma names_neq:
  "kContentLength \<noteq> kUpgrade" "kContentLength \<noteq> kHost"
  "kContentLength \<noteq> kConnection" "kContentLength \<noteq> kUserAgent"
  "kUpgrade \<noteq> kContentLength" "kUpgrade \<noteq> kHost" "kUpgrade \<noteq> kConnection"
  "kUpgrade \<noteq> kUserAgent" "kHost \<noteq> kContentLength" "kHost \<noteq> kUpgrade"
  "kHost \<noteq> kConnection" "kHost \<noteq> kUserAgent" "kConnection \<noteq> kContentLength"
  "kConnection \<noteq> kUpgrade" "kConnection \<noteq> kHost" "kConnection \<noteq> kUserAgent"
  "kUserAgent \<noteq> kContentLength" "kUserAgent \<noteq> kUpgrade"
  "kUserAgent \<noteq> kHost" "kUserAgent \<noteq> kConnection"
  by (simp_all add: header_names)

lemma ParseHeaderLine_content_length:
  assumes "map tolower k = kContentLength"
  shows "ParseHeaderLine (k @ r) p =
    rbind (atoi (c_str (k @ r) (next_char (k @ r) (length k) (\<lambda>c. c \<noteq> SP))))
      (\<lambda>n. Inr (p\<lparr>content_length := Some (of_int n)\<rparr>))"
  using header_dispatch [OF assms, of r p] by (simp add: names_neq)

lemma ParseHeaderLine_upgrade:
  assumes "map tolower k = kUpgrade"
  shows "ParseHeaderLine (k @ r) p =
    Inr (p\<lparr>upgrade_flags := upgrade_loop (k @ r) (length k) (upgrade_flags p)\<rparr>)"
  using header_dispatch [OF assms, of r p] by (simp add: names_neq)

lemma ParseHeaderLine_host:
  assumes "map tolower k = kHost"
  shows "ParseHeaderLine (k @ r) p = Inr (p\<lparr>host := header_value (k @ r) (length k)\<rparr>)"
  using header_dispatch [OF assms, of r p] by (simp add: names_neq)

lemma ParseHeaderLine_connection:
  assumes "map tolower k = kConnection"
  shows "ParseHeaderLine (k @ r) p =
    (case conn_loop (length (k @ r) + 2) (k @ r) (length k + 1) (connection_flags p) of
       None \<Rightarrow> Inl Diverges | Some flags \<Rightarrow> Inr (p\<lparr>connection_flags := flags\<rparr>))"
  using header_dispatch [OF assms, of r p] by (simp add: names_neq)

lemma ParseHeaderLine_user_agent:
  assumes "map tolower k = kUserAgent"
  shows "ParseHeaderLine (k @ r) p = Inr (p\<lparr>user_agent := header_value (k @ r) (length k)\<rparr>)"
  using header_dispatch [OF assms, of r p] by (simp add: names_neq)

section \<open>Header values\<close>

lemma takeWhile_blanks:
  "set sp \<subseteq> {SP} \<Longrightarrow> t = [] \<or> hd t \<noteq> SP \<Longrightarrow> takeWhile (\<lambda>c. \<not> c \<noteq> SP) (sp @ t) = sp"
  by (induction sp) (auto simp: takeWhile_eq_Nil_iff)

lemma next_char_blanks:
  "set sp \<subseteq> {SP} \<Longrightarrow> t = [] \<or> hd t \<noteq> SP
   \<Longrightarrow> next_char (p @ sp @ t) (length p) (\<lambda>c. c \<noteq> SP) = length (p @ sp)"
  using next_char_append [of p "sp @ t" "\<lambda>c. c \<noteq> SP"] takeWhile_blanks [of sp t] by simp

lemma header_value_trim:
  assumes "set sp \<subseteq> {SP}" "v = [] \<or> hd v \<noteq> SP" "CR \<notin> set v" "LF \<notin> set v"
  shows "header_value (k @ sp @ v @ CRLF) (length k) = v"
proof -
  have "hd (v @ CRLF) \<noteq> SP" using assms(2) by (cases v) auto
  then have it: "next_char (k @ sp @ v @ CRLF) (length k) (\<lambda>c. c \<noteq> SP) = length (k @ sp)"
    using next_char_blanks [OF assms(1), of "v @ CRLF" k] by simp
  have "takeWhile (\<lambda>c. \<not> (c = CR \<or> c = LF)) (v @ CRLF) = v"
    using assms(3,4) by (induction v) auto
  then have "next_char (k @ sp @ v @ CRLF) (length (k @ sp)) (\<lambda>c. c = CR \<or> c = LF)
      = length (k @ sp) + length v"
    using next_char_append [of "k @ sp" "v @ CRLF" "\<lambda>c. c = CR \<or> c = LF"] by simp
  with it show ?thesis
    using slice_append [of "k @ sp" v CRLF] by (simp add: header_value_def Let_def)
qed

lemma content_length_value:
  assumes "map tolower k = kContentLength" "set sp \<subseteq> {SP}" "ds \<noteq> []" "\<forall>c \<in> set ds. isdigit c"
    and "digits_val ds < 2 ^ 31"
  shows "ParseHeaderLine (k @ sp @ ds @ CRLF) p
    = Inr (p\<lparr>content_length := Some (of_nat (digits_val ds))\<rparr>)"
proof -
  have d: "hd (ds @ CRLF) \<noteq> SP" "NUL \<notin> set (ds @ CRLF)"
    using assms(3,4) isdigit_not_sign by (cases ds; force)+
  have "next_char (k @ sp @ ds @ CRLF) (length k) (\<lambda>c. c \<noteq> SP) = length (k @ sp)"
    using next_char_blanks [OF assms(2), of "ds @ CRLF" k] d(1) by simp
  moreover have "c_str (k @ sp @ ds @ CRLF) (length (k @ sp)) = ds @ CRLF"
    using c_str_append [of "k @ sp" "ds @ CRLF"] takeWhile_NUL_append [OF d(2), of "[]"] by simp
  moreover have "atoi (ds @ CRLF) = Inr (int (digits_val ds))"
    using assms(3-5) by (intro atoi_decimal) (auto simp: isdigit_def)
  ultimately show ?thesis
    using ParseHeaderLine_content_length [OF assms(1), of "sp @ ds @ CRLF" p] by simp
qed

lemma upgrade_websocket_value:
  assumes "map tolower w = kUpgradeWs" "CHR '','' \<notin> set rest"
  shows "upgrade_loop (q @ x # w @ rest) (length q) fl = fl OR UpgradeWebSocket"
proof -
  let ?line = "q @ x # w @ rest"
  have w: "w \<noteq> []" "NUL \<notin> set w" using assms(1) lower_NUL_free [OF assms(1)] by (auto simp: kUpgradeWs_def)
  have comma: "CHR '','' \<notin> set w"
  proof
    assume "CHR '','' \<in> set w"
    then have "tolower (CHR '','') \<in> set (map tolower w)" by simp
    then show False using assms(1) by (simp add: kUpgradeWs_def tolower_def)
  qed
  have it: "next_char ?line (length q + 1) (\<lambda>c. c \<noteq> SP \<or> c \<noteq> CR \<or> c \<noteq> LF) = length q + 1"
    using next_char_append [of "q @ [x]" "w @ rest" "\<lambda>c. c \<noteq> SP \<or> c \<noteq> CR \<or> c \<noteq> LF"]
    by (cases "w @ rest") auto
  have cs: "c_str ?line (length q + 1) = w @ takeWhile (\<lambda>c. c \<noteq> NUL) rest"
    using c_str_append [of "q @ [x]" "w @ rest"] takeWhile_NUL_append [OF w(2), of rest] by simp
  have cmp: "icase_cmp (w @ takeWhile (\<lambda>c. c \<noteq> NUL) rest) kUpgradeWs"
    using icase_cmp_name [OF assms(1)] by (simp add: kUpgradeWs_def tolower_def)
  obtain a w' where w': "w = a # w'" using w(1) by (cases w) auto
  have tw: "takeWhile (\<lambda>c. \<not> c = CHR '','') (w' @ rest) = w' @ rest"
    using comma assms(2) w' by (subst takeWhile_eq_all_conv) auto
  have "next_char ((q @ [x, a]) @ (w' @ rest)) (length (q @ [x, a])) (\<lambda>c. c = CHR '','')
      = length (q @ [x, a]) + length (w' @ rest)"
    by (simp only: next_char_append tw)
  then have it2: "next_char ?line (length q + 1 + 1) (\<lambda>c. c = CHR '','') = length ?line"
    using w' by simp
  show ?thesis
    using w it it2 cs cmp by (subst upgrade_loop.simps) (simp add: Let_def)
qed

section \<open>Other headers\<close>

lemma tolower_colon: "tolower c = CHR '':'' \<longleftrightarrow> c = CHR '':''"
proof
  assume c: "tolower c = CHR '':''"
  have "char_of (n + 32) \<noteq> CHR '':''" if "65 \<le> n" "n \<le> 90" for n :: nat
  proof
    assume "char_of (n + 32) = CHR '':''"
    then have "of_char (char_of (n + 32)) = (of_char (CHR '':'') :: nat)" by simp
    with that show False by simp
  qed
  with c show "c = CHR '':''" by (auto simp: tolower_def Let_def split: if_splits)
qed (simp add: tolower_def)

lemma icase_cmp_colon:
  assumes "CHR '':'' \<notin> set n" "CHR '':'' \<notin> set m"
  shows "icase_cmp (n @ CHR '':'' # r) (m @ '':'') \<longleftrightarrow> map tolower n = map tolower m"
  using assms
proof (induction n arbitrary: m)
  case Nil
  then show ?case by (cases m) (auto simp: tolower_colon eq_commute [of "CHR '':''"] tolower_colon [THEN iffD2, OF refl])
next
  case (Cons x n)
  then show ?case
    by (cases m) (auto simp: tolower_colon eq_commute [of "CHR '':''"] tolower_colon [THEN iffD2, OF refl])
qed

definition known_names :: "bytes list" where
  "known_names = [''content-length'', ''upgrade'', ''host'', ''connection'', ''user-agent'']"

lemma ParseHeaderLine_other:
  assumes "CHR '':'' \<notin> set n" "n = [] \<or> hd n \<noteq> SP" "NUL \<notin> set n"
    and "map tolower n \<notin> set known_names"
  shows "ParseHeaderLine (n @ '':'' @ r) p
    = Inr (p\<lparr>headers := map_emplace n (header_value (n @ '':'' @ r) (length n + 1)) (headers p)\<rparr>)"
proof -
  let ?line = "n @ '':'' @ r"
  have it: "next_char ?line 0 (\<lambda>c. c \<noteq> SP) = 0"
    using assms(2) by (cases n) (auto simp: next_char_0)
  have cs: "c_str ?line 0 = n @ CHR '':'' # takeWhile (\<lambda>c. c \<noteq> NUL) r"
    using c_str_append [of "[]" ?line] takeWhile_NUL_append [OF assms(3)] by simp
  have lower: "map tolower m = m" if "m \<in> set known_names" for m
    using that by (auto simp: known_names_def tolower_def)
  have no: "\<not> icase_cmp (n @ CHR '':'' # takeWhile (\<lambda>c. c \<noteq> NUL) r) (m @ '':'')"
    if "m \<in> set known_names" for m
    using icase_cmp_colon [OF assms(1), of m] lower [OF that] assms(4) that
    by (auto simp: known_names_def)
  have nos: "\<not> icase_cmp (n @ CHR '':'' # takeWhile (\<lambda>c. c \<noteq> NUL) r) m"
    if "m \<in> {kContentLength, kUpgrade, kHost, kConnection, kUserAgent}" for m
    using that no [of "''content-length''"] no [of "''upgrade''"] no [of "''host''"]
      no [of "''connection''"] no [of "''user-agent''"]
    by (auto simp: header_names known_names_def)
  have "takeWhile (\<lambda>c. c \<noteq> CHR '':'') ?line = n" using assms(1) by (induction n) auto
  then have colon: "next_char ?line 0 (\<lambda>c. c = CHR '':'') = length n" by (simp add: next_char_0)
  have "length n \<noteq> length ?line" by simp
  moreover have "slice ?line 0 (length n) = n" by (simp add: slice_def)
  ultimately show ?thesis
    using nos unfolding ParseHeaderLine_def it cs Let_def colon by simp
qed

section \<open>The request line, parsed\<close>

lemma skip_spaces_blanks:
  assumes "set sp \<subseteq> {SP}" "c \<noteq> SP"
  shows "skip_spaces (p @ sp @ c # t) (length p) = Inr (length (p @ sp))"
  using assms(1)
proof (induction sp arbitrary: p)
  case Nil
  then show ?case using assms(2) by (simp add: skip_spaces.simps nth_append)
next
  case (Cons x sp)
  from Cons.IH [of "p @ [x]"] Cons.prems show ?case
    by (subst skip_spaces.simps) (simp add: nth_append)
qed

lemma find_space_append:
  assumes "SP \<notin> set u"
  shows "find_space (p @ u @ SP # t) (length p) = Some (length (p @ u))"
proof -
  have "takeWhile (\<lambda>c. c \<noteq> SP) (u @ SP # t) = u" using assms by (induction u) auto
  then show ?thesis by (simp add: find_space_def Let_def)
qed

fun method_name :: "HttpMethod \<Rightarrow> bytes" where
  "method_name PUT = ''PUT''"
| "method_name POST = ''POST''"
| "method_name _ = ''GET''"

lemma ParseHttpMethod_name:
  assumes "m \<in> {GET, PUT, POST}"
  shows "ParseHttpMethod (method_name m @ '' '' @ t) 0 0 = Inr (m, length (method_name m))"
  using assms ParseHttpMethod_spec [of 0 "method_name m @ '' '' @ t" 0] by auto

lemma first_line_uri:
  assumes "m \<in> {GET, PUT, POST}" "u \<noteq> []" "SP \<notin> set u"
  shows "ParseFirstLine (method_name m @ '' '' @ u @ '' '' @ t) =
    rbind (ParseHttpVersion (method_name m @ '' '' @ u @ '' '' @ t)
             (length (method_name m @ '' '' @ u @ '' '')) (length (method_name m @ '' '')))
      (\<lambda>(v, _). Inr (m, u, v))"
proof -
  let ?p = "method_name m @ '' ''"
  let ?line = "?p @ u @ '' '' @ t"
  obtain c u' where u: "u = c # u'" "c \<noteq> SP" using assms(2,3) by (cases u) auto
  have meth: "ParseHttpMethod ?line 0 0 = Inr (m, length (method_name m))"
    using ParseHttpMethod_name [OF assms(1)] by simp
  have skip: "skip_spaces ?line (length (method_name m)) = Inr (length ?p)"
    using skip_spaces_blanks [of "'' ''" c "method_name m" "u' @ '' '' @ t"] u by simp
  have find: "find_space ?line (length ?p) = Some (length (?p @ u))"
    using find_space_append [OF assms(3), of ?p t] by simp
  have uri: "take (length (?p @ u) - length ?p) (drop (length ?p) ?line) = u" by simp
  have mk: "m \<noteq> UNKNOWN_METHOD" using assms(1) by auto
  have "ParseFirstLine ?line = rbind (ParseHttpVersion ?line (length (?p @ u) + 1) (length ?p))
      (\<lambda>(v, _). Inr (m, u, v))"
    unfolding ParseFirstLine_def meth
    by (simp only: rbind_simps prod.case mk if_False skip find option.case uri)
  then show ?thesis by simp
qed

lemma request_line_lemma:
  assumes "m \<in> {GET, PUT, POST}" "u \<noteq> []" "SP \<notin> set u" "v \<in> {HTTP_1_0, HTTP_1_1, HTTP_2_0}"
  shows "ParseFirstLine (method_name m @ '' '' @ u @ '' '' @ HttpVersionToString v @ CRLF) = Inr (m, u, v)"
  using first_line_uri [OF assms(1-3), of "HttpVersionToString v @ CRLF"]
    version_roundtrip_lemma [OF assms(4), of "method_name m @ '' '' @ u @ '' ''" CRLF]
  by simp

lemma load32_CRLF: "load32 (p @ CRLF) (length p) = Inl Oob"
  by (simp add: load32_def peek_def nth_append)

lemma request_line_overread_lemma:
  assumes "m \<in> {GET, PUT, POST}" "u \<noteq> []" "SP \<notin> set u"
  shows "ParseFirstLine (method_name m @ '' '' @ u @ '' '' @ CRLF) = Inl Oob"
proof -
  have "ParseHttpVersion ((method_name m @ '' '' @ u @ '' '') @ CRLF)
      (length (method_name m @ '' '' @ u @ '' '')) e = Inl Oob" for e
    unfolding ParseHttpVersion_def load32_CRLF by simp
  with first_line_uri [OF assms, of CRLF] show ?thesis by simp
qed

section \<open>The parser as a machine\<close>

text \<open>
  A machine that is fed one item at a time: a rank that never goes down and an invariant that
  every accepted item keeps. Both then hold along every run.
\<close>

fun run_machine :: "('i \<Rightarrow> 's \<Rightarrow> 's res) \<Rightarrow> 'i list \<Rightarrow> 's \<Rightarrow> 's res" where
  "run_machine step [] s = Inr s"
| "run_machine step (i # is) s = rbind (step i s) (run_machine step is)"

locale ranked_machine =
  fixes m_step :: "'i \<Rightarrow> 's \<Rightarrow> 's res"
    and m_rank :: "'s \<Rightarrow> nat"
    and m_inv :: "'s \<Rightarrow> bool"
  assumes step_rank: "m_step i s = Inr s' \<Longrightarrow> m_rank s \<le> m_rank s'"
    and step_inv: "m_inv s \<Longrightarrow> m_step i s = Inr s' \<Longrightarrow> m_inv s'"
begin

lemma run_rank: "run_machine m_step is s = Inr s' \<Longrightarrow> m_rank s \<le> m_rank s'"
  by (induction "is" arbitrary: s) (auto simp: rbind_eq_Inr dest: step_rank intro: order_trans)

lemma run_inv: "m_inv s \<Longrightarrow> run_machine m_step is s = Inr s' \<Longrightarrow> m_inv s'"
  by (induction "is" arbitrary: s) (auto simp: rbind_eq_Inr dest: step_inv)

end

fun state_rank :: "ParserState \<Rightarrow> nat" where
  "state_rank FirstLine = 0"
| "state_rank Headers = 1"
| "state_rank Body = 2"
| "state_rank Done = 3"

abbreviation parser_rank :: "HttpHeaderParser \<Rightarrow> nat" where
  "parser_rank p \<equiv> state_rank (state p)"

definition parser_inv :: "HttpHeaderParser \<Rightarrow> bool" where
  "parser_inv p \<longleftrightarrow> map_wf (headers p)
     \<and> (state p = FirstLine \<longrightarrow> http_method p = UNKNOWN_METHOD \<and> headers p = [] \<and> content_length p = None)
     \<and> (state p \<in> {FirstLine, Headers} \<longrightarrow> body_length p = 0)
     \<and> (state p = Body \<longrightarrow> content_length p \<noteq> None)
     \<and> http_method p \<in> {GET, PUT, POST, UNKNOWN_METHOD}"

text \<open>A header line touches none of the fields the request line and the body use.\<close>

lemma ParseHeaderLine_frame:
  "ParseHeaderLine line p = Inr p' \<Longrightarrow>
     state p' = state p \<and> body_length p' = body_length p \<and> http_method p' = http_method p \<and> uri p' = uri p
     \<and> version p' = version p \<and> (map_wf (headers p) \<longrightarrow> map_wf (headers p'))"
  by (auto simp: ParseHeaderLine_def Let_def rbind_eq_Inr map_wf_emplace split: if_splits option.splits)

lemma ParseFirstLine_method:
  "ParseFirstLine line = Inr (m, u, v) \<Longrightarrow> m \<in> {GET, PUT, POST, UNKNOWN_METHOD}"
  using ParseHttpMethod_range
  by (fastforce simp: ParseFirstLine_def rbind_eq_Inr split: if_splits option.splits)

lemma PushLine_rank: "PushLine line p = Inr p' \<Longrightarrow> parser_rank p \<le> parser_rank p'"
  by (cases "state p")
    (auto simp: PushLine_def rbind_eq_Inr Let_def dest!: ParseHeaderLine_frame
      split: if_splits option.splits)

lemma PushLine_inv: "parser_inv p \<Longrightarrow> PushLine line p = Inr p' \<Longrightarrow> parser_inv p'"
  by (cases "state p")
    (auto simp: PushLine_def parser_inv_def rbind_eq_Inr Let_def
      dest!: ParseHeaderLine_frame ParseFirstLine_method split: if_splits option.splits)

interpretation parser: ranked_machine PushLine parser_rank parser_inv
  by unfold_locales (auto intro: PushLine_rank PushLine_inv)

section \<open>The body\<close>

lemma run_body:
  assumes "state p = Body" "content_length p = Some n"
    and "unat (body_length p) + length (concat ls) < 2 ^ 32"
  shows "\<exists>p'. run_machine PushLine ls p = Inr p' \<and>
    (state p' = Done \<longleftrightarrow> ls \<noteq> [] \<and> unat n \<le> unat (body_length p) + length (concat ls))
    \<and> (state p' = Body \<or> state p' = Done)"
  using assms
proof (induction ls arbitrary: p)
  case Nil
  then show ?case by simp
next
  case (Cons l ls)
  let ?p = "p\<lparr>body_length := body_length p + of_nat (length l)\<rparr>"
  have len: "unat (body_length ?p) = unat (body_length p) + length l"
    using Cons.prems(3) by (simp add: unat_word_ariths unat_of_nat)
  show ?case
  proof (cases "n \<le> body_length ?p")
    case True
    have absorb: "run_machine PushLine ls q = Inr q" if "state q = Done" for q
      using that by (induction ls) (auto simp: PushLine_def)
    from True Cons.prems(1,2) have "PushLine l p = Inr (?p\<lparr>state := Done\<rparr>)"
      by (simp add: PushLine_def Let_def)
    with absorb [of "?p\<lparr>state := Done\<rparr>"] True len show ?thesis
      by (simp add: word_le_nat_alt)
  next
    case False
    then have step: "PushLine l p = Inr ?p" using Cons.prems(1,2) by (simp add: PushLine_def Let_def)
    have "unat (body_length ?p) + length (concat ls) < 2 ^ 32" using Cons.prems(3) len by simp
    from Cons.IH [OF _ _ this] Cons.prems(1,2) obtain p' where
      p': "run_machine PushLine ls ?p = Inr p'" "state p' = Body \<or> state p' = Done"
        "state p' = Done \<longleftrightarrow> ls \<noteq> [] \<and> unat n \<le> unat (body_length ?p) + length (concat ls)" by auto
    have "\<not> unat n \<le> unat (body_length ?p)" using False by (simp add: word_le_nat_alt)
    then have "state p' = Done \<longleftrightarrow> unat n \<le> unat (body_length p) + length (concat (l # ls))"
      using p'(3) len by (cases ls) auto
    with p'(1,2) step show ?thesis by simp
  qed
qed

section \<open>Whole header lines\<close>

lemma PushLine_options:
  assumes "state p = Headers" "map tolower k = kConnection" "ts \<noteq> []" "list_all known_option ts" "fst (hd ts) \<noteq> []"
  shows "PushLine (k @ option_list ts) p = Inr (p\<lparr>connection_flags := option_flags ts (connection_flags p)\<rparr>)"
proof -
  let ?line = "k @ option_list ts"
  obtain sp t ts' where ts: "ts = (SP # sp, t) # ts'" "set sp \<subseteq> {SP}"
    using assms(3-5) by (cases ts; cases "fst (hd ts)") (auto simp: known_option_def)
  have cut: "option_list ts = SP # option_list ((sp, t) # ts')" by (cases ts') (simp_all add: ts)
  have "list_all known_option ((sp, t) # ts')" using assms(4) by (simp add: ts known_option_def)
  from conn_loop_options [OF this, of "[]" "k @ [SP]"]
  have "conn_loop (length ((sp, t) # ts') + 1) (k @ SP # option_list ((sp, t) # ts')) (length k + 1) fl
      = Some (option_flags ((sp, t) # ts') fl)" for fl
    by (simp del: conn_loop.simps option_list.simps)
  moreover have "length ts = length ((sp, t) # ts')" "option_flags ts fl = option_flags ((sp, t) # ts') fl" for fl
    by (simp_all add: ts option_flags_def)
  ultimately have loop: "conn_loop (length ts + 1) ?line (length k + 1) fl = Some (option_flags ts fl)" for fl
    by (simp only: cut)
  have "length ts \<le> length (option_list ts)"
    by (induction ts rule: option_list.induct) auto
  then have "conn_loop (length ?line + 2) ?line (length k + 1) (connection_flags p)
      = Some (option_flags ts (connection_flags p))"
    using conn_loop_mono [OF loop, of "length ?line + 2"] by simp
  moreover have "?line \<noteq> CRLF" using assms(2) by (auto simp: kConnection_def)
  ultimately show ?thesis
    using ParseHeaderLine_connection [OF assms(2), of "option_list ts" p] assms(1)
    by (simp add: PushLine_def)
qed

text \<open>With no blank after the colon the first letter of the option is skipped, and the rest is unknown.\<close>

lemma tail_not_known:
  assumes "option_flag t = Some f"
  obtains a b r where "t = a # b # r" "b \<noteq> SP" "\<forall>n \<in> {''upgrade'', ''keep-alive'', ''close''}. \<forall>x. \<not> icase_cmp (b # x) n"
proof -
  have "map tolower t \<in> {''upgrade'', ''keep-alive'', ''close''}" using assms by (auto simp: option_flag_def split: if_splits)
  then obtain a b r where t: "t = a # b # r" "tolower b \<in> {CHR ''p'', CHR ''e'', CHR ''l''}" by auto
  moreover have "b \<noteq> SP" using t(2) by (auto simp: tolower_def)
  moreover have "\<forall>n \<in> {''upgrade'', ''keep-alive'', ''close''}. \<forall>x. \<not> icase_cmp (b # x) n"
    using t(2) by (auto simp: icase_cmp_def char_eq_icase_def tolower_def)
  ultimately show thesis using that by blast
qed

lemma PushLine_options_unspaced:
  assumes "state p = Headers" "map tolower k = kConnection" "ts \<noteq> []" "list_all known_option ts" "fst (hd ts) = []"
  shows "PushLine (k @ option_list ts) p = Inl Diverges"
proof -
  let ?line = "k @ option_list ts"
  obtain t ts' f where ts: "ts = ([], t) # ts'" "option_flag t = Some f"
    using assms(3-5) by (cases ts) (auto simp: known_option_def)
  obtain a b r where t: "t = a # b # r" "b \<noteq> SP" "\<forall>n \<in> {''upgrade'', ''keep-alive'', ''close''}. \<forall>x. \<not> icase_cmp (b # x) n"
    using tail_not_known [OF ts(2)] .
  obtain x where x: "option_list ts = a # b # x" by (cases ts') (simp_all add: ts t(1))
  have nul: "b \<noteq> NUL"
    using ts(2) t(1) by (auto simp: option_flag_def tolower_def split: if_splits)
  have "conn_loop n ((k @ [a]) @ [] @ b # x) (length (k @ [a])) fl = None" for n fl
    by (rule conn_loop_unknown) (use t(2,3) nul in auto)
  then have "conn_loop n ?line (length k + 1) fl = None" for n fl by (simp add: x)
  moreover have "?line \<noteq> CRLF" using assms(2) by (auto simp: kConnection_def)
  ultimately show ?thesis
    using ParseHeaderLine_connection [OF assms(2), of "option_list ts" p] assms(1)
    by (simp add: PushLine_def)
qed

lemma PushLine_other:
  assumes "state p = Headers" "CHR '':'' \<notin> set n" "n \<noteq> []" "hd n \<noteq> SP" "NUL \<notin> set n"
    and "map tolower n \<notin> set known_names"
    and "set sp \<subseteq> {SP}" "v = [] \<or> hd v \<noteq> SP" "CR \<notin> set v" "LF \<notin> set v"
  shows "PushLine (n @ '':'' @ sp @ v @ CRLF) p = Inr (p\<lparr>headers := map_emplace n v (headers p)\<rparr>)"
proof -
  let ?line = "n @ '':'' @ sp @ v @ CRLF"
  have ne: "?line \<noteq> CRLF" using assms(3) by (auto simp: append_eq_Cons_conv)
  have val: "header_value ?line (length n + 1) = v"
    using header_value_trim [OF assms(7-10), of "n @ '':''"] by simp
  show ?thesis
    using ParseHeaderLine_other [of n "sp @ v @ CRLF" p] assms(1-6) val ne by (simp add: PushLine_def)
qed

lemma PushLine_upgrade:
  assumes "state p = Headers" "map tolower k = kUpgrade" "map tolower w = kUpgradeWs"
  shows "PushLine (k @ x # w @ CRLF) p = Inr (p\<lparr>upgrade_flags := upgrade_flags p OR UpgradeWebSocket\<rparr>)"
proof -
  have "k @ x # w @ CRLF \<noteq> CRLF" using assms(2) by (auto simp: kUpgrade_def)
  then show ?thesis
    using ParseHeaderLine_upgrade [OF assms(2), of "x # w @ CRLF" p] upgrade_websocket_value [OF assms(3), of CRLF k x]
      assms(1) by (simp add: PushLine_def)
qed

lemma PushLine_content_length:
  assumes "state p = Headers" "map tolower k = kContentLength" "set sp \<subseteq> {SP}" "ds \<noteq> []"
    and "\<forall>c \<in> set ds. isdigit c" "digits_val ds < 2 ^ 31"
  shows "PushLine (k @ sp @ ds @ CRLF) p = Inr (p\<lparr>content_length := Some (of_nat (digits_val ds))\<rparr>)"
proof -
  have "k @ sp @ ds @ CRLF \<noteq> CRLF" using assms(2) by (auto simp: kContentLength_def)
  then show ?thesis
    using content_length_value [OF assms(2-6), of p] assms(1,4) by (simp add: PushLine_def)
qed

section \<open>Properties\<close>

text \<open>
  C14. Every run of the parser moves forward through request line, headers, body and done, and
  keeps the parser's invariant: a sorted header map, no body counted before the body starts, a
  content length whenever a body is expected, and a method among GET, PUT, POST and unknown.
\<close>

theorem parser_runs_forward:
  assumes "run_machine PushLine ls new_HttpHeaderParser = Inr p"
    and "run_machine PushLine ls' p = Inr p'"
  shows "parser_inv p' \<and> state_rank (state p) \<le> state_rank (state p')"
proof -
  have "parser_inv new_HttpHeaderParser" by (simp add: parser_inv_def new_HttpHeaderParser_def)
  then have "parser_inv p" using assms(1) by (rule parser.run_inv)
  then show ?thesis using parser.run_inv parser.run_rank assms(2) by blast
qed

theorem parser_runs_forward_witness:
  "\<exists>p p'. run_machine PushLine [] new_HttpHeaderParser = Inr p
    \<and> run_machine PushLine [''GET / HTTP/1.1'' @ CRLF] p = Inr p'
    \<and> parser_inv p' \<and> state_rank (state p) \<le> state_rank (state p')"
proof -
  let ?p' = "new_HttpHeaderParser\<lparr>http_method := GET, version := HTTP_1_1, state := Headers, uri := ''/''\<rparr>"
  have a: "run_machine PushLine [] new_HttpHeaderParser = Inr new_HttpHeaderParser" by simp
  have b: "run_machine PushLine [''GET / HTTP/1.1'' @ CRLF] new_HttpHeaderParser = Inr ?p'"
    using request_line_lemma [of GET "''/''" HTTP_1_1]
    by (simp add: PushLine_def new_HttpHeaderParser_def)
  show ?thesis using parser_runs_forward [OF a b] a b by blast
qed

text \<open>
  C15. A request line built from a supported method, a URI without blanks and an HTTP version is
  parsed back into exactly these three, and the parser moves on to the headers.
\<close>

theorem request_line_roundtrip:
  assumes "state p = FirstLine" "m \<in> {GET, PUT, POST}" "u \<noteq> []" "SP \<notin> set u"
    and "v \<in> {HTTP_1_0, HTTP_1_1, HTTP_2_0}"
  shows "PushLine (method_name m @ '' '' @ u @ '' '' @ HttpVersionToString v @ CRLF) p
    = Inr (p\<lparr>http_method := m, version := v, state := Headers, uri := u\<rparr>)"
  using assms request_line_lemma [OF assms(2-5)] by (simp add: PushLine_def)

theorem request_line_roundtrip_witness:
  "PushLine (method_name POST @ '' '' @ ''/abc'' @ '' '' @ HttpVersionToString HTTP_1_0 @ CRLF)
      new_HttpHeaderParser
    = Inr (new_HttpHeaderParser\<lparr>http_method := POST, version := HTTP_1_0, state := Headers, uri := ''/abc''\<rparr>)"
  by (rule request_line_roundtrip) (simp_all add: new_HttpHeaderParser_def)

text \<open>
  A request line that ends right after the blank behind the URI makes the version parser read
  past the terminating NUL of the line.
\<close>

theorem request_line_overread:
  assumes "state p = FirstLine" "m \<in> {GET, PUT, POST}" "u \<noteq> []" "SP \<notin> set u"
  shows "PushLine (method_name m @ '' '' @ u @ '' '' @ CRLF) p = Inl Oob"
  using assms request_line_overread_lemma [OF assms(2-4)] by (simp add: PushLine_def)

theorem request_line_overread_witness:
  "PushLine (method_name GET @ '' '' @ ''/'' @ '' '' @ CRLF) new_HttpHeaderParser = Inl Oob"
  by (rule request_line_overread) (simp_all add: new_HttpHeaderParser_def)

text \<open>
  A Content-Length header, in any letter case and with any number of blanks before the
  digits, sets the content length to the decimal number, for every number below \<open>2^31\<close>.
\<close>

theorem content_length_parsed:
  assumes "state p = Headers" "map tolower k = ''content-length:''" "set sp \<subseteq> {SP}" "ds \<noteq> []"
    and "\<forall>c \<in> set ds. isdigit c" "digits_val ds < 2 ^ 31"
  shows "PushLine (k @ sp @ ds @ CRLF) p = Inr (p\<lparr>content_length := Some (of_nat (digits_val ds))\<rparr>)"
  using PushLine_content_length [of p k sp ds] assms by (simp add: kContentLength_def)

theorem content_length_parsed_witness:
  "PushLine (''Content-Length:'' @ '' '' @ ''13'' @ CRLF) (new_HttpHeaderParser\<lparr>state := Headers\<rparr>)
    = Inr (new_HttpHeaderParser\<lparr>state := Headers, content_length := Some (of_nat (digits_val ''13''))\<rparr>)"
proof -
  have "PushLine (''Content-Length:'' @ '' '' @ ''13'' @ CRLF) (new_HttpHeaderParser\<lparr>state := Headers\<rparr>)
    = Inr ((new_HttpHeaderParser\<lparr>state := Headers\<rparr>)\<lparr>content_length := Some (of_nat (digits_val ''13''))\<rparr>)"
    by (rule content_length_parsed)
      (simp, code_simp, simp_all add: isdigit_def digits_val_def digit_val_def)
  then show ?thesis by simp
qed

text \<open>
  C29. Any other header is stored under its exact name with its value trimmed of leading blanks
  and of the line end, unless the name is already there: the first occurrence wins, and every
  other stored header is unchanged.
\<close>

theorem other_header_stored:
  assumes "state p = Headers" "CHR '':'' \<notin> set n" "n \<noteq> []" "hd n \<noteq> SP" "NUL \<notin> set n"
    and "map tolower n \<notin> set known_names"
    and "set sp \<subseteq> {SP}" "v = [] \<or> hd v \<noteq> SP" "CR \<notin> set v" "LF \<notin> set v"
  shows "\<exists>p'. PushLine (n @ '':'' @ sp @ v @ CRLF) p = Inr p' \<and> state p' = Headers
    \<and> GetHeader p' n = (case map_of (headers p) n of None \<Rightarrow> v | Some old \<Rightarrow> old)
    \<and> (\<forall>k. k \<noteq> n \<longrightarrow> GetHeader p' k = GetHeader p k)"
  using PushLine_other [OF assms] assms(1) by (auto simp: GetHeader_def map_of_emplace split: option.splits)

theorem other_header_stored_witness:
  "\<exists>p'. PushLine (''X-A'' @ '':'' @ '' '' @ ''some data'' @ CRLF) (new_HttpHeaderParser\<lparr>state := Headers\<rparr>) = Inr p'
    \<and> state p' = Headers
    \<and> GetHeader p' ''X-A'' = (case map_of (headers (new_HttpHeaderParser\<lparr>state := Headers\<rparr>)) ''X-A'' of
         None \<Rightarrow> ''some data'' | Some old \<Rightarrow> old)
    \<and> (\<forall>k. k \<noteq> ''X-A'' \<longrightarrow> GetHeader p' k = GetHeader (new_HttpHeaderParser\<lparr>state := Headers\<rparr>) k)"
  by (rule other_header_stored) (simp_all add: known_names_def tolower_def)

text \<open>
  C16. A Connection header that lists known options, in any letter case, separated by commas with any
  number of blanks after them, sets exactly the flags of these options and leaves the rest of the
  parser alone - provided that a blank follows the colon of the header. Without one the code skips
  the first letter of the first option, does not know what is left, and never returns.
\<close>

theorem connection_options_set:
  assumes "state p = Headers" "map tolower k = ''connection:''" "ts \<noteq> []"
    and "\<forall>(sp, t) \<in> set ts. set sp \<subseteq> {SP} \<and> option_flag t \<noteq> None"
  shows "PushLine (k @ option_list ts) p =
    (if fst (hd ts) = [] then Inl Diverges
     else Inr (p\<lparr>connection_flags := option_flags ts (connection_flags p)\<rparr>))"
proof -
  have "map tolower k = kConnection" using assms(2) by (simp add: kConnection_def)
  moreover have "list_all known_option ts"
    unfolding list_all_iff known_option_def using assms(4) by fastforce
  ultimately show ?thesis using PushLine_options PushLine_options_unspaced assms(1,3) by auto
qed

theorem connection_options_set_witness:
  "PushLine (''Connection:'' @ option_list [('' '', ''Upgrade''), ([], ''keep-alive''), (''  '', ''CLOSE'')])
      (new_HttpHeaderParser\<lparr>state := Headers\<rparr>)
    = Inr ((new_HttpHeaderParser\<lparr>state := Headers\<rparr>)\<lparr>connection_flags := ConnectionUpgrade OR ConnectionKeepAlive OR ConnectionClose\<rparr>)
    \<and> PushLine (''Connection:'' @ option_list [([], ''close'')]) (new_HttpHeaderParser\<lparr>state := Headers\<rparr>) = Inl Diverges"
proof -
  let ?p = "new_HttpHeaderParser\<lparr>state := Headers\<rparr>" and ?ts = "[('' '', ''Upgrade''), ([], ''keep-alive''), (''  '', ''CLOSE'')]"
  have l: "map tolower ''Connection:'' = ''connection:''" and f: "option_flag ''Upgrade'' = Some ConnectionUpgrade"
    "option_flag ''keep-alive'' = Some ConnectionKeepAlive" "option_flag ''CLOSE'' = Some ConnectionClose"
    "option_flag ''close'' = Some ConnectionClose"
    by code_simp+
  have "state ?p = Headers" "?ts \<noteq> []" "\<forall>(sp, t) \<in> set ?ts. set sp \<subseteq> {SP} \<and> option_flag t \<noteq> None"
    "[([], ''close'')] \<noteq> []" "\<forall>(sp, t) \<in> set [([], ''close'')]. set sp \<subseteq> {SP} \<and> option_flag t \<noteq> None" by (simp_all add: f)
  note this
  from connection_options_set [OF this(1) l this(2,3)] connection_options_set [OF this(1) l this(4,5)]
  show ?thesis by (simp add: option_flags_def f new_HttpHeaderParser_def or.assoc)
qed

text \<open>
  C27. A Connection header whose value starts with anything else, such as an option the code does
  not know, never returns: the loop looks at the same text for ever.
\<close>

theorem connection_unknown_option_hangs:
  assumes "state p = Headers" "map tolower k = ''connection:''" "v \<noteq> []" "hd v \<noteq> SP" "NUL \<notin> set v"
    and "\<forall>n \<in> {''upgrade'', ''keep-alive'', ''close''}. \<not> icase_cmp v n"
  shows "PushLine (k @ '' '' @ v) p = Inl Diverges
    \<and> (\<forall>fuel. conn_loop fuel (k @ '' '' @ v) (length k + 1) (connection_flags p) = None)"
proof -
  let ?line = "k @ '' '' @ v"
  have k: "map tolower k = kConnection" using assms(2) by (simp add: kConnection_def)
  have tw: "takeWhile (\<lambda>c. c \<noteq> NUL) v = v" using takeWhile_NUL_append [OF assms(5), of "[]"] by simp
  have "\<forall>n \<in> {''upgrade'', ''keep-alive'', ''close''}. \<not> icase_cmp (takeWhile (\<lambda>c. c \<noteq> NUL) v) n"
    unfolding tw by (rule assms(6))
  then have loop: "conn_loop n ?line (length k + 1) (connection_flags p) = None" for n
    using conn_loop_unknown [of "[]" v n "k @ '' ''"] assms(3,4) by simp
  moreover have "?line \<noteq> CRLF" using k by (auto simp: kConnection_def)
  ultimately show ?thesis
    using ParseHeaderLine_connection [OF k, of "'' '' @ v" p] assms(1) by (simp add: PushLine_def)
qed

theorem connection_unknown_option_hangs_witness:
  "PushLine (''Connection:'' @ '' '' @ ''TE'' @ CRLF) (new_HttpHeaderParser\<lparr>state := Headers\<rparr>) = Inl Diverges
    \<and> (\<forall>fuel. conn_loop fuel (''Connection:'' @ '' '' @ ''TE'' @ CRLF) (length ''Connection:'' + 1)
         (connection_flags (new_HttpHeaderParser\<lparr>state := Headers\<rparr>)) = None)"
  by (rule connection_unknown_option_hangs) (simp, code_simp, simp, simp, simp, code_simp)

text \<open>
  The fuel of the model is exact: whenever a header line is reported not to return, no number
  of rounds of the Connection loop would have been enough.
\<close>

theorem header_line_diverges_only_for_ever:
  assumes "ParseHeaderLine line p = Inl Diverges"
  shows "\<exists>off. \<forall>fuel. conn_loop fuel line off (connection_flags p) = None"
proof -
  from assms obtain off where
    "conn_loop (length line + 2) line off (connection_flags p) = None"
    by (auto simp: ParseHeaderLine_def atoi_def rbind_def Let_def
        split: if_splits option.splits sum.splits)
  moreover have "length line - off + 2 \<le> length line + 2" by simp
  ultimately show ?thesis using conn_loop_fuel [of line off "length line + 2"] by force
qed

theorem header_line_diverges_only_for_ever_witness:
  "\<exists>off. \<forall>fuel. conn_loop fuel (''Connection:close'' @ CRLF) off (connection_flags new_HttpHeaderParser) = None"
  by (rule header_line_diverges_only_for_ever) code_simp

text \<open>
  An Upgrade header naming websocket after exactly one character sets the websocket flag.
\<close>

theorem upgrade_websocket_set:
  assumes "state p = Headers" "map tolower k = ''upgrade:''" "map tolower w = ''websocket''"
  shows "PushLine (k @ x # w @ CRLF) p = Inr (p\<lparr>upgrade_flags := upgrade_flags p OR UpgradeWebSocket\<rparr>)"
  using PushLine_upgrade [of p k w x] assms by (simp add: kUpgrade_def kUpgradeWs_def)

theorem upgrade_websocket_set_witness:
  "PushLine (''Upgrade:'' @ SP # ''WebSocket'' @ CRLF) (new_HttpHeaderParser\<lparr>state := Headers\<rparr>)
    = Inr ((new_HttpHeaderParser\<lparr>state := Headers\<rparr>)\<lparr>upgrade_flags :=
        upgrade_flags (new_HttpHeaderParser\<lparr>state := Headers\<rparr>) OR UpgradeWebSocket\<rparr>)"
  by (rule upgrade_websocket_set) (simp, code_simp, code_simp)

text \<open>
  In the body, pushing pieces never faults, and the parser is done exactly when at least one
  piece was pushed and the pieces together reach the content length (below the wrap of the
  32-bit counter). An announced length of zero therefore still waits for a piece.
\<close>

theorem body_done_when_length_reached:
  assumes "state p = Body" "content_length p = Some n" "body_length p = 0"
    and "length (concat ls) < 2 ^ 32"
  shows "\<exists>p'. run_machine PushLine ls p = Inr p' \<and>
    (state p' = Done \<longleftrightarrow> ls \<noteq> [] \<and> unat n \<le> length (concat ls))"
  using run_body [OF assms(1,2), of ls] assms(3,4) by auto

theorem body_done_when_length_reached_witness:
  "\<exists>p'. run_machine PushLine [''abc'', ''de''] (new_HttpHeaderParser\<lparr>state := Body, content_length := Some 5\<rparr>) = Inr p'
    \<and> (state p' = Done \<longleftrightarrow> [''abc'', ''de''] \<noteq> [] \<and> unat (5 :: 32 word) \<le> length (concat [''abc'', ''de'']))"
  by (rule body_done_when_length_reached) (simp_all add: new_HttpHeaderParser_def)

end
