(* ===== verification/Hpl_Os.thy ===== *)
theory Hpl_Os
  imports Hpl_Prelude
begin

text \<open>
  The operating system as the sources see it. The kernel is not part of the sources, so every
  system call is a field of the record \<open>os\<close>, an argument of the definitions that make the call:
  it takes the world and returns its result and the next world. What a property needs of a call
  is a named hypothesis on the record, stated here. Also here: \<open>setnonblocking\<close> of
  \<^verbatim>\<open>src/src/hpl_utils.cc\<close>, which only wraps \<^verbatim>\<open>fcntl\<close>.
\<close>

datatype errno = EAGAIN | EINTR | EOTHER

text \<open>A read delivers bytes (none at end of stream) or fails; a write accepts a number of bytes.\<close>

datatype read_res = Data bytes | ReadErr errno
datatype write_res = Wrote nat | WriteErr errno

text \<open>One entry of \<^verbatim>\<open>epoll_wait\<close>: the pointer stored at registration and the event mask.\<close>

type_synonym conn_ptr = nat
type_synonym epoll_entry = "conn_ptr \<times> 32 word"

record 'w os =
  sys_read :: "fd \<Rightarrow> nat \<Rightarrow> 'w \<Rightarrow> read_res \<times> 'w"
  sys_write :: "fd \<Rightarrow> bytes \<Rightarrow> 'w \<Rightarrow> write_res \<times> 'w"
  sys_close :: "fd \<Rightarrow> 'w \<Rightarrow> 'w"
  sys_getfl :: "fd \<Rightarrow> 'w \<Rightarrow> 32 word option \<times> 'w"
  sys_setfl :: "fd \<Rightarrow> 32 word \<Rightarrow> 'w \<Rightarrow> bool \<times> 'w"
  sys_pipe :: "'w \<Rightarrow> (fd \<times> fd) option \<times> 'w"
  sys_tee :: "fd \<Rightarrow> fd \<Rightarrow> nat \<Rightarrow> 'w \<Rightarrow> write_res \<times> 'w"
  sys_splice :: "fd \<Rightarrow> fd \<Rightarrow> nat \<Rightarrow> 'w \<Rightarrow> write_res \<times> 'w"
  sys_setsockopt :: "fd \<Rightarrow> string \<Rightarrow> 'w \<Rightarrow> bool \<times> 'w"
  sys_socket :: "'w \<Rightarrow> fd option \<times> 'w"
  sys_bind :: "fd \<Rightarrow> string option \<Rightarrow> int \<Rightarrow> 'w \<Rightarrow> bool \<times> 'w"
  sys_listen :: "fd \<Rightarrow> int \<Rightarrow> 'w \<Rightarrow> bool \<times> 'w"
  sys_accept :: "fd \<Rightarrow> 'w \<Rightarrow> fd option \<times> 'w"
  sys_epoll_create :: "'w \<Rightarrow> fd option \<times> 'w"
  sys_epoll_add :: "fd \<Rightarrow> fd \<Rightarrow> epoll_entry \<Rightarrow> 'w \<Rightarrow> bool \<times> 'w"
  sys_epoll_del :: "fd \<Rightarrow> fd \<Rightarrow> 'w \<Rightarrow> bool \<times> 'w"
  sys_epoll_wait :: "fd \<Rightarrow> nat \<Rightarrow> int \<Rightarrow> 'w \<Rightarrow> epoll_entry list option \<times> 'w"
  sys_now :: "'w \<Rightarrow> int \<times> 'w"

section \<open>Hypotheses on system calls\<close>

text \<open>\<^verbatim>\<open>read(fd, buf, n)\<close> delivers at most \<open>n\<close> bytes.\<close>

definition read_law :: "'w os \<Rightarrow> bool" where
  "read_law os \<longleftrightarrow> (\<forall>fd n w d w'. sys_read os fd n w = (Data d, w') \<longrightarrow> length d \<le> n)"

text \<open>A bound on the input still to come: data and interruptions use it up.\<close>

definition input_bound :: "'w os \<Rightarrow> fd \<Rightarrow> ('w \<Rightarrow> nat) \<Rightarrow> bool" where
  "input_bound os fd pending \<longleftrightarrow>
     (\<forall>n w r w'. sys_read os fd n w = (r, w') \<longrightarrow>
        ((\<exists>d. r = Data d \<and> d \<noteq> []) \<or> r = ReadErr EINTR) \<longrightarrow> pending w' < pending w)"

text \<open>
  The interest list of an epoll instance maps a registered descriptor to the pointer stored with
  it. As documented: a new instance is empty, a successful \<^verbatim>\<open>EPOLL_CTL_ADD\<close> adds one entry, a
  successful \<^verbatim>\<open>EPOLL_CTL_DEL\<close> leaves none for its descriptor, \<^verbatim>\<open>epoll_wait\<close> reports registered
  descriptors, each at most once, by their stored pointers; and no other call adds an entry
  (closing a descriptor may drop one).
\<close>

type_synonym 'w interest = "'w \<Rightarrow> fd \<Rightarrow> fd \<rightharpoonup> conn_ptr"

definition adds_none :: "'w interest \<Rightarrow> 'w \<Rightarrow> 'w \<Rightarrow> bool" where
  "adds_none reg w w' \<longleftrightarrow> (\<forall>ep. reg w' ep \<subseteq>\<^sub>m reg w ep)"

definition interest_law :: "'w os \<Rightarrow> 'w interest \<Rightarrow> bool" where
  "interest_law os reg \<longleftrightarrow>
     (\<forall>w ep w'. sys_epoll_create os w = (Some ep, w') \<longrightarrow> reg w' ep = Map.empty)
   \<and> (\<forall>ep fd p m w w'. sys_epoll_add os ep fd (p, m) w = (True, w') \<longrightarrow> reg w' ep \<subseteq>\<^sub>m (reg w ep)(fd \<mapsto> p))
   \<and> (\<forall>ep fd e w w'. sys_epoll_add os ep fd e w = (False, w') \<longrightarrow> adds_none reg w w')
   \<and> (\<forall>ep fd w b w'. sys_epoll_del os ep fd w = (b, w') \<longrightarrow> adds_none reg w w' \<and> (b \<longrightarrow> reg w' ep fd = None))
   \<and> (\<forall>ep n t w r w'. sys_epoll_wait os ep n t w = (r, w') \<longrightarrow> adds_none reg w w'
        \<and> (\<forall>evs. r = Some evs \<longrightarrow> (\<exists>fds. distinct fds \<and> map (reg w ep) fds = map (Some \<circ> fst) evs)))"

definition no_other_adds :: "'w os \<Rightarrow> 'w interest \<Rightarrow> bool" where
  "no_other_adds os reg \<longleftrightarrow>
     (\<forall>fd n w. adds_none reg w (snd (sys_read os fd n w))) \<and> (\<forall>fd d w. adds_none reg w (snd (sys_write os fd d w)))
   \<and> (\<forall>fd w. adds_none reg w (sys_close os fd w)) \<and> (\<forall>fd w. adds_none reg w (snd (sys_getfl os fd w)))
   \<and> (\<forall>fd f w. adds_none reg w (snd (sys_setfl os fd f w))) \<and> (\<forall>fd x w. adds_none reg w (snd (sys_setsockopt os fd x w)))
   \<and> (\<forall>w. adds_none reg w (snd (sys_socket os w))) \<and> (\<forall>fd a n w. adds_none reg w (snd (sys_bind os fd a n w)))
   \<and> (\<forall>fd n w. adds_none reg w (snd (sys_listen os fd n w))) \<and> (\<forall>fd w. adds_none reg w (snd (sys_accept os fd w)))
   \<and> (\<forall>w. adds_none reg w (snd (sys_now os w)))"

lemma adds_none_refl [simp]: "adds_none reg w w"
  by (simp add: adds_none_def)

lemma adds_none_trans: "adds_none reg w w1 \<Longrightarrow> adds_none reg w1 w2 \<Longrightarrow> adds_none reg w w2"
  unfolding adds_none_def by (blast intro: map_le_trans)

section \<open>setnonblocking\<close>

definition O_NONBLOCK :: "32 word" where "O_NONBLOCK = 0x800"

definition setnonblocking :: "'w os \<Rightarrow> fd \<Rightarrow> 'w \<Rightarrow> int \<times> 'w" where
  "setnonblocking os fd w =
     (case sys_getfl os fd w of
        (None, w1) \<Rightarrow> (-1, w1)
      | (Some flags, w1) \<Rightarrow>
          if flags AND O_NONBLOCK \<noteq> 0 then (0, w1)
          else (case sys_setfl os fd (flags OR O_NONBLOCK) w1 of
                  (False, w2) \<Rightarrow> (-1, w2)
                | (True, w2) \<Rightarrow> (0, w2)))"

text \<open>\<^verbatim>\<open>fcntl\<close> as documented: \<^verbatim>\<open>F_SETFL\<close> that succeeds sets the flags that \<^verbatim>\<open>F_GETFL\<close> then reports.\<close>

definition fcntl_law :: "'w os \<Rightarrow> ('w \<Rightarrow> fd \<Rightarrow> 32 word) \<Rightarrow> bool" where
  "fcntl_law os flags_of \<longleftrightarrow>
     (\<forall>fd w f w'. sys_getfl os fd w = (Some f, w') \<longrightarrow> f = flags_of w fd \<and> flags_of w' = flags_of w)
   \<and> (\<forall>fd f w w'. sys_setfl os fd f w = (True, w') \<longrightarrow> flags_of w' = (flags_of w)(fd := f))"

lemma or_nonblock: "(f OR O_NONBLOCK) AND O_NONBLOCK \<noteq> 0"
proof -
  have "(f OR O_NONBLOCK) AND O_NONBLOCK = O_NONBLOCK"
    by (rule bit_word_eqI) (auto simp: bit_simps)
  then show ?thesis by (simp add: O_NONBLOCK_def)
qed

lemma setnonblocking_ok:
  assumes "fcntl_law os flags_of" "setnonblocking os fd w = (0, w')"
  shows "flags_of w' fd AND O_NONBLOCK \<noteq> 0 \<and> flags_of w' fd OR O_NONBLOCK = flags_of w fd OR O_NONBLOCK
    \<and> (\<forall>x. x \<noteq> fd \<longrightarrow> flags_of w' x = flags_of w x)"
  using assms or_nonblock
  by (auto simp: setnonblocking_def fcntl_law_def ac_simps split: prod.splits option.splits if_splits bool.splits)

section \<open>A small kernel\<close>

text \<open>
  A concrete world on which the hypotheses hold: per descriptor the results of its coming reads,
  what was written to it, its flags and its pipe contents; the interest lists and the descriptors
  that are ready; and a clock.
\<close>

record kernel =
  k_input :: "fd \<Rightarrow> read_res list"
  k_output :: "fd \<Rightarrow> bytes"
  k_flags :: "fd \<Rightarrow> 32 word"
  k_pipe :: "fd \<Rightarrow> bytes"
  k_next_fd :: fd
  k_reg :: "fd \<Rightarrow> fd \<rightharpoonup> conn_ptr"
  k_ready :: "fd list"
  k_accepts :: "fd list"
  k_clock :: int
  k_closed :: "fd list"

fun k_read :: "fd \<Rightarrow> nat \<Rightarrow> kernel \<Rightarrow> read_res \<times> kernel" where
  "k_read fd n k =
     (case k_input k fd of
        [] \<Rightarrow> (ReadErr EAGAIN, k)
      | ReadErr e # rs \<Rightarrow> (ReadErr e, k\<lparr>k_input := (k_input k)(fd := rs)\<rparr>)
      | Data d # rs \<Rightarrow>
          if length d \<le> n then (Data d, k\<lparr>k_input := (k_input k)(fd := rs)\<rparr>)
          else (Data (take n d), k\<lparr>k_input := (k_input k)(fd := Data (drop n d) # rs)\<rparr>))"

definition sim_os :: "kernel os" where
  "sim_os =
     \<lparr>sys_read = k_read,
      sys_write = (\<lambda>fd d k. (Wrote (length d), k\<lparr>k_output := (k_output k)(fd := k_output k fd @ d)\<rparr>)),
      sys_close = (\<lambda>fd k. k\<lparr>k_closed := fd # k_closed k\<rparr>),
      sys_getfl = (\<lambda>fd k. (Some (k_flags k fd), k)),
      sys_setfl = (\<lambda>fd f k. (True, k\<lparr>k_flags := (k_flags k)(fd := f)\<rparr>)),
      sys_pipe = (\<lambda>k. (Some (k_next_fd k, k_next_fd k + 1), k\<lparr>k_next_fd := k_next_fd k + 2\<rparr>)),
      sys_tee = (\<lambda>a b n k. (WriteErr EOTHER, k)),
      sys_splice = (\<lambda>a b n k. (WriteErr EOTHER, k)),
      sys_setsockopt = (\<lambda>fd opt k. (True, k)),
      sys_socket = (\<lambda>k. (Some (k_next_fd k), k\<lparr>k_next_fd := k_next_fd k + 1\<rparr>)),
      sys_bind = (\<lambda>fd a port k. (True, k)),
      sys_listen = (\<lambda>fd n k. (True, k)),
      sys_accept = (\<lambda>fd k. case k_accepts k of [] \<Rightarrow> (None, k) | c # cs \<Rightarrow> (Some c, k\<lparr>k_accepts := cs\<rparr>)),
      sys_epoll_create = (\<lambda>k. (Some (k_next_fd k),
        k\<lparr>k_next_fd := k_next_fd k + 1, k_reg := (k_reg k)(k_next_fd k := Map.empty)\<rparr>)),
      sys_epoll_add = (\<lambda>ep fd e k. (True, k\<lparr>k_reg := (k_reg k)(ep := (k_reg k ep)(fd \<mapsto> fst e))\<rparr>)),
      sys_epoll_del = (\<lambda>ep fd k. (True, k\<lparr>k_reg := (k_reg k)(ep := (k_reg k ep)(fd := None))\<rparr>)),
      sys_epoll_wait = (\<lambda>ep n t k. (Some (map (\<lambda>fd. (the (k_reg k ep fd), 1))
        (take n (filter (\<lambda>fd. k_reg k ep fd \<noteq> None) (remdups (k_ready k))))), k)),
      sys_now = (\<lambda>k. (k_clock k, k))\<rparr>"

definition k0 :: kernel where
  "k0 = \<lparr>k_input = (\<lambda>_. []), k_output = (\<lambda>_. []), k_flags = (\<lambda>_. 0), k_pipe = (\<lambda>_. []),
         k_next_fd = 3, k_reg = (\<lambda>_. Map.empty), k_ready = [], k_accepts = [], k_clock = 0, k_closed = []\<rparr>"

lemma sim_read_law: "read_law sim_os"
  by (auto simp: read_law_def sim_os_def split: list.splits read_res.splits if_splits)

lemma sim_fcntl_law: "fcntl_law sim_os k_flags"
  by (auto simp: fcntl_law_def sim_os_def)

lemma sim_interest_law: "interest_law sim_os k_reg"
proof -
  have evs: "\<exists>fds. distinct fds \<and> map (k_reg k ep) fds = map (Some \<circ> fst) evs"
    if "sys_epoll_wait sim_os ep n t k = (Some evs, k')" for ep n t k evs k'
    using that
    by (intro exI [of _ "take n (filter (\<lambda>fd. k_reg k ep fd \<noteq> None) (remdups (k_ready k)))"])
      (auto simp: sim_os_def dest!: in_set_takeD)
  have "sys_epoll_wait sim_os ep n t k = (r, k') \<Longrightarrow> k' = k" for ep n t k r k' by (auto simp: sim_os_def)
  with evs show ?thesis
    unfolding interest_law_def by (auto simp: sim_os_def adds_none_def map_le_def)
qed

lemma sim_no_other_adds: "no_other_adds sim_os k_reg"
  by (auto simp: no_other_adds_def sim_os_def adds_none_def split: list.split read_res.split)

section \<open>Properties\<close>

text \<open>
  When \<open>setnonblocking\<close> reports success the descriptor is non-blocking, its other flags are as
  before, and no other descriptor changed.
\<close>

theorem setnonblocking_sets_flag:
  assumes "fcntl_law os flags_of" "setnonblocking os fd w = (0, w')"
  shows "flags_of w' fd AND O_NONBLOCK \<noteq> 0 \<and> flags_of w' fd OR O_NONBLOCK = flags_of w fd OR O_NONBLOCK
    \<and> (\<forall>x. x \<noteq> fd \<longrightarrow> flags_of w' x = flags_of w x)"
  using assms by (rule setnonblocking_ok)

theorem setnonblocking_sets_flag_witness:
  "\<exists>w'. setnonblocking sim_os 5 k0 = (0, w') \<and> k_flags w' 5 AND O_NONBLOCK \<noteq> 0
    \<and> k_flags w' 5 OR O_NONBLOCK = k_flags k0 5 OR O_NONBLOCK
    \<and> (\<forall>x. x \<noteq> 5 \<longrightarrow> k_flags w' x = k_flags k0 x)"
proof -
  have "setnonblocking sim_os 5 k0 = (0, k0\<lparr>k_flags := (k_flags k0)(5 := O_NONBLOCK)\<rparr>)"
    by (simp add: setnonblocking_def sim_os_def k0_def O_NONBLOCK_def)
  with setnonblocking_sets_flag [OF sim_fcntl_law this] show ?thesis by blast
qed

end
