(* ===== verification/Hpl_Connection.thy ===== *)
theory Hpl_Connection
  imports Hpl_Header_Parser Hpl_Os
begin

text \<open>
  One client connection, \<^verbatim>\<open>src/src/hpl_connection.h\<close> and \<^verbatim>\<open>hpl_connection.cc\<close>, in the configuration
  of the build file (\<^verbatim>\<open>SMALL_MEMORY=1024\<close>, \<^verbatim>\<open>HPL_ENABLE_PING_PONG=10\<close>): reading into the line buffer,
  cutting lines off it, driving the parser, writing, and the upgrade to a WebSocket. The
  WebSocket object is part of the connection that owns it; a callback is a value of the type
  parameter \<open>'h\<close>. The back pointer to the server is not stored: server operations take the
  server state.
\<close>

section \<open>The classes\<close>

record 'h WebsocketConnection =
  ws_key :: bytes
  ws_accept :: bytes
  on_data :: "'h option"
  will_close_hook :: "'h option"
  last_payload :: bytes
  last_io_time :: int

record 'h Connection =
  c_fd :: fd
  c_buffer :: bytes
  ws_conn :: "'h WebsocketConnection option"
  partial_body :: bytes
  c_parser :: HttpHeaderParser

definition new_Connection :: "fd \<Rightarrow> 'h Connection" where
  "new_Connection fd =
     \<lparr>c_fd = fd, c_buffer = [], ws_conn = None, partial_body = [], c_parser = new_HttpHeaderParser\<rparr>"

lemma new_partial_body: "partial_body (new_Connection fd) = []"
  by (simp add: new_Connection_def)

section \<open>Lines\<close>

definition kIntNewLine :: "16 word" where "kIntNewLine = le2 CR LF"

function newline_idx :: "bytes \<Rightarrow> nat \<Rightarrow> nat" where
  "newline_idx buf idx =
     (if idx < length buf - 1
      then if le2 (buf ! idx) (buf ! (idx + 1)) = kIntNewLine then idx else newline_idx buf (idx + 1)
      else idx)"
  by pat_completeness auto
termination
  by (relation "measure (\<lambda>(buf, idx). length buf - idx)") auto

declare newline_idx.simps [simp del]

definition PopLine :: "bytes \<Rightarrow> bytes option \<times> bytes" where
  "PopLine buf =
     (if length buf < 2 then (None, buf)
      else let idx = newline_idx buf 0
           in if idx \<ge> length buf - 1 then (None, buf)
              else (Some (take (idx + 2) buf), drop (idx + 2) buf))"

section \<open>Reading\<close>

text \<open>
  \<open>SMALL_MEMORY\<close>: the read length is what is left of 1024 bytes, computed in \<^verbatim>\<open>size_t\<close>; the bytes
  land in a local array of 1024, so more than that would overrun it.
\<close>

definition SMALL_MEMORY :: size_t where "SMALL_MEMORY = 1024"

definition Connection_Read :: "'w os \<Rightarrow> 'h Connection \<Rightarrow> 'w \<Rightarrow> (int \<times> 'h Connection \<times> 'w) res" where
  "Connection_Read os c w =
     (let read_len = SMALL_MEMORY - of_nat (length (c_buffer c))
      in case sys_read os (c_fd c) (unat read_len) w of
           (Data d, w') \<Rightarrow>
             if length d > unat SMALL_MEMORY then Inl Oob
             else if d \<noteq> [] then Inr (1, c\<lparr>c_buffer := c_buffer c @ d\<rparr>, w')
             else Inr (-1, c, w')
         | (ReadErr EAGAIN, w') \<Rightarrow> Inr (0, c, w')
         | (ReadErr EINTR, w') \<Rightarrow> Inr (1, c, w')
         | (ReadErr EOTHER, w') \<Rightarrow> Inr (-1, c, w'))"

fun state_ret :: "ParserState \<Rightarrow> int" where
  "state_ret Body = 0"
| "state_ret Done = 1"
| "state_ret _ = -1"

text \<open>
  The inner loop of \<open>ProcessDataIn\<close>: \<open>Some r\<close> when the function returns \<open>r\<close> from inside it,
  \<^const>\<open>None\<close> when it breaks out to read again. Each round takes at least one byte off the buffer. The code
  forms a reference to the line before it tests whether there is one; that reference is replaced or
  dropped before any use, and is not modelled.
\<close>

definition take_piece :: "'h Connection \<Rightarrow> (bytes \<times> 'h Connection) option" where
  "take_piece c =
     (case PopLine (c_buffer c) of
        (Some line, rest) \<Rightarrow> Some (line, c\<lparr>c_buffer := rest\<rparr>)
      | (None, rest) \<Rightarrow>
          if c_buffer c = [] then None
          else if state (c_parser c) \<noteq> Body then None
          else let length_limit = min (length (c_buffer c)) 1024;
                   body = take length_limit (c_buffer c)
               in Some (body, c\<lparr>partial_body := body, c_buffer := drop length_limit (c_buffer c)\<rparr>))"

lemma PopLine_Some:
  assumes "PopLine buf = (Some l, r)"
  shows "buf = l @ r" "2 \<le> length l" "length r < length buf"
  using assms by (auto simp: PopLine_def Let_def split: if_splits)

lemma take_piece_shrinks: "take_piece c = Some (l, c') \<Longrightarrow> length (c_buffer c') < length (c_buffer c)"
  by (auto simp: take_piece_def Let_def split: prod.splits option.splits if_splits
      dest: PopLine_Some)

function line_loop :: "'h Connection \<Rightarrow> (int option \<times> 'h Connection) res" where
  "line_loop c =
     (case take_piece c of
        None \<Rightarrow> Inr (None, c)
      | Some (line, c1) \<Rightarrow>
          rbind (PushLine line (c_parser c1)) (\<lambda>p.
            if state p = Done \<or> state p = Body
            then Inr (Some (state_ret (state p)), c1\<lparr>c_parser := p\<rparr>)
            else line_loop (c1\<lparr>c_parser := p\<rparr>)))"
  by pat_completeness auto
termination
  by (relation "measure (\<lambda>c. length (c_buffer c))") (auto dest: take_piece_shrinks)

declare line_loop.simps [simp del]

text \<open>
  The outer loop reads until the line loop returns, the stream is drained, or it fails. It ends
  only if the environment lets it, so it runs on fuel: \<^const>\<open>None\<close> is "still reading".
\<close>

fun ProcessDataIn ::
    "nat \<Rightarrow> 'w os \<Rightarrow> 'h Connection \<Rightarrow> 'w \<Rightarrow> (int \<times> 'h Connection \<times> 'w) res option" where
  "ProcessDataIn 0 os c w = None"
| "ProcessDataIn (Suc fuel) os c w =
     (case Connection_Read os c w of
        Inl e \<Rightarrow> Some (Inl e)
      | Inr (ret, c1, w1) \<Rightarrow>
          if ret = -1 then Some (Inr (-2, c1, w1))
          else if ret = 0 then Some (Inr (state_ret (state (c_parser c1)), c1, w1))
          else case line_loop c1 of
                 Inl e \<Rightarrow> Some (Inl e)
               | Inr (Some r, c2) \<Rightarrow> Some (Inr (r, c2, w1))
               | Inr (None, c2) \<Rightarrow> ProcessDataIn fuel os c2 w1)"

section \<open>The other members\<close>

definition PopBody :: "'h Connection \<Rightarrow> bytes" where
  "PopBody c = partial_body c"

definition Connection_Write :: "'w os \<Rightarrow> bytes \<Rightarrow> 'h Connection \<Rightarrow> 'w \<Rightarrow> int \<times> 'w" where
  "Connection_Write os data c w =
     (if c_fd c = -1 then (-1, w)
      else case sys_write os (c_fd c) data w of
             (Wrote n, w') \<Rightarrow> (1, w')
           | (WriteErr EAGAIN, w') \<Rightarrow> (0, w')
           | (WriteErr EINTR, w') \<Rightarrow> (1, w')
           | (WriteErr EOTHER, w') \<Rightarrow> (-1, w'))"

definition ShouldUpgradeWebsocket :: "'h Connection \<Rightarrow> bool" where
  "ShouldUpgradeWebsocket c \<longleftrightarrow>
     (if ws_conn c \<noteq> None then False
      else upgrade_flags (c_parser c) AND UpgradeWebSocket \<noteq> 0
         \<and> connection_flags (c_parser c) AND ConnectionUpgrade \<noteq> 0
         \<and> (version (c_parser c) = HTTP_1_1 \<or> version (c_parser c) = HTTP_1_0))"

text \<open>The first non-empty key header; the result is whether the returned pointer is not null.\<close>

definition websocket_key :: "HttpHeaderParser \<Rightarrow> bytes" where
  "websocket_key p =
     (let key = GetHeader p ''Sec-WebSocket-Key'';
          key1 = (if key = [] then GetHeader p ''Sec-WebSocket-Key1'' else key)
      in if key1 = [] then GetHeader p ''Sec-WebSocket-Key2'' else key1)"

definition UpgradeToWebsocket ::
    "'w os \<Rightarrow> 'h option \<Rightarrow> 'h option \<Rightarrow> 'h Connection \<Rightarrow> 'w \<Rightarrow> bool \<times> 'h Connection \<times> 'w" where
  "UpgradeToWebsocket os ws_on_msg hook c w =
     (if ws_conn c \<noteq> None then (True, c, w)
      else let key = websocket_key (c_parser c)
           in if key = [] then (False, c, w)
              else case sys_now os w of
                (now, w') \<Rightarrow>
                  (True, c\<lparr>ws_conn := Some \<lparr>ws_key = key, ws_accept = [], on_data = ws_on_msg,
                     will_close_hook = hook, last_payload = [], last_io_time = now\<rparr>\<rparr>, w'))"

section \<open>Where the line ends\<close>

definition crlf_at :: "bytes \<Rightarrow> nat \<Rightarrow> bool" where
  "crlf_at b i \<longleftrightarrow> i + 1 < length b \<and> b ! i = CR \<and> b ! (i + 1) = LF"

lemma crlf_at_append: "i + 1 < length a \<Longrightarrow> crlf_at (a @ b) i = crlf_at a i"
  by (auto simp: crlf_at_def nth_append)

lemma newline_idx_first:
  "idx \<le> length buf - 1 \<Longrightarrow> idx \<le> newline_idx buf idx \<and> newline_idx buf idx \<le> length buf - 1
     \<and> (newline_idx buf idx < length buf - 1 \<longrightarrow> crlf_at buf (newline_idx buf idx))
     \<and> (\<forall>j. idx \<le> j \<and> j < newline_idx buf idx \<longrightarrow> \<not> crlf_at buf j)"
proof (induction buf idx rule: newline_idx.induct)
  case (1 buf idx)
  show ?case
  proof (cases "idx < length buf - 1 \<and> \<not> crlf_at buf idx")
    case True
    then have step: "newline_idx buf idx = newline_idx buf (idx + 1)"
      and miss: "le2 (buf ! idx) (buf ! (idx + 1)) \<noteq> kIntNewLine"
      by (auto simp: newline_idx.simps [of buf idx] crlf_at_def kIntNewLine_def)
    from "1.IH" [OF _ miss] True have
      "idx + 1 \<le> newline_idx buf (idx + 1) \<and> newline_idx buf (idx + 1) \<le> length buf - 1
       \<and> (newline_idx buf (idx + 1) < length buf - 1 \<longrightarrow> crlf_at buf (newline_idx buf (idx + 1)))
       \<and> (\<forall>j. idx + 1 \<le> j \<and> j < newline_idx buf (idx + 1) \<longrightarrow> \<not> crlf_at buf j)" by simp
    with True step show ?thesis by (metis Suc_eq_plus1 le_SucI le_antisym not_less_eq_eq Suc_leD)
  next
    case False
    then have "newline_idx buf idx = idx"
      by (auto simp: newline_idx.simps [of buf idx] crlf_at_def kIntNewLine_def)
    with False "1.prems" show ?thesis by auto
  qed
qed

lemma PopLine_Some_iff:
  "PopLine b = (Some l, r) \<longleftrightarrow>
     (\<exists>k. crlf_at b k \<and> (\<forall>j < k. \<not> crlf_at b j) \<and> l = take (k + 2) b \<and> r = drop (k + 2) b)"
proof -
  let ?k = "newline_idx b 0"
  note f = newline_idx_first [of 0 b]
  have uniq: "k = ?k" if "crlf_at b k" "\<forall>j < k. \<not> crlf_at b j" for k
  proof -
    have "k < length b - 1" using that(1) by (simp add: crlf_at_def less_diff_conv)
    then show ?thesis using f that by (metis linorder_neqE_nat le0 less_trans not_less)
  qed
  show ?thesis
  proof
    assume "PopLine b = (Some l, r)"
    then show "\<exists>k. crlf_at b k \<and> (\<forall>j < k. \<not> crlf_at b j) \<and> l = take (k + 2) b \<and> r = drop (k + 2) b"
      using f by (auto simp: PopLine_def Let_def split: if_splits)
  next
    assume "\<exists>k. crlf_at b k \<and> (\<forall>j < k. \<not> crlf_at b j) \<and> l = take (k + 2) b \<and> r = drop (k + 2) b"
    then obtain k where k: "crlf_at b k" "k = ?k" "l = take (k + 2) b" "r = drop (k + 2) b"
      using uniq by blast
    then have "?k < length b - 1" "\<not> length b < 2" by (auto simp: crlf_at_def less_diff_conv)
    with k show "PopLine b = (Some l, r)" by (simp add: PopLine_def Let_def)
  qed
qed

lemma PopLine_None_iff: "PopLine b = (None, r) \<longleftrightarrow> r = b \<and> (\<forall>k. \<not> crlf_at b k)"
proof -
  have n: "fst (PopLine b) = None \<longleftrightarrow> (\<forall>k. \<not> crlf_at b k)"
  proof
    assume "fst (PopLine b) = None"
    then have none: "\<not> (\<exists>l r. PopLine b = (Some l, r))" by (metis fst_conv option.distinct(1))
    show "\<forall>k. \<not> crlf_at b k"
    proof (rule ccontr)
      assume "\<not> (\<forall>k. \<not> crlf_at b k)"
      then obtain k where "crlf_at b k" by blast
      then obtain k' where "crlf_at b k'" "\<forall>j < k'. \<not> crlf_at b j"
        using exists_least_iff [of "crlf_at b"] by blast
      with none PopLine_Some_iff show False by blast
    qed
  next
    assume none: "\<forall>k. \<not> crlf_at b k"
    show "fst (PopLine b) = None"
    proof (cases "PopLine b")
      case (Pair x y)
      with none show ?thesis by (cases x) (auto simp: PopLine_Some_iff)
    qed
  qed
  have "snd (PopLine b) = b" if "fst (PopLine b) = None"
    using that by (auto simp: PopLine_def Let_def split: if_splits)
  with n show ?thesis by (metis fst_conv snd_conv prod.collapse)
qed

lemma PopLine_stable:
  assumes "PopLine b = (Some l, r)"
  shows "PopLine (b @ c) = (Some l, r @ c)"
proof -
  from assms obtain k where k: "crlf_at b k" "\<forall>j < k. \<not> crlf_at b j"
    "l = take (k + 2) b" "r = drop (k + 2) b" by (auto simp: PopLine_Some_iff)
  then have lt: "k + 1 < length b" by (simp add: crlf_at_def)
  with k have "crlf_at (b @ c) k" "\<forall>j < k. \<not> crlf_at (b @ c) j" by (auto simp: crlf_at_append)
  moreover have "l = take (k + 2) (b @ c)" "r @ c = drop (k + 2) (b @ c)" using k(3,4) lt by auto
  ultimately show ?thesis unfolding PopLine_Some_iff by blast
qed

text \<open>A line: its only CR LF is its end.\<close>

definition one_line :: "bytes \<Rightarrow> bool" where
  "one_line h \<longleftrightarrow> 2 \<le> length h \<and> crlf_at h (length h - 2) \<and> (\<forall>j < length h - 2. \<not> crlf_at h j)"

lemma PopLine_line:
  assumes "PopLine b = (Some l, r)"
  shows "one_line l"
proof -
  obtain k where k: "crlf_at b k" "\<forall>j < k. \<not> crlf_at b j" "l = take (k + 2) b" using assms by (auto simp: PopLine_Some_iff)
  then have len: "length l = k + 2" by (simp add: crlf_at_def)
  have b: "b = l @ drop (k + 2) b" using k(3) by simp
  have "crlf_at l j = crlf_at b j" if "j \<le> k" for j
    using crlf_at_append [of j l "drop (k + 2) b", folded b] that len by simp
  with k(1,2) len show ?thesis by (simp add: one_line_def)
qed

section \<open>Lines from a stream\<close>

text \<open>
  What the rest of the connection relies on when it cuts lines off its buffer: nothing is lost or
  invented, and more input behind a complete line changes nothing about it. Under this contract
  the lines do not depend on how the stream was cut into reads.
\<close>

fun drain :: "(bytes \<Rightarrow> bytes option \<times> bytes) \<Rightarrow> nat \<Rightarrow> bytes \<Rightarrow> bytes list \<times> bytes" where
  "drain pop 0 b = ([], b)"
| "drain pop (Suc n) b =
     (case pop b of
        (None, r) \<Rightarrow> ([], b)
      | (Some l, r) \<Rightarrow> (let (ls, r') = drain pop n r in (l # ls, r')))"

text \<open>Draining after every arriving piece.\<close>

fun feed :: "(bytes \<Rightarrow> bytes option \<times> bytes) \<Rightarrow> bytes list \<Rightarrow> bytes \<Rightarrow> bytes list \<times> bytes" where
  "feed pop [] b = ([], b)"
| "feed pop (c # cs) b =
     (let (ls, r) = drain pop (length (b @ c)) (b @ c); (ls', r') = feed pop cs r in (ls @ ls', r'))"

locale line_source =
  fixes pop :: "bytes \<Rightarrow> bytes option \<times> bytes"
  assumes pop_split: "pop b = (Some l, r) \<Longrightarrow> b = l @ r \<and> l \<noteq> []"
    and pop_stable: "pop b = (Some l, r) \<Longrightarrow> pop (b @ c) = (Some l, r @ c)"
begin

lemma drain_enough:
  "length b \<le> n \<Longrightarrow> length b \<le> m \<Longrightarrow> drain pop n b = drain pop m b"
proof (induction n arbitrary: b m)
  case 0
  have "pop [] \<noteq> (Some l, r)" for l r using pop_split [of "[]" l r] by auto
  then have "drain pop m [] = ([], [])" by (cases m) (auto split: prod.splits option.splits)
  with 0 show ?case by simp
next
  case (Suc n)
  show ?case
  proof (cases m)
    case 0
    with Suc.prems have "b = []" by simp
    then show ?thesis
      using 0 pop_split [of "[]"] by (auto split: prod.splits option.splits)
  next
    case (Suc m')
    show ?thesis
    proof (cases "pop b")
      case (Pair x r)
      show ?thesis
      proof (cases x)
        case (Some l)
        with Pair have "length r < length b" using pop_split [of b l r] by auto
        with Suc.IH [of r m'] Suc.prems Suc \<open>m = Suc m'\<close> Pair Some show ?thesis by simp
      qed (use Pair \<open>m = Suc m'\<close> in simp)
    qed
  qed
qed

lemma drain_concat: "drain pop n b = (ls, r) \<Longrightarrow> concat ls @ r = b"
  by (induction n arbitrary: b ls r)
    (auto split: prod.splits option.splits dest: pop_split)

lemma drain_append:
  assumes "drain pop n a = (ls, r)" "length a \<le> n" "drain pop m (r @ b) = (ls', r')" "length (r @ b) \<le> m"
  shows "drain pop (length (a @ b)) (a @ b) = (ls @ ls', r')"
  using assms(1,2)
proof (induction n arbitrary: a ls)
  case 0
  then show ?case using assms(3,4) drain_enough [of "r @ b" m "length (r @ b)"] by simp
next
  case (Suc n)
  show ?case
  proof (cases "pop a")
    case (Pair x q)
    show ?thesis
    proof (cases x)
      case None
      with Pair Suc.prems have "ls = []" "r = a" by auto
      then show ?thesis using assms(3,4) drain_enough [of "r @ b" m "length (r @ b)"] by simp
    next
      case (Some l)
      with Pair have a: "a = l @ q" "l \<noteq> []" and st: "pop (a @ b) = (Some l, q @ b)"
        using pop_split pop_stable by auto
      from Suc.prems Pair Some obtain ls0 where ls: "ls = l # ls0" "drain pop n q = (ls0, r)"
        by (auto split: prod.splits)
      have "length q \<le> n" using a Suc.prems(2) by (cases l) auto
      from Suc.IH [OF ls(2) this] have IH: "drain pop (length (q @ b)) (q @ b) = (ls0 @ ls', r')" .
      obtain k where k: "length (a @ b) = Suc k" "length (q @ b) \<le> k" using a by (cases l) auto
      then have "drain pop k (q @ b) = (ls0 @ ls', r')" using IH drain_enough by (metis le_refl)
      with st ls k show ?thesis by simp
    qed
  qed
qed

lemma drain_stuck: "drain pop n b = (ls, r) \<Longrightarrow> length b \<le> n \<Longrightarrow> pop r \<noteq> (Some l, q)"
proof (induction n arbitrary: b ls)
  case 0
  then show ?case using pop_split [of "[]" l q] by auto
next
  case (Suc n)
  show ?case
  proof (cases "pop b")
    case (Pair x q')
    show ?thesis
    proof (cases x)
      case None
      with Pair Suc.prems show ?thesis by auto
    next
      case (Some l')
      with Pair have "length q' < length b" using pop_split [of b l' q'] by auto
      with Pair Some Suc show ?thesis by (auto split: prod.splits)
    qed
  qed
qed

lemma feed_drain: "feed pop cs b = drain pop (length (b @ concat cs)) (b @ concat cs)" if "\<And>l r. pop b \<noteq> (Some l, r)"
  using that
proof (induction cs arbitrary: b)
  case Nil
  then show ?case by (cases b) (auto split: prod.splits option.splits)
next
  case (Cons c cs)
  obtain ls r where d: "drain pop (length (b @ c)) (b @ c) = (ls, r)" by (cases "drain pop (length (b @ c)) (b @ c)")
  have stuck: "pop r \<noteq> (Some l, q)" for l q using drain_stuck [OF d] by simp
  obtain ls' r' where f: "feed pop cs r = (ls', r')" by (cases "feed pop cs r")
  with Cons.IH [OF stuck] have "drain pop (length (r @ concat cs)) (r @ concat cs) = (ls', r')" by simp
  from drain_append [OF d _ this] d f show ?case by simp
qed

end

interpretation conn_lines: line_source PopLine
  by unfold_locales (auto dest: PopLine_Some PopLine_stable)

section \<open>Reading keeps the buffer bounded\<close>

definition conn_ok :: "'h Connection \<Rightarrow> bool" where
  "conn_ok c \<longleftrightarrow> length (c_buffer c) \<le> 1024 \<and> parser_inv (c_parser c)"

lemma new_Connection_ok: "conn_ok (new_Connection fd)"
  by (simp add: conn_ok_def new_Connection_def parser_inv_def new_HttpHeaderParser_def)

lemma read_len: "length b \<le> 1024 \<Longrightarrow> unat (SMALL_MEMORY - of_nat (length b)) = 1024 - length b"
proof -
  assume le: "length b \<le> 1024"
  then have u: "unat (of_nat (length b) :: size_t) = length b" by (simp add: unat_of_nat)
  with le have "(of_nat (length b) :: size_t) \<le> 1024" by (simp add: word_le_nat_alt)
  then have "unat ((1024 :: size_t) - of_nat (length b)) = unat (1024 :: size_t) - length b"
    using u by (simp add: unat_sub)
  then show ?thesis by (simp add: SMALL_MEMORY_def)
qed

lemma Connection_Read_ok:
  assumes "read_law os" "length (c_buffer c) \<le> 1024"
  shows "\<exists>r c' w'. Connection_Read os c w = Inr (r, c', w') \<and> r \<in> {-1, 0, 1}
    \<and> length (c_buffer c') \<le> 1024 \<and> (\<exists>d. c' = c\<lparr>c_buffer := c_buffer c @ d\<rparr>)"
proof -
  obtain x w' where x: "sys_read os (c_fd c) (1024 - length (c_buffer c)) w = (x, w')"
    by (cases "sys_read os (c_fd c) (1024 - length (c_buffer c)) w")
  have "\<exists>d. c = c\<lparr>c_buffer := c_buffer c @ d\<rparr>" by (intro exI [of _ "[]"]) simp
  show ?thesis
  proof (cases x)
    case (Data d)
    with x assms(1) have "length d \<le> 1024 - length (c_buffer c)" unfolding read_law_def by blast
    with Data x assms(2) \<open>\<exists>d. c = _ d\<close> show ?thesis
      by (cases "d = []") (auto simp: Connection_Read_def read_len SMALL_MEMORY_def [THEN arg_cong, of unat] Let_def)
  next
    case (ReadErr e)
    with x assms(2) \<open>\<exists>d. c = _ d\<close> show ?thesis
      by (cases e) (auto simp: Connection_Read_def read_len Let_def)
  qed
qed

lemma take_piece_ok:
  "take_piece c = Some (l, c') \<Longrightarrow> c_parser c' = c_parser c \<and> length (c_buffer c') \<le> length (c_buffer c)
     \<and> c_fd c' = c_fd c \<and> ws_conn c' = ws_conn c"
  by (auto simp: take_piece_def Let_def split: prod.splits option.splits if_splits dest: PopLine_Some)

lemma line_loop_ok:
  "conn_ok c \<Longrightarrow> line_loop c = Inr (r, c') \<Longrightarrow> conn_ok c' \<and> c_fd c' = c_fd c \<and> ws_conn c' = ws_conn c
     \<and> (case r of None \<Rightarrow> True | Some x \<Rightarrow> x = state_ret (state (c_parser c')) \<and> x \<in> {0, 1})"
proof (induction c rule: line_loop.induct)
  case (1 c)
  show ?case
  proof (cases "take_piece c")
    case None
    with "1.prems" show ?thesis by (auto simp: line_loop.simps [of c])
  next
    case (Some lc)
    obtain l c1 where lc: "lc = (l, c1)" by (cases lc)
    with Some have tp: "c_parser c1 = c_parser c" "length (c_buffer c1) \<le> length (c_buffer c)"
      "c_fd c1 = c_fd c" "ws_conn c1 = ws_conn c" using take_piece_ok by blast+
    from "1.prems"(2) Some lc obtain p where p: "PushLine l (c_parser c1) = Inr p"
      by (auto simp: line_loop.simps [of c] rbind_eq_Inr)
    with "1.prems"(1) tp have ok: "conn_ok (c1\<lparr>c_parser := p\<rparr>)"
      using PushLine_inv by (auto simp: conn_ok_def)
    show ?thesis
    proof (cases "state p = Done \<or> state p = Body")
      case True
      with "1.prems"(2) Some lc p ok tp show ?thesis by (auto simp: line_loop.simps [of c])
    next
      case False
      with "1.prems"(2) Some lc p have "line_loop (c1\<lparr>c_parser := p\<rparr>) = Inr (r, c')"
        by (simp add: line_loop.simps [of c])
      from "1.IH" [OF Some lc [symmetric] p False ok this] tp show ?thesis by simp
    qed
  qed
qed


lemma ProcessDataIn_ok:
  assumes "read_law os"
  shows "conn_ok c \<Longrightarrow> ProcessDataIn fuel os c w = Some (Inr (ret, c', w')) \<Longrightarrow>
    conn_ok c' \<and> c_fd c' = c_fd c \<and> ws_conn c' = ws_conn c
    \<and> (ret = -2 \<or> ret = state_ret (state (c_parser c')))"
proof (induction fuel arbitrary: c w)
  case (Suc fuel)
  from Suc.prems(1) have "length (c_buffer c) \<le> 1024" by (simp add: conn_ok_def)
  from Connection_Read_ok [OF assms this] obtain r c1 w1 d where
    rd: "Connection_Read os c w = Inr (r, c1, w1)" "r \<in> {-1, 0, 1}" "length (c_buffer c1) \<le> 1024"
    "c1 = c\<lparr>c_buffer := c_buffer c @ d\<rparr>" by blast
  then have ok: "conn_ok c1" "c_fd c1 = c_fd c" "ws_conn c1 = ws_conn c"
    using Suc.prems(1) by (auto simp: conn_ok_def)
  show ?case
  proof (cases "r = 1")
    case True
    with rd Suc.prems(2) obtain x c2 where ll: "line_loop c1 = Inr (x, c2)"
      by (auto split: sum.splits option.splits)
    note l = line_loop_ok [OF ok(1) ll]
    show ?thesis
    proof (cases x)
      case None
      with ll rd True Suc.prems(2) have "ProcessDataIn fuel os c2 w1 = Some (Inr (ret, c', w'))" by simp
      from Suc.IH [OF _ this] l ok show ?thesis by simp
    next
      case (Some y)
      with ll rd True Suc.prems(2) l ok show ?thesis by simp
    qed
  qed (use rd Suc.prems(2) ok in auto)
qed simp

text \<open>
  Whose fault it is. \<open>reading_rounds j\<close> is the connection after \<open>j\<close> rounds of reading and cutting lines
  that did not end the run; the parser is to blame for an error if, after some rounds of this run, a read
  succeeds, the buffer starts with complete lines that the parser accepts, and it fails with this very
  error on the complete line after them.
\<close>

fun reading_rounds :: "nat \<Rightarrow> 'w os \<Rightarrow> 'h Connection \<Rightarrow> 'w \<Rightarrow> ('h Connection \<times> 'w) option" where
  "reading_rounds 0 os c w = Some (c, w)"
| "reading_rounds (Suc j) os c w =
     (case Connection_Read os c w of
        Inl e \<Rightarrow> None
      | Inr (ret, c1, w1) \<Rightarrow>
          if ret = 1 then case line_loop c1 of Inr (None, c2) \<Rightarrow> reading_rounds j os c2 w1 | _ \<Rightarrow> None
          else None)"

definition parser_fails :: "'h Connection \<Rightarrow> fault \<Rightarrow> bool" where
  "parser_fails c e \<longleftrightarrow> (\<exists>ls l rest p. c_buffer c = concat ls @ l @ rest \<and> list_all one_line ls \<and> one_line l
     \<and> run_machine PushLine ls (c_parser c) = Inr p \<and> parser_inv p \<and> PushLine l p = Inl e)"

definition parser_blamed :: "'w os \<Rightarrow> nat \<Rightarrow> 'h Connection \<Rightarrow> 'w \<Rightarrow> fault \<Rightarrow> bool" where
  "parser_blamed os fuel c w e \<longleftrightarrow> (\<exists>j < fuel. \<exists>c1 w1 c2 w2. reading_rounds j os c w = Some (c1, w1)
     \<and> Connection_Read os c1 w1 = Inr (1, c2, w2) \<and> parser_fails c2 e)"

lemma parser_blamed_PushLine: "parser_blamed os fuel c w e \<Longrightarrow> \<exists>line p. parser_inv p \<and> PushLine line p = Inl e"
  by (auto simp: parser_blamed_def parser_fails_def)

lemma PushLine_body_total: "state p = Body \<Longrightarrow> PushLine l p \<noteq> Inl e"
  by (auto simp: PushLine_def Let_def split: option.splits)

text \<open>A piece on which the parser does not stop is a line.\<close>

lemma take_piece_line:
  assumes "take_piece c = Some (l, c')"
  shows "c_buffer c = l @ c_buffer c'" "state (c_parser c) \<noteq> Body \<Longrightarrow> one_line l"
  using assms
  by (auto simp: take_piece_def Let_def split: prod.splits option.splits if_splits dest: PopLine_Some PopLine_line)

lemma PushLine_body_ends: "state p = Body \<Longrightarrow> PushLine l p = Inr q \<Longrightarrow> state q = Body \<or> state q = Done"
  by (auto simp: PushLine_def Let_def split: option.splits if_splits)

lemma line_loop_fault: "conn_ok c \<Longrightarrow> line_loop c = Inl e \<Longrightarrow> parser_fails c e"
proof (induction c rule: line_loop.induct)
  case (1 c)
  from "1.prems"(2) obtain l c1 where tp: "take_piece c = Some (l, c1)"
    by (auto simp: line_loop.simps [of c] split: option.splits)
  note k = take_piece_ok [OF tp] and b = take_piece_line(1) [OF tp]
  show ?case
  proof (cases "PushLine l (c_parser c1)")
    case (Inl e')
    then have "one_line l" using k take_piece_line(2) [OF tp] PushLine_body_total [of "c_parser c1" l e'] by auto
    with Inl "1.prems" tp k b show ?thesis
      unfolding parser_fails_def
      by (intro exI [of _ "[]"] exI [of _ l] exI [of _ "c_buffer c1"] exI [of _ "c_parser c"])
        (auto simp: line_loop.simps [of c] conn_ok_def)
  next
    case (Inr p)
    with "1.prems" tp k have more: "\<not> (state p = Done \<or> state p = Body)" "line_loop (c1\<lparr>c_parser := p\<rparr>) = Inl e"
      by (auto simp: line_loop.simps [of c] split: if_splits)
    then have line: "one_line l" using k Inr take_piece_line(2) [OF tp] PushLine_body_ends [of "c_parser c1" l p] by auto
    have "conn_ok (c1\<lparr>c_parser := p\<rparr>)" using "1.prems"(1) k Inr PushLine_inv by (auto simp: conn_ok_def)
    with more have "parser_fails (c1\<lparr>c_parser := p\<rparr>) e" using "1.IH" [OF tp refl Inr] by blast
    then obtain ls l' rest p' where "c_buffer c1 = concat ls @ l' @ rest" "list_all one_line ls" "one_line l'"
      "run_machine PushLine ls p = Inr p'" "parser_inv p'" "PushLine l' p' = Inl e" by (auto simp: parser_fails_def)
    with b Inr k line show ?thesis unfolding parser_fails_def
      by (intro exI [of _ "l # ls"] exI [of _ l'] exI [of _ rest] exI [of _ p']) simp
  qed
qed

lemma ProcessDataIn_fault:
  assumes "read_law os"
  shows "conn_ok c \<Longrightarrow> ProcessDataIn fuel os c w = Some (Inl e) \<Longrightarrow> parser_blamed os fuel c w e"
proof (induction fuel arbitrary: c w)
  case (Suc fuel)
  from Suc.prems(1) have "length (c_buffer c) \<le> 1024" by (simp add: conn_ok_def)
  from Connection_Read_ok [OF assms this] obtain r c1 w1 d where
    rd: "Connection_Read os c w = Inr (r, c1, w1)" "r \<in> {-1, 0, 1}" "length (c_buffer c1) \<le> 1024"
    "c1 = c\<lparr>c_buffer := c_buffer c @ d\<rparr>" by blast
  then have ok: "conn_ok c1" using Suc.prems(1) by (auto simp: conn_ok_def)
  from rd Suc.prems(2) have "r = 1" by (auto split: if_splits)
  show ?case
  proof (cases "line_loop c1")
    case (Inl e')
    with rd \<open>r = 1\<close> Suc.prems(2) have "line_loop c1 = Inl e" by simp
    with line_loop_fault [OF ok] rd(1) \<open>r = 1\<close> show ?thesis
      unfolding parser_blamed_def by (intro exI [of _ 0]) simp
  next
    case (Inr z)
    obtain x c2 where z: "z = (x, c2)" by (cases z)
    with Inr rd \<open>r = 1\<close> Suc.prems(2) have "x = None" "ProcessDataIn fuel os c2 w1 = Some (Inl e)"
      by (auto split: option.splits)
    moreover from this have "parser_blamed os fuel c2 w1 e" using Suc.IH line_loop_ok [OF ok] Inr z by blast
    then obtain j c3 w3 c4 w4 where "j < fuel" "reading_rounds j os c2 w1 = Some (c3, w3)"
      "Connection_Read os c3 w3 = Inr (1, c4, w4)" "parser_fails c4 e" by (auto simp: parser_blamed_def)
    ultimately show ?thesis using rd(1) \<open>r = 1\<close> Inr z unfolding parser_blamed_def
      by (intro exI [of _ "Suc j"]) simp
  qed
qed simp

section \<open>Enough fuel\<close>

lemma line_loop_fd: "line_loop c = Inr (r, c') \<Longrightarrow> c_fd c' = c_fd c"
proof (induction c rule: line_loop.induct)
  case (1 c)
  show ?case
  proof (cases "take_piece c")
    case None
    with "1.prems" show ?thesis by (simp add: line_loop.simps [of c])
  next
    case (Some lc)
    obtain l c1 where lc: "lc = (l, c1)" by (cases lc)
    with Some have "c_fd c1 = c_fd c" using take_piece_ok by blast
    moreover from "1.prems" Some lc obtain p where p: "PushLine l (c_parser c1) = Inr p"
      by (auto simp: line_loop.simps [of c] rbind_eq_Inr)
    ultimately show ?thesis using "1.prems" "1.IH" [OF Some lc [symmetric] p] Some lc
      by (auto simp: line_loop.simps [of c] split: if_splits)
  qed
qed

lemma ProcessDataIn_enough:
  assumes b: "input_bound os fd pending"
  shows "c_fd c = fd \<Longrightarrow> pending w < fuel \<Longrightarrow> ProcessDataIn fuel os c w \<noteq> None"
proof (induction fuel arbitrary: c w)
  case (Suc fuel)
  show ?case
  proof (cases "Connection_Read os c w")
    case (Inr z)
    obtain r c1 w1 where z: "z = (r, c1, w1)" by (cases z)
    show ?thesis
    proof (cases "r = -1 \<or> r = 0")
      case False
      with Inr z have lt: "pending w1 < pending w" "c_fd c1 = fd"
        using b Suc.prems(1) unfolding input_bound_def Connection_Read_def Let_def
        by (auto split: prod.splits read_res.splits errno.splits if_splits)
      show ?thesis
      proof (cases "line_loop c1")
        case (Inr y)
        obtain x c2 where y: "y = (x, c2)" by (cases y)
        with Inr lt have "c_fd c2 = fd" using line_loop_fd by metis
        then have "ProcessDataIn fuel os c2 w1 \<noteq> None" using Suc lt by simp
        with Inr y z False \<open>Connection_Read os c w = Inr z\<close> show ?thesis by (cases x) auto
      qed (use z False \<open>Connection_Read os c w = Inr z\<close> in simp)
    qed (use Inr z in auto)
  qed simp
qed simp

lemma ProcessDataIn_mono:
  "ProcessDataIn n os c w = Some r \<Longrightarrow> n \<le> m \<Longrightarrow> ProcessDataIn m os c w = Some r"
proof (induction n arbitrary: c w m)
  case (Suc n)
  then obtain m' where m: "m = Suc m'" "n \<le> m'" by (cases m) auto
  show ?case using Suc.prems(1) Suc.IH m
    by (auto split: sum.splits prod.splits option.splits if_splits)
qed simp

section \<open>A request head, however it arrives\<close>

lemma one_line_text:
  assumes "CR \<notin> set l"
  shows "one_line (l @ CRLF)"
proof -
  have "\<not> crlf_at (l @ CRLF) j" if "j < length l" for j
  proof -
    have "(l @ CRLF) ! j \<noteq> CR" using that assms by (metis nth_append nth_mem)
    then show ?thesis by (simp add: crlf_at_def)
  qed
  then show ?thesis by (simp add: one_line_def crlf_at_def nth_append)
qed

lemma PopLine_one_line:
  assumes "one_line h"
  shows "PopLine (h @ r) = (Some h, r)"
proof -
  have h: "2 \<le> length h" "crlf_at h (length h - 2)" "\<forall>j < length h - 2. \<not> crlf_at h j"
    using assms by (auto simp: one_line_def)
  then have "crlf_at (h @ r) (length h - 2)" "\<forall>j < length h - 2. \<not> crlf_at (h @ r) j"
    by (auto simp: crlf_at_append)
  moreover have "h = take (length h - 2 + 2) (h @ r)" "r = drop (length h - 2 + 2) (h @ r)" using h(1) by auto
  ultimately show ?thesis unfolding PopLine_Some_iff by blast
qed

lemma PopLine_part_line:
  assumes "one_line (b @ x)" "x \<noteq> []"
  shows "PopLine b = (None, b)"
  unfolding PopLine_None_iff
proof (intro conjI refl allI notI)
  fix k assume k: "crlf_at b k"
  then have "k + 1 < length b" by (simp add: crlf_at_def)
  with k assms(2) have "crlf_at (b @ x) k" "k < length (b @ x) - 2"
    by (auto simp: crlf_at_append) (cases x; simp)
  with assms(1) show False by (auto simp: one_line_def)
qed

text \<open>
  The reference run: the head lines pushed one by one; it succeeds when the parser leaves the
  header section exactly at the last of them.
\<close>

fun parse_head :: "bytes list \<Rightarrow> HttpHeaderParser \<Rightarrow> HttpHeaderParser option" where
  "parse_head [] p = None"
| "parse_head (h # hs) p =
     (case PushLine h p of
        Inl e \<Rightarrow> None
      | Inr q \<Rightarrow> if state q = Done \<or> state q = Body then if hs = [] then Some q else None
                 else parse_head hs q)"

text \<open>
  Reads that deliver the pieces \<open>cs\<close>, each to a reader that offers room for it, and then report
  that the stream is drained.
\<close>

fun delivers :: "'w os \<Rightarrow> fd \<Rightarrow> 'w \<Rightarrow> bytes list \<Rightarrow> bool" where
  "delivers os fd w [] = (\<forall>n. fst (sys_read os fd n w) = ReadErr EAGAIN)"
| "delivers os fd w (c # cs) =
     (c \<noteq> [] \<and> (\<exists>w'. (\<forall>n \<ge> length c. sys_read os fd n w = (Data c, w')) \<and> delivers os fd w' cs))"

lemma append_prefix_split:
  assumes "b @ y = h @ z"
  shows "(\<exists>r. b = h @ r \<and> r @ y = z) \<or> (\<exists>x. x \<noteq> [] \<and> h = b @ x \<and> y = x @ z)"
  using assms by (auto simp: append_eq_append_conv2)

lemma line_loop_head:
  assumes "parse_head hs (c_parser c) = Some q" "list_all one_line hs" "state (c_parser c) \<noteq> Body"
    "c_buffer c @ y = concat hs @ rest"
  shows "(\<exists>c'. line_loop c = Inr (Some (state_ret (state q)), c') \<and> c_parser c' = q \<and> c_buffer c' @ y = rest
            \<and> c_fd c' = c_fd c \<and> partial_body c' = partial_body c)
       \<or> (\<exists>c' hs' x. line_loop c = Inr (None, c') \<and> parse_head hs' (c_parser c') = Some q
            \<and> list_all one_line hs' \<and> set hs' \<subseteq> set hs \<and> state (c_parser c') \<noteq> Body
            \<and> (state (c_parser c) \<noteq> Done \<longrightarrow> state (c_parser c') \<noteq> Done)
            \<and> c_buffer c' @ y = concat hs' @ rest \<and> c_fd c' = c_fd c \<and> partial_body c' = partial_body c
            \<and> x \<noteq> [] \<and> hd hs' = c_buffer c' @ x)"
  using assms
proof (induction hs arbitrary: c)
  case (Cons h hs)
  from append_prefix_split [of "c_buffer c" y h "concat hs @ rest"] Cons.prems(4)
  consider (whole) r where "c_buffer c = h @ r" "r @ y = concat hs @ rest"
    | (part) x where "x \<noteq> []" "h = c_buffer c @ x" by auto
  then show ?case
  proof cases
    case part
    with Cons.prems(2) have "PopLine (c_buffer c) = (None, c_buffer c)" by (auto intro: PopLine_part_line)
    then have "line_loop c = Inr (None, c)"
      using Cons.prems(3) by (simp add: line_loop.simps [of c] take_piece_def)
    with part Cons.prems show ?thesis by (intro disjI2 exI [of _ c] exI [of _ "h # hs"] exI [of _ x]) simp
  next
    case whole
    let ?c = "c\<lparr>c_buffer := r\<rparr>"
    from whole Cons.prems(2) have tp: "take_piece c = Some (h, ?c)"
      by (simp add: take_piece_def PopLine_one_line)
    from Cons.prems(1) obtain q1 where q1: "PushLine h (c_parser c) = Inr q1" by (auto split: sum.splits)
    show ?thesis
    proof (cases "state q1 = Done \<or> state q1 = Body")
      case True
      with Cons.prems(1) q1 have "hs = []" "q1 = q" by (auto split: if_splits)
      with True tp q1 whole show ?thesis by (simp add: line_loop.simps [of c])
    next
      case False
      then have ll: "line_loop c = line_loop (?c\<lparr>c_parser := q1\<rparr>)"
        using tp q1 by (simp add: line_loop.simps [of c])
      have "parse_head hs q1 = Some q" using False q1 Cons.prems(1) by simp
      with Cons.IH [of "?c\<lparr>c_parser := q1\<rparr>"] False whole Cons.prems(2)
      show ?thesis unfolding ll by simp (metis subset_insertI2)
    qed
  qed
qed simp

lemma Connection_Read_data:
  assumes "\<forall>n \<ge> length d. sys_read os (c_fd c) n w = (Data d, w')" "d \<noteq> []"
    "length (c_buffer c) + length d \<le> 1024"
  shows "Connection_Read os c w = Inr (1, c\<lparr>c_buffer := c_buffer c @ d\<rparr>, w')"
proof -
  have "unat (SMALL_MEMORY - of_nat (length (c_buffer c))) = 1024 - length (c_buffer c)"
    using assms(3) by (intro read_len) simp
  moreover have "sys_read os (c_fd c) (1024 - length (c_buffer c)) w = (Data d, w')"
    using assms(1,3) by auto
  ultimately show ?thesis using assms(2,3) by (simp add: Connection_Read_def SMALL_MEMORY_def)
qed

text \<open>
  An ordinary stream socket. Its input comes in segments \<open>ss\<close>, one for each time the descriptor
  becomes readable: a read that offers room for \<open>m\<close> bytes or more takes any non-empty part of the
  segment that fits, or is interrupted; when the segment is used up, it reports that the stream is
  drained, and the next read is in the next segment. How many bytes a read takes is up to the
  system. \<open>k\<close> bounds the number of reads. \<open>m\<close> is 1 for a socket that can always hand out a single byte.
\<close>

fun pours :: "'w os \<Rightarrow> fd \<Rightarrow> nat \<Rightarrow> nat \<Rightarrow> 'w \<Rightarrow> bytes list \<Rightarrow> bool" where
  "pours os fd m 0 w ss \<longleftrightarrow> concat ss = []"
| "pours os fd m (Suc k) w [] \<longleftrightarrow> True"
| "pours os fd m (Suc k) w (s # ss) \<longleftrightarrow> (\<forall>n \<ge> m.
     if s = [] then \<exists>w'. sys_read os fd n w = (ReadErr EAGAIN, w') \<and> pours os fd m k w' ss
     else (\<exists>j w'. 1 \<le> j \<and> j \<le> min n (length s) \<and> sys_read os fd n w = (Data (take j s), w')
              \<and> pours os fd m k w' (drop j s # ss))
        \<or> (\<exists>w'. sys_read os fd n w = (ReadErr EINTR, w') \<and> pours os fd m k w' (s # ss)))"

lemma delivers_pours:
  "delivers os fd w cs \<Longrightarrow> \<forall>c \<in> set cs. length c \<le> m \<Longrightarrow> pours os fd m (length cs) w [concat cs]"
proof (induction cs arbitrary: w)
  case (Cons c cs)
  from Cons.prems obtain w' where w': "c \<noteq> []" "\<forall>n \<ge> length c. sys_read os fd n w = (Data c, w')" "delivers os fd w' cs"
    by auto
  have "pours os fd m (length cs) w' [concat cs]" using Cons.IH [OF w'(3)] Cons.prems(2) by simp
  then have "\<exists>j v. 1 \<le> j \<and> j \<le> min n (length (c @ concat cs)) \<and> sys_read os fd n w = (Data (take j (c @ concat cs)), v)
      \<and> pours os fd m (length cs) v [drop j (c @ concat cs)]" if "m \<le> n" for n
    using that w'(1,2) Cons.prems(2) by (intro exI [of _ "length c"] exI [of _ w']) (cases c; auto)
  with w'(1) show ?case by simp
qed simp

text \<open>
  A loop that reads and cuts lines in the way of \<open>ProcessDataIn\<close>, over any source of bytes: when the
  buffer is shorter than a line that \<open>fits\<close>, a read takes a part of the segment, or finds it used up.
\<close>

text \<open>
  What holds of a connection while the lines \<open>hs\<close> of a head, each of which \<open>fits\<close>, and then \<open>rest\<close> are
  still to come, \<open>y\<close> of it not yet read.
\<close>

definition expects :: "fd \<Rightarrow> (bytes \<Rightarrow> bool) \<Rightarrow> HttpHeaderParser \<Rightarrow> bytes \<Rightarrow> bytes list \<Rightarrow> bytes \<Rightarrow> 'h Connection \<Rightarrow> bool" where
  "expects fd fits q rest hs y c \<longleftrightarrow> c_fd c = fd \<and> parse_head hs (c_parser c) = Some q \<and> list_all one_line hs
     \<and> state (c_parser c) \<noteq> Body \<and> state (c_parser c) \<noteq> Done \<and> c_buffer c @ y = concat hs @ rest
     \<and> (\<exists>x. hd hs = c_buffer c @ x \<and> x \<noteq> []) \<and> (\<forall>h \<in> set hs. fits h)"

lemma expects_head:
  assumes "expects fd fits q rest hs y c"
  obtains h where "h \<in> set hs" "fits h" "length (c_buffer c) < length h" "y \<noteq> []"
proof -
  from assms obtain h hs' x where h: "hs = h # hs'" "h = c_buffer c @ x" "x \<noteq> []"
    by (cases hs) (auto simp: expects_def)
  with assms have "y = x @ concat hs' @ rest" by (auto simp: expects_def)
  with that [of h] h assms show thesis by (auto simp: expects_def)
qed

lemma expects_nothing: "\<not> expects fd fits q rest hs [] c"
  by (auto elim: expects_head)

lemma expects_new:
  assumes "y = concat hs @ rest" "list_all one_line hs" "parse_head hs new_HttpHeaderParser = Some q" "\<forall>h \<in> set hs. fits h"
  shows "expects fd fits q rest hs y (new_Connection fd)"
  using assms by (cases hs) (auto simp: expects_def new_Connection_def new_HttpHeaderParser_def one_line_def)

lemma parse_head_state: "parse_head hs p = Some q \<Longrightarrow> state q = Done \<or> state q = Body"
  by (induction hs arbitrary: p) (auto split: sum.splits if_splits)

text \<open>The events of one connection: \<open>run\<close> once for each, as long as it reports -1, that is "wait for more".\<close>

fun head_calls :: "('h Connection \<Rightarrow> 'w \<Rightarrow> (int \<times> 'h Connection \<times> 'w) res option)
    \<Rightarrow> nat \<Rightarrow> 'h Connection \<Rightarrow> 'w \<Rightarrow> (int \<times> 'h Connection \<times> 'w) res option" where
  "head_calls run 0 c w = None"
| "head_calls run (Suc n) c w =
     (case run c w of
        Some (Inr (ret, c1, w1)) \<Rightarrow> if ret = -1 then head_calls run n c1 w1 else Some (Inr (ret, c1, w1))
      | r \<Rightarrow> r)"

locale head_reader =
  fixes fd :: fd and fits :: "bytes \<Rightarrow> bool"
    and source :: "nat \<Rightarrow> 'w \<Rightarrow> bytes list \<Rightarrow> bool"
    and receive :: "'h Connection \<Rightarrow> 'w \<Rightarrow> (int \<times> 'h Connection \<times> 'w) res"
    and run :: "nat \<Rightarrow> 'h Connection \<Rightarrow> 'w \<Rightarrow> (int \<times> 'h Connection \<times> 'w) res option"
  assumes receive_part: "source k w (s # ss) \<Longrightarrow> s \<noteq> [] \<Longrightarrow> c_fd c = fd \<Longrightarrow> fits h \<Longrightarrow> length (c_buffer c) < length h
      \<Longrightarrow> \<exists>k' d s' w'. k = Suc k' \<and> s = d @ s' \<and> receive c w = Inr (1, c\<lparr>c_buffer := c_buffer c @ d\<rparr>, w') \<and> source k' w' (s' # ss)"
    and receive_none: "source k w ([] # ss) \<Longrightarrow> concat ss \<noteq> [] \<Longrightarrow> c_fd c = fd \<Longrightarrow> fits h \<Longrightarrow> length (c_buffer c) < length h
      \<Longrightarrow> \<exists>k' w'. k = Suc k' \<and> receive c w = Inr (0, c, w') \<and> source k' w' ss"
    and run_part: "receive c w = Inr (1, c1, w1) \<Longrightarrow> run (Suc n) c w =
      (case line_loop c1 of
         Inl e \<Rightarrow> Some (Inl e)
       | Inr (Some r, c2) \<Rightarrow> Some (Inr (r, c2, w1))
       | Inr (None, c2) \<Rightarrow> run n c2 w1)"
    and run_none: "receive c w = Inr (0, c1, w1) \<Longrightarrow> run (Suc n) c w = Some (Inr (state_ret (state (c_parser c1)), c1, w1))"
    and run_mono: "run n c w = Some r \<Longrightarrow> n \<le> m \<Longrightarrow> run m c w = Some r"
begin

lemma run_head:
  assumes "source k w (s # ss)" "expects fd fits q rest hs (s @ concat ss) c"
  shows "(\<exists>c' w' s' k'. run k c w = Some (Inr (state_ret (state q), c', w')) \<and> c_parser c' = q
        \<and> c_buffer c' @ s' @ concat ss = rest \<and> source k' w' (s' # ss) \<and> partial_body c' = partial_body c)
    \<or> (\<exists>c' w' k' hs'. run k c w = Some (Inr (-1, c', w')) \<and> k' \<le> k \<and> expects fd fits q rest hs' (concat ss) c'
        \<and> source k' w' ss \<and> partial_body c' = partial_body c)"
  using assms
proof (induction k arbitrary: c w s hs rule: less_induct)
  case (less k)
  obtain h where h: "h \<in> set hs" "fits h" "length (c_buffer c) < length h" "s @ concat ss \<noteq> []"
    using expects_head [OF less.prems(2)] .
  have fd: "c_fd c = fd" using less.prems(2) by (simp add: expects_def)
  show ?case
  proof (cases "s = []")
    case True
    from receive_none [of k w ss, OF _ _ fd h(2,3)] less.prems(1) True h(4) obtain k' w' where
      k': "k = Suc k'" "receive c w = Inr (0, c, w')" "source k' w' ss" by auto
    have "state_ret (state (c_parser c)) = -1"
      using less.prems(2) by (cases "state (c_parser c)") (auto simp: expects_def)
    then have "run k c w = Some (Inr (-1, c, w'))" using run_none [OF k'(2), of k'] k'(1) by simp
    then show ?thesis using less.prems(2) k' True
      by (intro disjI2 exI [of _ c] exI [of _ w'] exI [of _ k'] exI [of _ hs]) simp
  next
    case False
    from receive_part [OF less.prems(1) this fd h(2,3)] obtain k' d s' w1 where
      k': "k = Suc k'" "s = d @ s'" "receive c w = Inr (1, c\<lparr>c_buffer := c_buffer c @ d\<rparr>, w1)" "source k' w1 (s' # ss)"
      by blast
    note rd = run_part [OF k'(3), of k', folded k'(1)]
    let ?c = "c\<lparr>c_buffer := c_buffer c @ d\<rparr>" and ?y = "s' @ concat ss"
    from less.prems(2) k'(2) have e: "c_buffer ?c @ ?y = concat hs @ rest" "parse_head hs (c_parser ?c) = Some q"
      "state (c_parser ?c) \<noteq> Body" "state (c_parser ?c) \<noteq> Done" "list_all one_line hs" "\<forall>h \<in> set hs. fits h"
      by (auto simp: expects_def)
    from line_loop_head [OF e(2,5,3,1)] e(4)
    consider (ret) c' where "line_loop ?c = Inr (Some (state_ret (state q)), c')" "c_parser c' = q"
        "c_buffer c' @ ?y = rest" "partial_body c' = partial_body c"
      | (more) c' hs' x' where "line_loop ?c = Inr (None, c')" "parse_head hs' (c_parser c') = Some q"
        "list_all one_line hs'" "set hs' \<subseteq> set hs" "state (c_parser c') \<noteq> Body" "state (c_parser c') \<noteq> Done"
        "c_buffer c' @ ?y = concat hs' @ rest" "c_fd c' = c_fd c" "x' \<noteq> []" "hd hs' = c_buffer c' @ x'"
        "partial_body c' = partial_body c"
      by auto
    then show ?thesis
    proof cases
      case ret
      with rd k'(4) show ?thesis by auto
    next
      case more
      have ex: "expects fd fits q rest hs' ?y c'" unfolding expects_def using more(2-10) e(6) fd by auto
      have r: "run k c w = run k' c' w1" using rd more(1) by simp
      have "k' < k" using k'(1) by simp
      from less.IH [OF this k'(4) ex] show ?thesis
        unfolding r more(11) using \<open>k' < k\<close> by (meson le_trans less_imp_le)
    qed
  qed
qed

text \<open>When the rest of the stream comes in one segment, the head is complete within one run.\<close>

lemma run_head_once:
  assumes "source k w [s]" "expects fd fits q rest hs s c"
  shows "\<exists>c' w' s' k'. run k c w = Some (Inr (state_ret (state q), c', w')) \<and> c_parser c' = q
    \<and> c_buffer c' @ s' = rest \<and> source k' w' [s'] \<and> partial_body c' = partial_body c"
  using run_head [OF assms(1), of q rest hs c] assms(2) by (simp add: expects_nothing)

lemma run_head_calls:
  assumes "source k w ss" "expects fd fits q rest hs (concat ss) c" "k \<le> K" "state_ret (state q) \<noteq> -1"
  shows "\<exists>c' w' k' ss'. head_calls (run K) (length ss) c w = Some (Inr (state_ret (state q), c', w'))
    \<and> c_parser c' = q \<and> c_buffer c' @ concat ss' = rest \<and> source k' w' ss' \<and> partial_body c' = partial_body c"
  using assms(1-3)
proof (induction ss arbitrary: k w c hs)
  case Nil
  then show ?case by (auto elim: expects_head)
next
  case (Cons s ss)
  from run_head [OF Cons.prems(1), of q rest hs c] Cons.prems(2)
  consider (all) c' w' s' k' where "run k c w = Some (Inr (state_ret (state q), c', w'))" "c_parser c' = q"
      "c_buffer c' @ s' @ concat ss = rest" "source k' w' (s' # ss)" "partial_body c' = partial_body c"
    | (drained) c' w' k' hs' where "run k c w = Some (Inr (-1, c', w'))" "k' \<le> k" "expects fd fits q rest hs' (concat ss) c'"
      "source k' w' ss" "partial_body c' = partial_body c"
    by (simp only: concat.simps) blast
  then show ?case
  proof cases
    case all
    with run_mono [OF all(1) Cons.prems(3)] assms(4) show ?thesis
      by (intro exI [of _ c'] exI [of _ w'] exI [of _ k'] exI [of _ "s' # ss"]) simp
  next
    case drained
    have "k' \<le> K" using drained(2) Cons.prems(3) by simp
    from Cons.IH [OF drained(4,3) this] drained(5) run_mono [OF drained(1) Cons.prems(3)] show ?thesis by simp
  qed
qed

end

lemma pours_part:
  assumes "pours os fd m k w (s # ss)" "s \<noteq> []" "c_fd c = fd" "length h + m \<le> 1025" "length (c_buffer c) < length h"
  shows "\<exists>k' d s' w'. k = Suc k' \<and> s = d @ s' \<and> Connection_Read os c w = Inr (1, c\<lparr>c_buffer := c_buffer c @ d\<rparr>, w')
    \<and> pours os fd m k' w' (s' # ss)"
proof -
  let ?n = "1024 - length (c_buffer c)"
  have n: "m \<le> ?n" and room: "unat (SMALL_MEMORY - of_nat (length (c_buffer c))) = ?n"
    using assms(4,5) by (simp, intro read_len, simp)
  obtain k' where k: "k = Suc k'" using assms(1,2) by (cases k) auto
  have "(\<exists>j w'. 1 \<le> j \<and> j \<le> min ?n (length s) \<and> sys_read os fd ?n w = (Data (take j s), w') \<and> pours os fd m k' w' (drop j s # ss))
      \<or> (\<exists>w'. sys_read os fd ?n w = (ReadErr EINTR, w') \<and> pours os fd m k' w' (s # ss))"
    using assms(1,2) k n by simp
  then show ?thesis
  proof (elim disjE exE conjE)
    fix j w' assume j: "1 \<le> j" "j \<le> min ?n (length s)" "sys_read os fd ?n w = (Data (take j s), w')"
      and p: "pours os fd m k' w' (drop j s # ss)"
    have "Connection_Read os c w = Inr (1, c\<lparr>c_buffer := c_buffer c @ take j s\<rparr>, w')"
      using j room assms(2,3) by (auto simp: Connection_Read_def SMALL_MEMORY_def)
    with p k show ?thesis by (intro exI [of _ k'] exI [of _ "take j s"] exI [of _ "drop j s"] exI [of _ w']) simp
  next
    fix w' assume i: "sys_read os fd ?n w = (ReadErr EINTR, w')" and p: "pours os fd m k' w' (s # ss)"
    have "Connection_Read os c w = Inr (1, c\<lparr>c_buffer := c_buffer c @ []\<rparr>, w')"
      using i room assms(3) by (simp add: Connection_Read_def)
    with p k show ?thesis by (intro exI [of _ k'] exI [of _ "[]"] exI [of _ s] exI [of _ w']) simp
  qed
qed

lemma pours_none:
  assumes "pours os fd m k w ([] # ss)" "concat ss \<noteq> []" "c_fd c = fd" "length h + m \<le> 1025" "length (c_buffer c) < length h"
  shows "\<exists>k' w'. k = Suc k' \<and> Connection_Read os c w = Inr (0, c, w') \<and> pours os fd m k' w' ss"
proof -
  let ?n = "1024 - length (c_buffer c)"
  have n: "m \<le> ?n" and room: "unat (SMALL_MEMORY - of_nat (length (c_buffer c))) = ?n"
    using assms(4,5) by (simp, intro read_len, simp)
  obtain k' where k: "k = Suc k'" using assms(1,2) by (cases k) auto
  then obtain w' where "sys_read os fd ?n w = (ReadErr EAGAIN, w')" "pours os fd m k' w' ss" using assms(1) n by auto
  with k room assms(3) show ?thesis by (simp add: Connection_Read_def)
qed

interpretation small: head_reader fd "\<lambda>h. length h + m \<le> 1025" "pours os fd m" "Connection_Read os" "\<lambda>n. ProcessDataIn n os"
  for fd m os
  by unfold_locales (rule pours_part pours_none; assumption | simp | rule ProcessDataIn_mono; assumption)+

lemma sim_delivers:
  "k_input k fd = map Data ds \<Longrightarrow> list_all (\<lambda>d. d \<noteq> []) ds \<Longrightarrow> delivers sim_os fd k ds"
  by (induction ds arbitrary: k) (auto simp: sim_os_def)

lemma sim_pours:
  "k_input k fd = concat (map (\<lambda>ds. map Data ds @ [ReadErr EAGAIN]) dss) \<Longrightarrow> list_all (list_all (\<lambda>d. d \<noteq> [])) dss
    \<Longrightarrow> sum_list (map (\<lambda>ds. Suc (length (concat ds))) dss) \<le> K \<Longrightarrow> pours sim_os fd 1 K k (map concat dss)"
proof (induction K arbitrary: k dss)
  case (Suc K)
  show ?case
  proof (cases dss)
    case (Cons ds dss')
    show ?thesis
    proof (cases ds)
      case Nil
      let ?k = "k\<lparr>k_input := (k_input k)(fd := concat (map (\<lambda>ds. map Data ds @ [ReadErr EAGAIN]) dss'))\<rparr>"
      have "sys_read sim_os fd n k = (ReadErr EAGAIN, ?k)" for n using Suc.prems(1) Cons Nil by (simp add: sim_os_def)
      moreover have "pours sim_os fd 1 K ?k (map concat dss')" using Suc Cons by simp
      ultimately show ?thesis using Cons Nil by simp
    next
      case (Cons d ds')
      let ?s = "d @ concat ds'" and ?rs = "map Data ds' @ ReadErr EAGAIN # concat (map (\<lambda>ds. map Data ds @ [ReadErr EAGAIN]) dss')"
      have d: "d \<noteq> []" using Suc.prems(2) Cons \<open>dss = ds # dss'\<close> by simp
      have in': "k_input k fd = Data d # ?rs" using Suc.prems(1) Cons \<open>dss = ds # dss'\<close> by simp
      have "\<exists>j v. 1 \<le> j \<and> j \<le> min n (length ?s) \<and> sys_read sim_os fd n k = (Data (take j ?s), v)
          \<and> pours sim_os fd 1 K v (drop j ?s # map concat dss')" if n: "1 \<le> n" for n
      proof (cases "length d \<le> n")
        case True
        let ?k = "k\<lparr>k_input := (k_input k)(fd := ?rs)\<rparr>"
        have "pours sim_os fd 1 K ?k (map concat (ds' # dss'))"
          using Suc.prems(2,3) Cons \<open>dss = ds # dss'\<close> d by (intro Suc.IH) (auto simp: Suc_le_eq[symmetric] neq_Nil_conv)
        with True in' d show ?thesis
          by (intro exI [of _ "length d"] exI [of _ ?k]) (auto simp: sim_os_def Suc_le_eq)
      next
        case False
        let ?k = "k\<lparr>k_input := (k_input k)(fd := Data (drop n d) # ?rs)\<rparr>"
        have "pours sim_os fd 1 K ?k (map concat ((drop n d # ds') # dss'))"
          using Suc.prems(2,3) Cons \<open>dss = ds # dss'\<close> n False by (intro Suc.IH) auto
        with False in' n show ?thesis
          by (intro exI [of _ n] exI [of _ ?k]) (auto simp: sim_os_def)
      qed
      with d Cons \<open>dss = ds # dss'\<close> show ?thesis by simp
    qed
  qed simp
qed simp

definition sim_pending :: "fd \<Rightarrow> kernel \<Rightarrow> nat" where
  "sim_pending fd k = sum_list (map (\<lambda>r. case r of Data d \<Rightarrow> Suc (length d) | ReadErr e \<Rightarrow> 1) (k_input k fd))"

lemma sim_input_bound: "input_bound sim_os fd (sim_pending fd)"
  by (auto simp: input_bound_def sim_os_def sim_pending_def split: list.splits read_res.splits if_splits)

section \<open>Properties\<close>

text \<open>
  C3. A request head arrives intact however the network cuts it. Let the head be the lines \<open>hs\<close>, each of at
  most 1024 bytes with its line end (\<open>m = 1\<close>; in general \<open>1025 - m\<close> for a socket that needs room for \<open>m\<close>
  bytes), for which the parser, given them one by one, ends in state \<open>q\<close>. Let the stream \<open>head @ rest\<close> be cut
  in any way into segments \<open>ss\<close>, one for each wake-up of the connection, and each segment in any way into
  reads: a read takes any non-empty part of the segment that the offered room admits, up to all 1024 bytes
  of it, or is interrupted. Then \<open>ProcessDataIn\<close>, called once for each wake-up, reports -1 (wait) until the
  head is complete, and then 0 (body to come) or 1 (complete) as the state of \<open>q\<close> says; the parser is in
  state \<open>q\<close>, the rest of the stream is in the buffer or still to be read, byte for byte, and no body was
  taken from it yet. A longer line ends the connection (\<open>long_line_closes\<close>).
\<close>

theorem request_head_any_chunking:
  assumes "pours os fd m k w ss" "concat ss = concat hs @ rest" "list_all one_line hs"
    "parse_head hs new_HttpHeaderParser = Some q" "\<forall>h \<in> set hs. length h + m \<le> 1025"
  shows "\<exists>c' w' k' ss'. head_calls (ProcessDataIn k os) (length ss) (new_Connection fd) w
      = Some (Inr (state_ret (state q), c', w'))
    \<and> c_parser c' = q \<and> c_buffer c' @ concat ss' = rest \<and> pours os fd m k' w' ss' \<and> PopBody c' = []"
proof -
  have "state_ret (state q) \<noteq> -1" using parse_head_state [OF assms(4)] by auto
  from small.run_head_calls [OF assms(1) expects_new [OF assms(2-5)] order.refl this]
  show ?thesis by (auto simp: PopBody_def new_Connection_def)
qed

theorem request_head_any_chunking_witness:
  "\<exists>c' w' ss'. head_calls (ProcessDataIn 3000 sim_os) 3 (new_Connection 7 :: unit Connection)
        (k0\<lparr>k_input := (\<lambda>_. [])(7 := [Data (''PUT /a HTTP/1.1'' @ CRLF @ ''X: '' @ replicate 1000 (CHR ''x'')), ReadErr EAGAIN, ReadErr EAGAIN,
           Data (CRLF @ ''Conte''), Data (''nt-Length: 3'' @ CRLF @ CRLF @ ''ab''), ReadErr EAGAIN])\<rparr>)
      = Some (Inr (0, c', w'))
    \<and> state (c_parser c') = Body \<and> c_buffer c' @ concat ss' = ''ab''"
proof -
  let ?X = "''X: '' @ replicate 1000 (CHR ''x'')"
  let ?hs = "[''PUT /a HTTP/1.1'' @ CRLF, ?X @ CRLF, ''Content-Length: 3'' @ CRLF, CRLF]"
  let ?dss = "[[''PUT /a HTTP/1.1'' @ CRLF @ ?X], [], [CRLF @ ''Conte'', ''nt-Length: 3'' @ CRLF @ CRLF @ ''ab'']]"
  let ?k = "k0\<lparr>k_input := (\<lambda>_. [])(7 := [Data (''PUT /a HTTP/1.1'' @ CRLF @ ?X), ReadErr EAGAIN, ReadErr EAGAIN,
     Data (CRLF @ ''Conte''), Data (''nt-Length: 3'' @ CRLF @ CRLF @ ''ab''), ReadErr EAGAIN])\<rparr>"
  let ?q = "new_HttpHeaderParser\<lparr>http_method := PUT, uri := ''/a'', version := HTTP_1_1, content_length := Some 3, state := Body,
    headers := [(''X'', replicate 1000 (CHR ''x''))]\<rparr>"
  have d: "pours sim_os 7 1 3000 ?k (map concat ?dss)" by (rule sim_pours) simp_all
  have "one_line (''PUT /a HTTP/1.1'' @ CRLF)" "one_line (?X @ CRLF)" "one_line (''Content-Length: 3'' @ CRLF)" "one_line ([] @ CRLF)"
    by (rule one_line_text; simp)+
  then have l: "list_all one_line ?hs" by simp
  let ?p1 = "new_HttpHeaderParser\<lparr>http_method := PUT, uri := ''/a'', version := HTTP_1_1, state := Headers\<rparr>"
  let ?p2 = "?p1\<lparr>headers := [(''X'', replicate 1000 (CHR ''x''))]\<rparr>"
  have l1: "PushLine (''PUT /a HTTP/1.1'' @ CRLF) new_HttpHeaderParser = Inr ?p1" by code_simp
  have names: "map tolower ''X'' \<notin> set known_names" "map tolower ''Content-Length:'' = kContentLength" by code_simp+
  have l2: "PushLine (?X @ CRLF) ?p1 = Inr ?p2"
    using PushLine_other [of ?p1 "''X''" "'' ''" "replicate 1000 (CHR ''x'')"] names(1)
    by (simp add: new_HttpHeaderParser_def map_emplace_def)
  have l3: "PushLine (''Content-Length: 3'' @ CRLF) ?p2 = Inr (?p2\<lparr>content_length := Some 3\<rparr>)"
    using PushLine_content_length [of ?p2 "''Content-Length:''" "'' ''" "''3''"] names(2)
    by (simp add: isdigit_def digits_val_def digit_val_def)
  have l4: "PushLine CRLF (?p2\<lparr>content_length := Some 3\<rparr>) = Inr ?q"
    by (simp add: PushLine_def new_HttpHeaderParser_def)
  have q: "parse_head ?hs new_HttpHeaderParser = Some ?q" by (simp add: l1 l2 l3 l4 del: append.simps append_assoc)
  have b: "\<forall>h \<in> set ?hs. length h + 1 \<le> 1025" by simp
  have c: "concat (map concat ?dss) = concat ?hs @ ''ab''" by simp
  from request_head_any_chunking [OF d c l q b, where ?'b = unit] obtain c' w' k' ss' where
    "head_calls (ProcessDataIn 3000 sim_os) (length (map concat ?dss)) (new_Connection 7 :: unit Connection) ?k = Some (Inr (state_ret (state ?q), c', w'))"
    "c_parser c' = ?q" "c_buffer c' @ concat ss' = ''ab''" by blast
  then show ?thesis by (intro exI [of _ c'] exI [of _ w'] exI [of _ ss']) (simp add: numeral_3_eq_3 del: head_calls.simps)
qed

text \<open>
  C12. The invariant of a connection: the buffer holds at most 1024 bytes, which is what keeps the
  read length from wrapping round, and the parser its own invariant. \<open>ProcessDataIn\<close> keeps it,
  returns -2 or the code of the parser's state, and never touches the descriptor or the WebSocket
  half. Reading and cutting lines never fault: if the run fails with an error, then after some of its own
  rounds a read succeeded, what is buffered then starts with complete lines, and on one of them, in the state
  the parser has reached by the lines before it, \<open>PushLine\<close> fails with this error.
\<close>

theorem process_data_in_safe:
  assumes "read_law os" "conn_ok c" "ProcessDataIn fuel os c w = Some r"
  shows "case r of
      Inr (ret, c', w') \<Rightarrow> conn_ok c' \<and> c_fd c' = c_fd c \<and> ws_conn c' = ws_conn c
        \<and> (ret = -2 \<or> ret = state_ret (state (c_parser c')))
    | Inl e \<Rightarrow> parser_blamed os fuel c w e"
proof (cases r)
  case (Inl e)
  with ProcessDataIn_fault [OF assms(1,2)] assms(3) show ?thesis by simp
next
  case (Inr z)
  with ProcessDataIn_ok [OF assms(1,2)] assms(3) show ?thesis by (cases z) simp
qed

theorem process_data_in_safe_witness:
  "\<exists>c' w'. ProcessDataIn 1 sim_os (new_Connection 7 :: unit Connection) k0 = Some (Inr (-1, c', w'))
     \<and> conn_ok c' \<and> c_fd c' = 7"
proof -
  have "ProcessDataIn 1 sim_os (new_Connection 7 :: unit Connection) k0 = Some (Inr (-1, new_Connection 7, k0))"
    by (simp add: Connection_Read_def sim_os_def k0_def new_Connection_def new_HttpHeaderParser_def)
  from process_data_in_safe [OF sim_read_law new_Connection_ok this] this show ?thesis
    by (auto simp: new_Connection_def)
qed

text \<open>
  C13. The reading loop of \<open>ProcessDataIn\<close> ends. Let the input of the descriptor be bounded by a measure that
  every piece of data and every interruption decreases. Then \<open>ProcessDataIn\<close> returns a code within as many
  rounds as the measure says, and more rounds would change nothing - unless \<open>PushLine\<close> itself fails on a
  complete line of this input, which includes that it never returns (\<open>Diverges\<close>, as for an unknown Connection option). So
  the parser is the only reason for which \<open>ProcessDataIn\<close> may not return on bounded input.
\<close>

theorem process_data_in_returns:
  assumes "read_law os" "conn_ok c" "input_bound os (c_fd c) pending"
  shows "(\<exists>ret c' w'. \<forall>fuel > pending w. ProcessDataIn fuel os c w = Some (Inr (ret, c', w')))
    \<or> (\<exists>e. parser_blamed os (Suc (pending w)) c w e \<and> (\<forall>fuel > pending w. ProcessDataIn fuel os c w = Some (Inl e)))"
proof -
  from ProcessDataIn_enough [OF assms(3) refl, of w "Suc (pending w)"]
  obtain r where r: "ProcessDataIn (Suc (pending w)) os c w = Some r" by auto
  then have all: "ProcessDataIn fuel os c w = Some r" if "pending w < fuel" for fuel
    using that by (intro ProcessDataIn_mono [OF r]) simp
  show ?thesis
  proof (cases r)
    case (Inl e)
    with ProcessDataIn_fault [OF assms(1,2)] r all show ?thesis by blast
  next
    case (Inr z)
    with all show ?thesis by (cases z) blast
  qed
qed

theorem process_data_in_returns_witness:
  "\<exists>ret c' w'. ProcessDataIn 6 sim_os (new_Connection 7 :: unit Connection) (k0\<lparr>k_input := (\<lambda>_. [])(7 := [ReadErr EINTR, Data ''GET''])\<rparr>) = Some (Inr (ret, c', w'))
    \<and> ProcessDataIn 60 sim_os (new_Connection 7 :: unit Connection) (k0\<lparr>k_input := (\<lambda>_. [])(7 := [ReadErr EINTR, Data ''GET''])\<rparr>) = Some (Inr (ret, c', w'))"
proof -
  let ?c = "new_Connection 7 :: unit Connection" and ?k = "k0\<lparr>k_input := (\<lambda>_. [])(7 := [ReadErr EINTR, Data ''GET''])\<rparr>"
  have b: "input_bound sim_os (c_fd ?c) (sim_pending 7)" using sim_input_bound by (simp add: new_Connection_def)
  have p: "sim_pending 7 ?k = 5" by (simp add: sim_pending_def)
  have six: "6 = Suc (Suc (Suc (Suc (Suc (Suc 0)))))" by simp
  have "PopLine ''GET'' = (None, ''GET'')" "PopLine [] = (None, [])" by code_simp+
  then have "\<exists>ret c' w'. ProcessDataIn 6 sim_os ?c ?k = Some (Inr (ret, c', w'))"
    unfolding six by (simp add: Connection_Read_def SMALL_MEMORY_def sim_os_def new_Connection_def line_loop.simps take_piece_def new_HttpHeaderParser_def)
  with process_data_in_returns [OF sim_read_law new_Connection_ok b, of ?k] p show ?thesis
    by (auto simp del: ProcessDataIn.simps)
qed

text \<open>
  The lines cut off a stream do not depend on how the stream was cut into reads: popping after
  every read gives the lines of the whole stream, byte for byte the lines and the rest are the
  stream, and no complete line is left in the rest.
\<close>

theorem lines_independent_of_reads:
  assumes "feed PopLine cs [] = (ls, r)"
  shows "feed PopLine [concat cs] [] = (ls, r) \<and> concat ls @ r = concat cs \<and> (\<forall>k. \<not> crlf_at r k)"
proof -
  have n: "PopLine [] \<noteq> (Some l, q)" for l q by (simp add: PopLine_def)
  from conn_lines.feed_drain [OF n, of cs] assms
  have d: "drain PopLine (length (concat cs)) (concat cs) = (ls, r)" by simp
  have "PopLine r \<noteq> (Some l, q)" for l q using conn_lines.drain_stuck [OF d] by simp
  then have "\<forall>k. \<not> crlf_at r k" by (metis PopLine_None_iff option.exhaust surj_pair)
  moreover have "concat ls @ r = concat cs" using conn_lines.drain_concat [OF d] .
  ultimately show ?thesis using conn_lines.feed_drain [OF n, of "[concat cs]"] d by simp
qed

theorem lines_independent_of_reads_witness:
  "feed PopLine [''a'', CRLF @ ''b'', CRLF @ ''c''] [] = ([''a'' @ CRLF, ''b'' @ CRLF], ''c'')
   \<and> feed PopLine [concat [''a'', CRLF @ ''b'', CRLF @ ''c'']] [] = ([''a'' @ CRLF, ''b'' @ CRLF], ''c'')"
proof -
  have "feed PopLine [''a'', CRLF @ ''b'', CRLF @ ''c''] [] = ([''a'' @ CRLF, ''b'' @ CRLF], ''c'')" by code_simp
  with lines_independent_of_reads [OF this] show ?thesis by simp
qed

text \<open>
  A line too long for the buffer ends the connection: with 1024 buffered bytes, no CR LF among
  them and the head still open, the next read asks for no bytes, and a read of none looks like
  the end of the stream.
\<close>

theorem long_line_closes:
  assumes "fst (sys_read os (c_fd c) 0 w') = Data []" "length (c_buffer c) + length d = 1024" "d \<noteq> []"
    "\<forall>n \<ge> length d. sys_read os (c_fd c) n w = (Data d, w')"
    "\<forall>k. \<not> crlf_at (c_buffer c @ d) k" "state (c_parser c) \<noteq> Body"
  shows "\<exists>w''. ProcessDataIn 2 os c w = Some (Inr (-2, c\<lparr>c_buffer := c_buffer c @ d\<rparr>, w''))"
proof -
  let ?c = "c\<lparr>c_buffer := c_buffer c @ d\<rparr>"
  have rd: "Connection_Read os c w = Inr (1, ?c, w')" using assms by (intro Connection_Read_data) auto
  have "PopLine (c_buffer ?c) = (None, c_buffer ?c)" using assms(5) by (simp add: PopLine_None_iff)
  then have ll: "line_loop ?c = Inr (None, ?c)"
    using assms(6) by (simp add: line_loop.simps [of ?c] take_piece_def)
  obtain w'' where "sys_read os (c_fd c) 0 w' = (Data [], w'')" using assms(1) by (metis prod.collapse)
  then have "Connection_Read os ?c w' = Inr (-1, ?c, w'')"
    using read_len [of "c_buffer ?c"] assms(2) by (simp add: Connection_Read_def)
  with rd ll show ?thesis by (simp add: numeral_2_eq_2)
qed

theorem long_line_closes_witness:
  "\<exists>w''. ProcessDataIn 2 sim_os (new_Connection 7 :: unit Connection)
      (k0\<lparr>k_input := (\<lambda>_. [])(7 := [Data (replicate 1024 SP), Data ''x''])\<rparr>)
    = Some (Inr (-2, new_Connection 7\<lparr>c_buffer := replicate 1024 SP\<rparr>, w''))"
proof -
  let ?k = "k0\<lparr>k_input := (\<lambda>_. [])(7 := [Data (replicate 1024 SP), Data ''x''])\<rparr>"
  let ?k' = "k0\<lparr>k_input := (\<lambda>_. [])(7 := [Data ''x''])\<rparr>"
  let ?c = "new_Connection 7 :: unit Connection"
  have "\<exists>w''. ProcessDataIn 2 sim_os ?c ?k = Some (Inr (-2, ?c\<lparr>c_buffer := c_buffer ?c @ replicate 1024 SP\<rparr>, w''))"
  proof (rule long_line_closes)
    show "fst (sys_read sim_os (c_fd ?c) 0 ?k') = Data []" by (simp add: sim_os_def new_Connection_def)
    show "\<forall>n \<ge> length (replicate 1024 SP). sys_read sim_os (c_fd ?c) n ?k = (Data (replicate 1024 SP), ?k')"
      by (simp add: sim_os_def new_Connection_def)
  qed (auto simp: new_Connection_def new_HttpHeaderParser_def crlf_at_def)
  then show ?thesis by (simp add: new_Connection_def)
qed

text \<open>
  C39. Body bytes that end in CR LF are counted but not kept: when the buffer starts with a complete
  line while the parser is in the body, the line goes to the parser only, and the body the
  handler sees is still the piece before it.
\<close>

theorem body_line_not_kept:
  assumes "state (c_parser c) = Body" "PopLine (c_buffer c) = (Some l, r)"
  shows "\<exists>p. line_loop c = Inr (Some (state_ret (state p)), c\<lparr>c_buffer := r, c_parser := p\<rparr>)
    \<and> PopBody (c\<lparr>c_buffer := r, c_parser := p\<rparr>) = PopBody c
    \<and> body_length p = body_length (c_parser c) + of_nat (length l)"
proof -
  obtain p where p: "PushLine l (c_parser c) = Inr p" "state p = Done \<or> state p = Body"
    "body_length p = body_length (c_parser c) + of_nat (length l)"
    using assms(1) by (cases "content_length (c_parser c)") (auto simp: PushLine_def Let_def)
  with assms(2) show ?thesis
    by (auto simp: line_loop.simps [of c] take_piece_def PopBody_def)
qed

theorem body_line_not_kept_witness:
  "\<exists>p. line_loop (new_Connection 7\<lparr>c_buffer := ''ab'' @ CRLF @ ''c'', c_parser := new_HttpHeaderParser\<lparr>state := Body\<rparr>\<rparr>
        :: unit Connection)
     = Inr (Some (state_ret (state p)), new_Connection 7\<lparr>c_buffer := ''c'', c_parser := p\<rparr>)
   \<and> body_length p = 4"
proof -
  let ?c = "new_Connection 7\<lparr>c_buffer := ''ab'' @ CRLF @ ''c'', c_parser := new_HttpHeaderParser\<lparr>state := Body\<rparr>\<rparr> :: unit Connection"
  have "PopLine (c_buffer ?c) = (Some (''ab'' @ CRLF), ''c'')" by code_simp
  from body_line_not_kept [OF _ this] show ?thesis
    by (auto simp: new_Connection_def new_HttpHeaderParser_def)
qed

end
