(* ===== verification/Hpl_Base64.thy ===== *)
theory Hpl_Base64
  imports Hpl_Prelude
begin

text \<open>
  \<^verbatim>\<open>base64_encode\<close> of \<^verbatim>\<open>src/src/external_helpers.h\<close>: the encoding loop with its output index and
  every store into the caller's array bounds-checked, the padding loop and the length protocol.
  The reference is the structural encoding of RFC 4648 and its decoder.
\<close>

definition b64 :: bytes where
  "b64 = ''ABCDEFGHIJKLMNOPQRSTUVWXYZabcdefghijklmnopqrstuvwxyz0123456789+/''"

definition store :: "bytes \<Rightarrow> nat \<Rightarrow> char \<Rightarrow> bytes res" where
  "store dst j c = (if j < length dst then Inr (dst[j := c]) else Inl Oob)"

text \<open>\<^verbatim>\<open>dst[j++] = b64[k]\<close>\<close>

definition put64 :: "nat \<Rightarrow> nat \<times> bytes \<Rightarrow> (nat \<times> bytes) res" where
  "put64 k s = rbind (peek b64 k) (\<lambda>c. rbind (store (snd s) (fst s) c) (\<lambda>d. Inr (fst s + 1, d)))"

text \<open>One round of the loop, at source index \<open>i\<close> and output index \<open>j\<close>.\<close>

definition b64_round :: "bytes \<Rightarrow> nat \<Rightarrow> nat \<times> bytes \<Rightarrow> (nat \<times> bytes) res" where
  "b64_round src i s0 =
     (let a = of_char (src ! i);
          b = (if i + 1 \<ge> length src then 0 else of_char (src ! (i + 1)));
          c = (if i + 2 \<ge> length src then 0 else of_char (src ! (i + 2)))
      in rbind (put64 (drop_bit 2 a) s0) (\<lambda>s1.
         rbind (put64 (push_bit 4 (a AND 3) OR drop_bit 4 b) s1) (\<lambda>s2.
         rbind (if i + 1 < length src then put64 (push_bit 2 (b AND 15) OR drop_bit 6 c) s2
                else Inr s2) (\<lambda>s3.
         if i + 2 < length src then put64 (c AND 63) s3 else Inr s3))))"

function b64_loop :: "bytes \<Rightarrow> nat \<Rightarrow> nat \<Rightarrow> bytes \<Rightarrow> (nat \<times> bytes) res" where
  "b64_loop src i j dst =
     (if i < length src
      then rbind (b64_round src i (j, dst)) (\<lambda>s. b64_loop src (i + 3) (fst s) (snd s))
      else Inr (j, dst))"
  by pat_completeness auto
termination
  by (relation "measure (\<lambda>(src, i, j, dst). length src - i)") auto

declare b64_loop.simps [simp del]

lemma pad_decreases:
  assumes "j mod 4 \<noteq> (0::nat)"
  shows "(4 - Suc j mod 4) mod 4 < (4 - j mod 4) mod 4"
proof -
  have "j mod 4 < 4" by simp
  with assms have "j mod 4 = 1 \<or> j mod 4 = 2 \<or> j mod 4 = 3" by linarith
  then show ?thesis by (auto simp: mod_Suc)
qed

function pad_loop :: "nat \<Rightarrow> bytes \<Rightarrow> (nat \<times> bytes) res" where
  "pad_loop j dst =
     (if j mod 4 \<noteq> 0 then rbind (store dst j (CHR ''='')) (\<lambda>d. pad_loop (j + 1) d)
      else Inr (j, dst))"
  by pat_completeness auto
termination
  by (relation "measure (\<lambda>(j, dst). (4 - j mod 4) mod 4)") (use pad_decreases in auto)

declare pad_loop.simps [simp del]

text \<open>
  The result is the return value, the destination array and \<^verbatim>\<open>*dst_len\<close> (\<^const>\<open>None\<close> when the
  caller passes a null pointer).
\<close>

definition base64_encode :: "bytes \<Rightarrow> bytes \<Rightarrow> nat option \<Rightarrow> (int \<times> bytes \<times> nat option) res" where
  "base64_encode src dst dst_len =
     (let expected_len = ((length src + 2) div 3) * 4 + 1
      in if (case dst_len of None \<Rightarrow> False | Some n \<Rightarrow> n < expected_len)
         then rbind (if the dst_len > 0 then store dst 0 NUL else Inr dst)
                (\<lambda>d. Inr (0, d, Some expected_len))
         else rbind (b64_loop src 0 0 dst) (\<lambda>(j, d).
              rbind (pad_loop j d) (\<lambda>(j', d').
              rbind (store d' j' NUL) (\<lambda>d''.
              Inr (-1, d'', map_option (\<lambda>_. j' + 1) dst_len)))))"

section \<open>Reference encoding\<close>

definition c64 :: "nat \<Rightarrow> char" where
  "c64 k = b64 ! k"

fun b64_body :: "bytes \<Rightarrow> bytes" where
  "b64_body [] = []"
| "b64_body [a] = (let x = of_char a in [c64 (x div 4), c64 (x mod 4 * 16)])"
| "b64_body [a, b] =
     (let x = of_char a; y = of_char b
      in [c64 (x div 4), c64 (x mod 4 * 16 + y div 16), c64 (y mod 16 * 4)])"
| "b64_body (a # b # c # s) =
     (let x = of_char a; y = of_char b; z = of_char c
      in c64 (x div 4) # c64 (x mod 4 * 16 + y div 16) # c64 (y mod 16 * 4 + z div 64)
         # c64 (z mod 64) # b64_body s)"

definition b64_pad :: "bytes \<Rightarrow> bytes" where
  "b64_pad s = s @ replicate ((4 - length s mod 4) mod 4) (CHR ''='')"

definition b64_ref :: "bytes \<Rightarrow> bytes" where
  "b64_ref s = b64_pad (b64_body s)"

section \<open>The loops compute the reference\<close>

lemma peek_b64: "k < 64 \<Longrightarrow> peek b64 k = Inr (c64 k)"
  by (simp add: c64_def b64_def)

lemma put64_app:
  "k < 64 \<Longrightarrow> put64 k (length p, p @ x # q) = Inr (length p + 1, p @ c64 k # q)"
  by (simp add: put64_def peek_b64 store_def list_update_append)

lemma or_push_bit:
  fixes x y :: nat
  assumes "y < 2 ^ n"
  shows "push_bit n x OR y = x * 2 ^ n + y"
proof -
  have y: "y = take_bit n y" using assms by (simp add: take_bit_nat_eq_self)
  have "push_bit n x AND y = 0"
    by (subst y, rule bit_eqI) (auto simp: bit_simps)
  then have "push_bit n x OR y = push_bit n x + y" by (simp add: disjunctive_add_eq_or)
  then show ?thesis by (simp add: push_bit_eq_mult)
qed

lemma and_low_mask: "(a::nat) AND 3 = a mod 4" "(a::nat) AND 15 = a mod 16" "(a::nat) AND 63 = a mod 64"
proof -
  have m: "(3::nat) = mask 2" "(15::nat) = mask 4" "(63::nat) = mask 6"
    by (simp_all add: mask_eq_exp_minus_1)
  show "a AND 3 = a mod 4" "a AND 15 = a mod 16" "a AND 63 = a mod 64"
    unfolding m by (simp_all add: take_bit_eq_mod flip: take_bit_eq_mask)
qed

lemma sextets:
  fixes a b c :: nat
  assumes "b < 256" "c < 256"
  shows "drop_bit 2 a = a div 4" "push_bit 4 (a AND 3) OR drop_bit 4 b = a mod 4 * 16 + b div 16"
    and "push_bit 2 (b AND 15) OR drop_bit 6 c = b mod 16 * 4 + c div 64" "c AND 63 = c mod 64"
proof -
  have "b div 16 < 2 ^ 4" "c div 64 < 2 ^ 2" using assms by auto
  from or_push_bit [OF this(1)] or_push_bit [OF this(2)]
  show "push_bit 4 (a AND 3) OR drop_bit 4 b = a mod 4 * 16 + b div 16"
    and "push_bit 2 (b AND 15) OR drop_bit 6 c = b mod 16 * 4 + c div 64"
    by (simp_all add: and_low_mask drop_bit_eq_div)
qed (simp_all add: and_low_mask drop_bit_eq_div)

lemma sextet_bounds:
  fixes a b c :: nat
  assumes "a < 256" "b < 256" "c < 256"
  shows "a div 4 < 64" "a mod 4 * 16 + b div 16 < 64" "b mod 16 * 4 + c div 64 < 64" "c mod 64 < 64"
proof -
  have "a mod 4 < 4" "b div 16 < 16" "b mod 16 < 16" "c div 64 < 4" using assms by auto
  then show "a mod 4 * 16 + b div 16 < 64" "b mod 16 * 4 + c div 64 < 64" by linarith+
qed (use assms in auto)

lemma drop_eq_Cons:
  assumes "drop i src = a # s"
  shows "i < length src" "src ! i = a" "drop (Suc i) src = s"
proof -
  show i: "i < length src" using assms by (metis drop_all leI list.distinct(1))
  then have "drop i src = src ! i # drop (Suc i) src" by (simp add: Cons_nth_drop_Suc)
  with assms show "src ! i = a" "drop (Suc i) src = s" by auto
qed

text \<open>One round writes the reference group of the bytes it reads.\<close>

lemma b64_round_1:
  assumes "length src = Suc i" "src ! i = a"
  shows "b64_round src i (length p, p @ f0 # f1 # r) = Inr (length p + 2, p @ b64_body [a] @ r)"
proof -
  let ?a = "of_char a :: nat"
  have k: "drop_bit 2 ?a = ?a div 4" "push_bit 4 (?a AND 3) OR drop_bit 4 0 = ?a mod 4 * 16"
    using sextets(1,2) [of 0 0 ?a] by simp_all
  have b: "?a div 4 < 64" "?a mod 4 * 16 < 64" using sextet_bounds [of ?a 0 0] by simp_all
  show ?thesis
    using assms put64_app [OF b(1), of p f0 "f1 # r"]
      put64_app [OF b(2), of "p @ [c64 (?a div 4)]" f1 r] k
    by (simp add: b64_round_def Let_def)
qed

lemma b64_round_2:
  assumes "length src = Suc (Suc i)" "src ! i = a" "src ! Suc i = b"
  shows "b64_round src i (length p, p @ f0 # f1 # f2 # r) = Inr (length p + 3, p @ b64_body [a, b] @ r)"
proof -
  let ?a = "of_char a :: nat" and ?b = "of_char b :: nat"
  have k: "drop_bit 2 ?a = ?a div 4"
      "push_bit 4 (?a AND 3) OR drop_bit 4 ?b = ?a mod 4 * 16 + ?b div 16"
      "push_bit 2 (?b AND 15) OR drop_bit 6 0 = ?b mod 16 * 4"
    using sextets(1,2) [of ?b 0 ?a] sextets(3) [of ?b 0] by simp_all
  have b: "?a div 4 < 64" "?a mod 4 * 16 + ?b div 16 < 64" "?b mod 16 * 4 < 64"
    using sextet_bounds [of ?a ?b 0] by simp_all
  show ?thesis
    using assms put64_app [OF b(1), of p f0 "f1 # f2 # r"]
      put64_app [OF b(2), of "p @ [c64 (?a div 4)]" f1 "f2 # r"]
      put64_app [OF b(3), of "p @ [c64 (?a div 4), c64 (?a mod 4 * 16 + ?b div 16)]" f2 r] k
    by (simp add: b64_round_def Let_def)
qed

lemma b64_round_3:
  assumes "Suc (Suc i) < length src" "src ! i = a" "src ! Suc i = b" "src ! Suc (Suc i) = c"
  shows "b64_round src i (length p, p @ f0 # f1 # f2 # f3 # r)
    = Inr (length p + 4, p @ b64_body [a, b, c] @ r)"
proof -
  let ?a = "of_char a :: nat" and ?b = "of_char b :: nat" and ?c = "of_char c :: nat"
  let ?x = "c64 (?a div 4)" and ?y = "c64 (?a mod 4 * 16 + ?b div 16)"
    and ?z = "c64 (?b mod 16 * 4 + ?c div 64)"
  have k: "drop_bit 2 ?a = ?a div 4"
      "push_bit 4 (?a AND 3) OR drop_bit 4 ?b = ?a mod 4 * 16 + ?b div 16"
      "push_bit 2 (?b AND 15) OR drop_bit 6 ?c = ?b mod 16 * 4 + ?c div 64" "?c AND 63 = ?c mod 64"
    using sextets(1,2) [of ?b ?c ?a] sextets(3,4) [of ?b ?c] by simp_all
  have b: "?a div 4 < 64" "?a mod 4 * 16 + ?b div 16 < 64" "?b mod 16 * 4 + ?c div 64 < 64"
      "?c mod 64 < 64"
    using sextet_bounds [of ?a ?b ?c] by simp_all
  have i: "i + 2 < length src" "i + 1 < length src" "src ! (i + 1) = b" "src ! (i + 2) = c"
    using assms by (simp_all add: numeral_2_eq_2)
  show ?thesis
    using i assms(2) put64_app [OF b(1), of p f0 "f1 # f2 # f3 # r"]
      put64_app [OF b(2), of "p @ [?x]" f1 "f2 # f3 # r"]
      put64_app [OF b(3), of "p @ [?x, ?y]" f2 "f3 # r"]
      put64_app [OF b(4), of "p @ [?x, ?y, ?z]" f3 r] k
    by (simp add: b64_round_def Let_def)
qed

lemma b64_loop_body:
  assumes "drop i src = xs" "length fill = length (b64_body xs)"
  shows "b64_loop src i (length p) (p @ fill @ q)
    = Inr (length p + length (b64_body xs), p @ b64_body xs @ q)"
  using assms
proof (induction xs arbitrary: i p fill rule: b64_body.induct)
  case 1
  then show ?case by (simp add: b64_loop.simps [of src i])
next
  case (2 a)
  note d0 = drop_eq_Cons [OF 2(1)]
  obtain f0 f1 where f: "fill = [f0, f1]"
    using 2(2) by (auto simp: Let_def length_Suc_conv)
  have l: "length src = Suc i" using d0 by (metis Suc_leI drop_eq_Nil le_antisym)
  show ?case
    using b64_round_1 [OF l d0(2), of p f0 f1 q] l
    by (simp add: b64_loop.simps [of src i] b64_loop.simps [of src "i + 3"] f Let_def)
next
  case (3 a b)
  note d0 = drop_eq_Cons [OF 3(1)]
  note d1 = drop_eq_Cons [OF d0(3)]
  obtain f0 f1 f2 where f: "fill = [f0, f1, f2]"
    using 3(2) by (auto simp: Let_def length_Suc_conv)
  have l: "length src = Suc (Suc i)" using d1 by (metis Suc_leI drop_eq_Nil le_antisym)
  show ?case
    using b64_round_2 [OF l d0(2) d1(2), of p f0 f1 f2 q] l
    by (simp add: b64_loop.simps [of src i] b64_loop.simps [of src "i + 3"] f Let_def)
next
  case (4 a b c s)
  note d0 = drop_eq_Cons [OF 4(2)]
  note d1 = drop_eq_Cons [OF d0(3)]
  note d2 = drop_eq_Cons [OF d1(3)]
  obtain f0 f1 f2 f3 fs where f: "fill = f0 # f1 # f2 # f3 # fs" "length fs = length (b64_body s)"
    using 4(3) by (auto simp: Let_def length_Suc_conv)
  have s: "drop (i + 3) src = s" using d2(3) by (simp add: eval_nat_numeral)
  let ?p = "p @ b64_body [a, b, c]"
  have "b64_loop src i (length p) (p @ fill @ q) = b64_loop src (i + 3) (length p + 4) (?p @ fs @ q)"
    using b64_round_3 [OF d2(1) d0(2) d1(2) d2(2), of p f0 f1 f2 f3 "fs @ q"] d0(1)
    by (simp add: b64_loop.simps [of src i] f)
  also have "length p + 4 = length ?p" by (simp add: Let_def)
  also have "b64_loop src (i + 3) (length ?p) (?p @ fs @ q)
      = Inr (length ?p + length (b64_body s), ?p @ b64_body s @ q)"
    using 4(1) [OF refl refl refl s f(2), of ?p] by simp
  finally show ?case by (simp add: Let_def)
qed

lemma length_b64_body: "length (b64_body s) = (4 * length s + 2) div 3"
  by (induction s rule: b64_body.induct) (auto simp: Let_def)

lemma pad_loop_replicate:
  "k = (4 - length p mod 4) mod 4 \<Longrightarrow> length fill = k
   \<Longrightarrow> pad_loop (length p) (p @ fill @ q)
       = Inr (length p + k, p @ replicate k (CHR ''='') @ q)"
proof (induction k arbitrary: p fill)
  case 0
  have "length p mod 4 = 0"
  proof (rule ccontr)
    assume "length p mod 4 \<noteq> 0"
    then have "(4 - length p mod 4) mod 4 = 4 - length p mod 4" by simp
    moreover have "length p mod 4 < 4" by simp
    ultimately show False using 0(1) by linarith
  qed
  with 0 show ?case by (simp add: pad_loop.simps [of "length p"])
next
  case (Suc k)
  obtain f fs where f: "fill = f # fs" "length fs = k" using Suc.prems by (cases fill) auto
  have lt: "length p mod 4 < 4" by simp
  have nz: "length p mod 4 \<noteq> 0"
  proof
    assume "length p mod 4 = 0"
    with Suc.prems(1) show False by simp
  qed
  with lt Suc.prems have "k = (4 - length (p @ [CHR ''='']) mod 4) mod 4"
    by (auto simp: mod_Suc)
  from Suc.IH [OF this f(2)] nz show ?case
    by (simp add: pad_loop.simps [of "length p"] f store_def list_update_append)
qed

lemma length_b64_ref: "length (b64_ref s) = (length s + 2) div 3 * 4"
proof -
  have "length s mod 3 < 3" by simp
  then have "length s = 3 * (length s div 3) \<or> length s = 3 * (length s div 3) + 1
      \<or> length s = 3 * (length s div 3) + 2"
    using mult_div_mod_eq [of 3 "length s"] by linarith
  then obtain m where "length s = 3 * m \<or> length s = 3 * m + 1 \<or> length s = 3 * m + 2"
    by blast
  moreover have "(12 * m + 2) div 3 = 4 * m" "(12 * m + 6) div 3 = 4 * m + 2"
      "(12 * m + 10) div 3 = 4 * m + 3" "(3 * m + 2) div 3 = m" "(3 * m + 3) div 3 = m + 1"
      "(3 * m + 4) div 3 = m + 1" by linarith+
  moreover have "(4 * m + 2) mod 4 = 2" "(4 * m + 3) mod 4 = 3" by presburger+
  ultimately show ?thesis
    by (elim disjE) (simp_all add: b64_ref_def b64_pad_def length_b64_body add.commute)
qed

lemma base64_encode_ok:
  assumes "length (b64_ref src) + 1 \<le> length dst"
    and "\<forall>n. dst_len = Some n \<longrightarrow> length (b64_ref src) + 1 \<le> n"
  shows "base64_encode src dst dst_len
    = Inr (-1, b64_ref src @ NUL # drop (length (b64_ref src) + 1) dst,
           map_option (\<lambda>_. length (b64_ref src) + 1) dst_len)"
proof -
  let ?b = "b64_body src" and ?k = "(4 - length (b64_body src) mod 4) mod 4"
  have ref: "b64_ref src = ?b @ replicate ?k (CHR ''='')" by (simp add: b64_ref_def b64_pad_def)
  obtain f1 f2 f3 q where dst: "dst = f1 @ f2 @ f3 # q"
    and len: "length f1 = length ?b" "length f2 = ?k"
  proof
    let ?r = "drop (length (b64_ref src)) dst"
    have "?r = hd ?r # tl ?r" using assms(1) by (cases ?r) auto
    then show "dst = take (length ?b) dst @ take ?k (drop (length ?b) dst) @ hd ?r # tl ?r"
      by (metis append.assoc append_take_drop_id drop_drop length_append length_replicate ref add.commute)
  qed (use assms(1) ref in auto)
  have loop: "b64_loop src 0 0 dst = Inr (length ?b, ?b @ f2 @ f3 # q)"
    using b64_loop_body [of 0 src src f1 "[]" "f2 @ f3 # q"] len dst by simp
  have pad: "pad_loop (length ?b) (?b @ f2 @ f3 # q)
      = Inr (length ?b + ?k, ?b @ replicate ?k (CHR ''='') @ f3 # q)"
    using pad_loop_replicate [OF refl len(2)] by simp
  have "store (?b @ replicate ?k (CHR ''='') @ f3 # q) (length ?b + ?k) NUL = Inr (b64_ref src @ NUL # q)"
    by (simp add: store_def ref list_update_append)
  moreover have "drop (length (b64_ref src) + 1) dst = q" using dst len ref by simp
  moreover have "(case dst_len of None \<Rightarrow> False | Some n \<Rightarrow> n < (length src + 2) div 3 * 4 + 1) = False"
    using assms(2) length_b64_ref [of src] by (auto split: option.splits)
  moreover have "length (b64_ref src) = length ?b + ?k" by (simp add: ref)
  ultimately show ?thesis
    by (simp only: base64_encode_def Let_def if_False loop pad rbind_simps prod.case)
qed

section \<open>Reference decoding\<close>

definition d64 :: "char \<Rightarrow> nat" where
  "d64 c = length (takeWhile (\<lambda>x. x \<noteq> c) b64)"

fun b64_decode :: "bytes \<Rightarrow> bytes" where
  "b64_decode (w # x # y # z # s) =
     (let b1 = char_of (d64 w * 4 + d64 x div 16);
          b2 = char_of (d64 x mod 16 * 16 + d64 y div 4);
          b3 = char_of (d64 y mod 4 * 64 + d64 z)
      in if z = CHR ''='' then (if y = CHR ''='' then [b1] else [b1, b2])
         else b1 # b2 # b3 # b64_decode s)"
| "b64_decode _ = []"

lemma takeWhile_nth_distinct:
  "distinct xs \<Longrightarrow> k < length xs \<Longrightarrow> length (takeWhile (\<lambda>x. x \<noteq> xs ! k) xs) = k"
proof (induction xs arbitrary: k)
  case (Cons y ys)
  then show ?case by (cases k) auto
qed simp

lemma d64_c64 [simp]: "k < 64 \<Longrightarrow> d64 (c64 k) = k"
  unfolding d64_def c64_def by (rule takeWhile_nth_distinct) (simp_all add: b64_def)

lemma c64_neq_pad: "k < 64 \<Longrightarrow> c64 k \<noteq> CHR ''=''"
proof
  assume "k < 64" "c64 k = CHR ''=''"
  moreover have "CHR ''='' \<notin> set b64" by (simp add: b64_def)
  moreover have "length b64 = 64" by (simp add: b64_def)
  ultimately show False by (metis c64_def nth_mem)
qed

lemma regroup:
  fixes a b c :: nat
  assumes "a < 256" "b < 256" "c < 256"
  shows "a div 4 * 4 + (a mod 4 * 16 + b div 16) div 16 = a"
    and "(a mod 4 * 16 + b div 16) mod 16 * 16 + (b mod 16 * 4 + c div 64) div 4 = b"
    and "(b mod 16 * 4 + c div 64) mod 4 * 64 + c mod 64 = c"
proof -
  have "b div 16 < 16" "c div 64 < 4" using assms by auto
  then have "(a mod 4 * 16 + b div 16) div 16 = a mod 4" "(a mod 4 * 16 + b div 16) mod 16 = b div 16"
    "(b mod 16 * 4 + c div 64) div 4 = b mod 16" "(b mod 16 * 4 + c div 64) mod 4 = c div 64"
    by simp_all
  then show "a div 4 * 4 + (a mod 4 * 16 + b div 16) div 16 = a"
    "(a mod 4 * 16 + b div 16) mod 16 * 16 + (b mod 16 * 4 + c div 64) div 4 = b"
    "(b mod 16 * 4 + c div 64) mod 4 * 64 + c mod 64 = c"
    by simp_all
qed

lemma b64_ref_group:
  "b64_ref (a # b # c # s) = b64_body [a, b, c] @ b64_ref s"
  by (simp add: b64_ref_def b64_pad_def Let_def)

lemma b64_decode_ref: "b64_decode (b64_ref s) = s"
proof (induction s rule: b64_body.induct)
  case 1
  show ?case by (simp add: b64_ref_def b64_pad_def)
next
  case (2 a)
  let ?a = "of_char a :: nat"
  show ?case
    using regroup(1) [of ?a 0 0] sextet_bounds [of ?a 0 0]
    by (simp add: b64_ref_def b64_pad_def Let_def numeral_2_eq_2)
next
  case (3 a b)
  let ?a = "of_char a :: nat" and ?b = "of_char b :: nat"
  show ?case
    using regroup(1,2) [of ?a ?b 0] sextet_bounds [of ?a ?b 0] c64_neq_pad [of "?b mod 16 * 4"]
    by (simp add: b64_ref_def b64_pad_def Let_def)
next
  case (4 a b c s)
  let ?a = "of_char a :: nat" and ?b = "of_char b :: nat" and ?c = "of_char c :: nat"
  have "?b div 16 < 16" "?c div 64 < 4"
    using of_char_less_256 [of b] of_char_less_256 [of c] by linarith+
  then show ?case
    using regroup [of ?a ?b ?c] sextet_bounds [of ?a ?b ?c] c64_neq_pad [of "?c mod 64"] 4
    by (simp add: b64_ref_group Let_def)
qed

section \<open>Properties\<close>

text \<open>
  C17. Given an array that holds the announced length, \<open>base64_encode\<close> stays inside it, returns
  -1, stores exactly \<open>4 * ceil (n / 3)\<close> characters and a terminating NUL, reports that length,
  and decoding the characters gives the input back.
\<close>

theorem base64_encode_roundtrip:
  assumes "(length src + 2) div 3 * 4 + 1 \<le> n" "n \<le> length dst"
  shows "\<exists>out rest. base64_encode src dst (Some n) = Inr (-1, out @ NUL # rest, Some (length out + 1))
    \<and> length out = (length src + 2) div 3 * 4 \<and> b64_decode out = src \<and> length (out @ NUL # rest) = length dst"
  using base64_encode_ok [of src dst "Some n"] assms length_b64_ref [of src] b64_decode_ref [of src]
  by (intro exI [of _ "b64_ref src"] exI [of _ "drop (length (b64_ref src) + 1) dst"]) simp

theorem base64_encode_roundtrip_witness:
  "\<exists>out rest. base64_encode ''hello'' (replicate 12 NUL) (Some 10) = Inr (-1, out @ NUL # rest, Some (length out + 1))
    \<and> length out = (length ''hello'' + 2) div 3 * 4 \<and> b64_decode out = ''hello''
    \<and> length (out @ NUL # rest) = length (replicate 12 NUL)"
  by (rule base64_encode_roundtrip) simp_all

text \<open>
  Too small an announced length: nothing is encoded, the result is 0, the needed length is
  reported and the array is at most made an empty string.
\<close>

theorem base64_encode_too_small:
  assumes "n < (length src + 2) div 3 * 4 + 1" "n \<le> length dst"
  shows "base64_encode src dst (Some n)
    = Inr (0, if n = 0 then dst else dst[0 := NUL], Some ((length src + 2) div 3 * 4 + 1))"
  using assms by (cases dst) (simp_all add: base64_encode_def Let_def store_def)

theorem base64_encode_too_small_witness:
  "base64_encode ''hello'' (replicate 4 (CHR ''x'')) (Some 4)
    = Inr (0, if (4::nat) = 0 then replicate 4 (CHR ''x'') else (replicate 4 (CHR ''x''))[0 := NUL],
        Some ((length ''hello'' + 2) div 3 * 4 + 1))"
  by (rule base64_encode_too_small) simp_all

end
