(* ===== verification/Hpl_Websocket.thy ===== *)
theory Hpl_Websocket
  imports Hpl_Connection Hpl_Base64
begin

text \<open>
  The WebSocket half of a connection: frame headers (\<^verbatim>\<open>src/src/hpl_websocket_utils.cc\<close>), and reading,
  writing, pinging and the accept key of \<^verbatim>\<open>src/src/hpl_websocket_connection.cc\<close>. OpenSSL's SHA-1 and
  the application's callbacks are arguments. Reads of the receive buffer are bounds-checked:
  outside the bytes received the outcome is the fault \<open>Oob\<close>.
\<close>

section \<open>Frame types\<close>

text \<open>An opcode is any four-bit value; the enumeration names six of them.\<close>

type_synonym ws_type = "8 word"

definition kTypeContinuation :: ws_type where "kTypeContinuation = 0x0"
definition kTypeText :: ws_type where "kTypeText = 0x1"
definition kTypeBinary :: ws_type where "kTypeBinary = 0x2"
definition kTypeClose :: ws_type where "kTypeClose = 0x8"
definition kTypePing :: ws_type where "kTypePing = 0x9"
definition kTypePong :: ws_type where "kTypePong = 0xa"

lemmas ws_types = kTypeContinuation_def kTypeText_def kTypeBinary_def kTypeClose_def kTypePing_def kTypePong_def

text \<open>
  A \<^verbatim>\<open>WsHandler\<close> of the application, as far as its own connection goes: it gets the connection and may
  change it and the world. (The server runs callbacks on its whole state, see \<open>Hpl_Server\<close>.)
\<close>

type_synonym ('h, 'w) ws_callback =
  "'h \<Rightarrow> ws_type \<Rightarrow> bytes \<Rightarrow> 'h Connection \<Rightarrow> 'w \<Rightarrow> int \<times> 'h Connection \<times> 'w"

section \<open>Frame headers\<close>

text \<open>The array of 16 characters, zero-initialised by the pair, and the header's size in it.\<close>

definition MakeWebsocketHeader :: "size_t \<Rightarrow> ws_type \<Rightarrow> bytes \<times> nat" where
  "MakeWebsocketHeader message_length ty =
     (let header = (replicate 16 NUL)[0 := w2b (0x80 OR ty)];
          byte = (\<lambda>k. w2b (ucast (drop_bit k message_length AND 0xff)))
      in if message_length < 126 then (header[1 := w2b (ucast message_length)], 2)
         else if message_length < 0xffff
         then (header[1 := w2b 126, 2 := byte 8, 3 := byte 0], 4)
         else (header[1 := w2b 127, 2 := byte 56, 3 := byte 48, 4 := byte 40], 6))"

definition ws_header :: "size_t \<Rightarrow> ws_type \<Rightarrow> bytes" where
  "ws_header n ty = (case MakeWebsocketHeader n ty of (h, k) \<Rightarrow> take k h)"

section \<open>Decoding a frame\<close>

text \<open>\<^verbatim>\<open>ntohl(*(uint64_t *)p)\<close>: eight bytes are loaded, the first four make the value.\<close>

definition ntohl_load64 :: "bytes \<Rightarrow> nat \<Rightarrow> 64 word res" where
  "ntohl_load64 buf i =
     (if i + 8 \<le> length buf then Inr (be4 (buf ! i) (buf ! (i + 1)) (buf ! (i + 2)) (buf ! (i + 3)))
      else Inl Oob)"

text \<open>The payload length and where the header goes on.\<close>

definition payload_length :: "bytes \<Rightarrow> (64 word \<times> nat) res" where
  "payload_length buf =
     rbind (vat buf 1) (\<lambda>b1.
       let payload_prefix = b2w b1 AND 0x7f
       in if payload_prefix = 126
          then rbind (vat buf 2) (\<lambda>a. rbind (vat buf 3) (\<lambda>b. Inr (be2 a b, 4)))
          else if payload_prefix = 127
          then rbind (ntohl_load64 buf 2) (\<lambda>l. rbind (ntohl_load64 buf 6) (\<lambda>h.
                 Inr (push_bit 32 h OR l, 10)))
          else Inr (ucast payload_prefix, 2))"

function unmask_loop :: "bytes \<Rightarrow> nat \<Rightarrow> bytes \<Rightarrow> nat \<Rightarrow> nat \<Rightarrow> bytes res" where
  "unmask_loop msk offset buf payload_len i =
     (if i < payload_len
      then if offset + i < length buf
           then unmask_loop msk offset
                  (buf[offset + i := w2b (b2w (buf ! (offset + i)) XOR b2w (msk ! (i mod 4)))]) payload_len (i + 1)
           else Inl Oob
      else Inr buf)"
  by pat_completeness auto
termination
  by (relation "measure (\<lambda>(m, off, buf, n, i). n - i)") auto

declare unmask_loop.simps [simp del]

text \<open>Opcode, fin bit and unmasked payload of the frame at the start of the buffer.\<close>

definition decode_frame :: "bytes \<Rightarrow> (ws_type \<times> bool \<times> bytes) res" where
  "decode_frame buf =
     rbind (vat buf 0) (\<lambda>b0.
     rbind (vat buf 1) (\<lambda>b1.
     rbind (payload_length buf) (\<lambda>(payload_len, offset).
     let masked = bit (b2w b1) 7;
         offset' = (if masked then offset + 4 else offset)
     in rbind (if masked
               then if offset + 4 \<le> length buf
                    then unmask_loop (take 4 (drop offset buf)) offset' buf (unat payload_len) 0
                    else Inl Oob
               else Inr buf) (\<lambda>buf'.
        if offset' + unat payload_len \<le> length buf'
        then Inr (b2w b0 AND 0x0f, bit (b2w b0) 7, take (unat payload_len) (drop offset' buf'))
        else Inl Oob))))"

section \<open>The class\<close>

definition set_ws :: "('h WebsocketConnection \<Rightarrow> 'h WebsocketConnection) \<Rightarrow> 'h Connection \<Rightarrow> 'h Connection" where
  "set_ws f c = c\<lparr>ws_conn := map_option f (ws_conn c)\<rparr>"

definition WebsocketConnection_Write ::
    "'w os \<Rightarrow> ws_type \<Rightarrow> bytes \<Rightarrow> 'h Connection \<Rightarrow> 'w \<Rightarrow> int \<times> 'h Connection \<times> 'w" where
  "WebsocketConnection_Write os ty data c w =
     (let (header, header_len) = MakeWebsocketHeader (of_nat (length data)) ty;
          (_, w1) = Connection_Write os (take header_len header) c w;
          (_, w2) = Connection_Write os data c w1;
          (now, w3) = sys_now os w2
      in (0, set_ws (last_io_time_update (\<lambda>_. now)) c, w3))"

text \<open>
  \<open>Read\<close> up to the point where it either returns a value or calls \<^verbatim>\<open>on_data_\<close>; after the call the
  collected payload is cleared and the callback's result returned.
\<close>

datatype 'h ws_action = Ret int | Call 'h ws_type bytes

definition ws_receive ::
    "'w os \<Rightarrow> 'h Connection \<Rightarrow> 'w \<Rightarrow> ('h ws_action \<times> 'h Connection \<times> 'w) res" where
  "ws_receive os c w =
     (case ws_conn c of
        None \<Rightarrow> Inl NullDeref
      | Some ws \<Rightarrow>
          rbind (Connection_Read os c w) (\<lambda>(ret, c1, w1).
          if ret < 0 then Inr (Ret ret, c1, w1)
          else let buf = c_buffer c1;
                   (now, w2) = sys_now os w1;
                   c2 = set_ws (last_io_time_update (\<lambda>_. now)) (c1\<lparr>c_buffer := []\<rparr>)
               in rbind (decode_frame buf) (\<lambda>(opcode, fin, payload).
                  let data = last_payload ws @ payload;
                      c3 = set_ws (last_payload_update (\<lambda>_. data)) c2;
                      clear = set_ws (last_payload_update (\<lambda>_. []))
                  in if opcode = kTypeClose then Inr (Ret (-1), c3, w2)
                     else if opcode = kTypePing
                     then let (_, c4, w3) = WebsocketConnection_Write os kTypePong payload c3 w2
                          in Inr (Ret 0, clear c4, w3)
                     else if opcode = kTypePong then Inr (Ret 0, clear c3, w2)
                     else if fin
                     then case on_data ws of
                            None \<Rightarrow> Inr (Ret 0, clear c3, w2)
                          | Some h \<Rightarrow> Inr (Call h opcode data, c3, w2)
                     else Inr (Ret 1, c3, w2))))"

definition WebsocketConnection_Read ::
    "'w os \<Rightarrow> ('h, 'w) ws_callback \<Rightarrow> 'h Connection \<Rightarrow> 'w \<Rightarrow> (int \<times> 'h Connection \<times> 'w) res" where
  "WebsocketConnection_Read os app c w =
     rbind (ws_receive os c w) (\<lambda>(act, c1, w1).
       case act of
         Ret r \<Rightarrow> Inr (r, c1, w1)
       | Call h op data \<Rightarrow>
           let (r, c2, w2) = app h op data c1 w1
           in Inr (r, set_ws (last_payload_update (\<lambda>_. [])) c2, w2))"

text \<open>The clock counts nanoseconds.\<close>

definition HPL_ENABLE_PING_PONG :: int where "HPL_ENABLE_PING_PONG = 10"

definition ServerPing :: "'w os \<Rightarrow> 'h Connection \<Rightarrow> 'w \<Rightarrow> (bool \<times> 'h Connection \<times> 'w) res" where
  "ServerPing os c w =
     (case ws_conn c of
        None \<Rightarrow> Inl NullDeref
      | Some ws \<Rightarrow>
          let (now, w1) = sys_now os w
          in if now - last_io_time ws > HPL_ENABLE_PING_PONG * 1000000000
             then let (_, c1, w2) = WebsocketConnection_Write os kTypePing [] c w1
                  in Inr (True, set_ws (last_io_time_update (\<lambda>_. now)) c1, w2)
             else Inr (False, c, w1))"

section \<open>The accept key\<close>

definition SHA_DIGEST_LENGTH :: nat where "SHA_DIGEST_LENGTH = 20"
definition ws_guid :: bytes where "ws_guid = ''258EAFA5-E914-47DA-95CA-C5AB0DC85B11''"

text \<open>
  \<open>SHA1\<close> fills the array it is given with the digest of the message; \<open>hash\<close> is the uninitialised local
  array the encoding goes to.
\<close>

definition GetWsAcceptByKey :: "(bytes \<Rightarrow> bytes) \<Rightarrow> bytes \<Rightarrow> bytes \<Rightarrow> bytes res" where
  "GetWsAcceptByKey SHA1 hash ws_sec_key =
     (let sha1 = SHA1 (ws_sec_key @ ws_guid)
      in rbind (base64_encode sha1 hash (Some (SHA_DIGEST_LENGTH * 2))) (\<lambda>(_, hash', hash_len).
         Inr (take (the hash_len - 1) hash')))"

definition GetWsAccept :: "(bytes \<Rightarrow> bytes) \<Rightarrow> bytes \<Rightarrow> 'h Connection \<Rightarrow> (bytes \<times> 'h Connection) res" where
  "GetWsAccept SHA1 hash c =
     (case ws_conn c of
        None \<Rightarrow> Inl NullDeref
      | Some ws \<Rightarrow>
          if ws_accept ws = []
          then rbind (GetWsAcceptByKey SHA1 hash (ws_key ws)) (\<lambda>a.
                 Inr (a, set_ws (ws_accept_update (\<lambda>_. a)) c))
          else Inr (ws_accept ws, c))"

section \<open>Bits of the header bytes\<close>

lemma low_bits_bit:
  assumes "(x :: 'a::len word) < 2 ^ n" "n < LENGTH('a)" "bit x k"
  shows "k < n"
proof -
  have "unat (of_nat (2 ^ n) :: 'a word) = 2 ^ n"
    using assms(2) by (simp only: unat_of_nat) (simp add: take_bit_nat_eq_self)
  then have "unat x < 2 ^ n" using assms(1) by (simp add: word_less_nat_alt)
  then have "take_bit n (unat x) = unat x" by (simp add: take_bit_nat_eq_self)
  then have "unat (take_bit n x) = unat x" by (simp add: unsigned_take_bit_eq)
  then have "take_bit n x = x" by (simp add: word_unat_eq_iff)
  with assms(3) show "k < n" by (metis bit_take_bit_iff)
qed

lemma unat_of_nat_eq: "n < 2 ^ LENGTH('a) \<Longrightarrow> unat (of_nat n :: 'a::len word) = n"
  by (simp add: unat_of_nat take_bit_nat_eq_self)

lemma bit_0x80: "bit (0x80 :: 8 word) k \<longleftrightarrow> k = 7"
proof -
  have "(0x80 :: 8 word) = 2 ^ 7" by simp
  then show ?thesis by (simp only: bit_exp_iff) auto
qed

lemma w2b_0: "w2b 0 = NUL"
proof -
  have "b2w NUL = 0" by (simp add: b2w_def)
  then show ?thesis by (metis w2b_b2w)
qed

lemma prefix_bits:
  assumes "(x :: 8 word) < 128"
  shows "x AND 0x7f = x" "(0x80 OR x) AND 0x7f = x" "bit (0x80 OR x) 7" "\<not> bit x 7"
proof -
  have m: "(0x7f :: 8 word) = mask 7" by (simp add: mask_eq_exp_minus_1)
  have lt: "bit x k \<Longrightarrow> k < 7" for k using assms by (intro low_bits_bit [of x 7 k]) simp_all
  show "x AND 0x7f = x" unfolding m by (rule bit_word_eqI) (auto simp: bit_simps lt)
  show "(0x80 OR x) AND 0x7f = x" unfolding m
    by (rule bit_word_eqI) (simp only: bit_and_iff bit_or_iff bit_mask_iff bit_0x80, use lt in force)
  show "bit (0x80 OR x) 7" by (simp add: bit_simps bit_0x80)
  show "\<not> bit x 7" using lt by blast
qed

lemma opcode_bits:
  assumes "(x :: 8 word) < 16"
  shows "x AND 0x0f = x" "(0x80 OR x) AND 0x0f = x" "bit (0x80 OR x) 7" "\<not> bit x 7"
proof -
  have m: "(0x0f :: 8 word) = mask 4" by (simp add: mask_eq_exp_minus_1)
  have lt: "bit x k \<Longrightarrow> k < 4" for k using assms by (intro low_bits_bit [of x 4 k]) simp_all
  show "x AND 0x0f = x" unfolding m by (rule bit_word_eqI) (auto simp: bit_simps lt)
  show "(0x80 OR x) AND 0x0f = x" unfolding m
    by (rule bit_word_eqI) (simp only: bit_and_iff bit_or_iff bit_mask_iff bit_0x80, use lt in force)
  show "bit (0x80 OR x) 7" by (simp add: bit_simps bit_0x80)
  show "\<not> bit x 7" using lt by force
qed

definition byte_at :: "nat \<Rightarrow> size_t \<Rightarrow> char" where
  "byte_at k n = w2b (ucast (drop_bit k n AND 0xff))"

lemma byte_mask: "(0xff :: size_t) = mask 8"
  by (simp add: mask_eq_exp_minus_1)

lemma bit_byte_at: "bit (b2w (byte_at j n)) i \<longleftrightarrow> i < 8 \<and> bit n (j + i)"
  unfolding byte_at_def byte_mask b2w_w2b by (auto simp: bit_simps dest: bit_imp_le_length)

lemma bit_be2: "bit (be2 a b) k \<longleftrightarrow> (if k < 8 then bit (b2w b) k else bit (b2w a) (k - 8))"
  by (auto simp: be2_def bit_simps dest: bit_imp_le_length)

lemma bit_be4:
  "bit (be4 a b c d) k \<longleftrightarrow>
     (if k < 8 then bit (b2w d) k else if k < 16 then bit (b2w c) (k - 8)
      else if k < 24 then bit (b2w b) (k - 16) else bit (b2w a) (k - 24))"
  by (auto simp: be4_def bit_simps dest: bit_imp_le_length)

lemma be2_bytes:
  assumes "n < 65536"
  shows "be2 (byte_at 8 n) (byte_at 0 n) = n"
proof -
  have lt: "bit n k \<Longrightarrow> k < 16" for k using assms by (intro low_bits_bit [of n 16 k]) simp_all
  show ?thesis by (rule bit_word_eqI) (auto simp: bit_be2 bit_byte_at less_diff_conv2 dest: lt)
qed

lemma be4_bytes:
  assumes "n < 2 ^ 32"
  shows "be4 (byte_at 24 n) (byte_at 16 n) (byte_at 8 n) (byte_at 0 n) = n"
proof -
  have lt: "bit n k \<Longrightarrow> k < 32" for k using assms by (intro low_bits_bit [of n 32 k]) simp_all
  show ?thesis by (rule bit_word_eqI) (auto simp: bit_be4 bit_byte_at less_diff_conv2 dest: lt)
qed

lemma byte_at_high:
  assumes "n < 2 ^ k" "k \<le> j" "k < 64"
  shows "byte_at j n = NUL"
proof -
  have lt: "bit n i \<Longrightarrow> i < k" for i using assms by (intro low_bits_bit [of n k i]) simp_all
  have "drop_bit j n AND 0xff = 0"
    using assms(2) unfolding byte_mask by (intro bit_word_eqI) (auto simp: bit_simps dest: lt)
  then show ?thesis by (simp add: byte_at_def w2b_0)
qed

section \<open>Masks\<close>

fun mask_from :: "bytes \<Rightarrow> nat \<Rightarrow> bytes \<Rightarrow> bytes" where
  "mask_from msk i [] = []"
| "mask_from msk i (x # xs) = w2b (b2w x XOR b2w (msk ! (i mod 4))) # mask_from msk (i + 1) xs"

lemma length_mask_from [simp]: "length (mask_from msk i xs) = length xs"
  by (induction xs arbitrary: i) simp_all

lemma mask_from_involution [simp]: "mask_from msk i (mask_from msk i xs) = xs"
  by (induction xs arbitrary: i) (simp_all add: xor.assoc)

lemma unmask_loop_from:
  "length p = off \<Longrightarrow> unmask_loop msk off (p @ ys @ xs @ q) (length ys + length xs) (length ys)
     = Inr (p @ ys @ mask_from msk (length ys) xs @ q)"
proof (induction xs arbitrary: ys)
  case Nil
  then show ?case by (simp add: unmask_loop.simps [of msk off])
next
  case (Cons x xs)
  let ?x = "w2b (b2w x XOR b2w (msk ! (length ys mod 4)))"
  have "(p @ ys @ (x # xs) @ q) ! (off + length ys) = x"
    using Cons.prems by (simp add: nth_append)
  moreover have "(p @ ys @ (x # xs) @ q)[off + length ys := ?x] = p @ (ys @ [?x]) @ xs @ q"
    using Cons.prems by (simp add: list_update_append)
  ultimately have "unmask_loop msk off (p @ ys @ (x # xs) @ q) (length ys + length (x # xs)) (length ys)
    = unmask_loop msk off (p @ (ys @ [?x]) @ xs @ q) (length (ys @ [?x]) + length xs) (length (ys @ [?x]))"
    using Cons.prems by (subst unmask_loop.simps) simp
  also have "\<dots> = Inr (p @ (ys @ [?x]) @ mask_from msk (length (ys @ [?x])) xs @ q)"
    by (rule Cons.IH [OF Cons.prems])
  finally show ?case by simp
qed

lemma unmask_loop_short:
  "length buf < off + n \<Longrightarrow> off \<le> length buf \<Longrightarrow> i \<le> n \<Longrightarrow> off + i \<le> length buf \<Longrightarrow> unmask_loop msk off buf n i = Inl Oob"
proof (induction msk off buf n i rule: unmask_loop.induct)
  case (1 msk off buf n i)
  show ?case
  proof (cases "off + i < length buf")
    case True
    with 1 have "i < n" by simp
    with True 1 show ?thesis by (simp add: unmask_loop.simps [of msk off buf n i])
  next
    case False
    with 1 show ?thesis by (simp add: unmask_loop.simps [of msk off buf n i])
  qed
qed

section \<open>Frames as the protocol defines them\<close>

text \<open>A length announced in the header: seven bits, or 16 or 64 bits behind the escapes 126 and 127.\<close>

definition len_prefix :: "nat \<Rightarrow> 8 word" where
  "len_prefix n = (if n < 126 then of_nat n else if n < 65536 then 126 else 127)"

definition len_ext :: "nat \<Rightarrow> bytes" where
  "len_ext n = (if n < 126 then []
     else map (\<lambda>k. byte_at k (of_nat n)) (if n < 65536 then [8, 0] else [56, 48, 40, 32, 24, 16, 8, 0]))"

definition first_byte :: "ws_type \<Rightarrow> bool \<Rightarrow> char" where
  "first_byte op fin = w2b (if fin then 0x80 OR op else op)"

definition client_frame :: "ws_type \<Rightarrow> bool \<Rightarrow> bytes \<Rightarrow> bytes \<Rightarrow> bytes" where
  "client_frame op fin msk data =
     first_byte op fin # w2b (0x80 OR len_prefix (length data)) # len_ext (length data) @ msk @ mask_from msk 0 data"

definition server_frame :: "ws_type \<Rightarrow> bool \<Rightarrow> bytes \<Rightarrow> bytes" where
  "server_frame op fin data =
     first_byte op fin # w2b (len_prefix (length data)) # len_ext (length data) @ data"

lemma len_prefix_less: "len_prefix n < 128"
proof (cases "n < 126")
  case True
  then have "unat (of_nat n :: 8 word) = n" by (simp add: unat_of_nat_eq)
  with True show ?thesis by (simp add: len_prefix_def word_less_nat_alt)
qed (simp add: len_prefix_def)

lemma len_prefix_eq:
  "len_prefix n = 126 \<longleftrightarrow> 126 \<le> n \<and> n < 65536"
  "len_prefix n = 127 \<longleftrightarrow> 65536 \<le> n"
proof -
  have "unat (of_nat n :: 8 word) = n" if "n < 126" using that by (simp add: unat_of_nat_eq)
  then have "of_nat n \<noteq> (126 :: 8 word)" "of_nat n \<noteq> (127 :: 8 word)" if "n < 126"
    using that by (force dest: arg_cong [of _ _ unat])+
  then show "len_prefix n = 126 \<longleftrightarrow> 126 \<le> n \<and> n < 65536" "len_prefix n = 127 \<longleftrightarrow> 65536 \<le> n"
    by (auto simp: len_prefix_def)
qed

lemma ucast_len_prefix: "n < 126 \<Longrightarrow> ucast (len_prefix n) = (of_nat n :: size_t)"
  by (simp add: word_unat_eq_iff len_prefix_def unat_of_nat_eq unsigned_ucast_eq take_bit_nat_eq_self)

lemma length_len_ext: "length (len_ext n) = (if n < 126 then 0 else if n < 65536 then 2 else 8)"
  by (simp add: len_ext_def)

text \<open>The second byte, with and without the mask bit.\<close>

definition second_byte :: "bool \<Rightarrow> nat \<Rightarrow> char" where
  "second_byte masked n = w2b (if masked then 0x80 OR len_prefix n else len_prefix n)"

lemma second_byte_fields [simp]:
  "b2w (second_byte m n) AND 0x7f = len_prefix n" "bit (b2w (second_byte m n)) 7 = m"
  using prefix_bits [OF len_prefix_less [of n]] by (auto simp: second_byte_def)

lemma first_byte_fields:
  assumes "op < 16"
  shows "b2w (first_byte op fin) AND 0x0f = op" "bit (b2w (first_byte op fin)) 7 = fin"
  using opcode_bits [OF assms] by (auto simp: first_byte_def)

lemma payload_length_frame:
  assumes "n < 65536"
  shows "payload_length (b0 # second_byte m n # len_ext n @ r) = Inr (of_nat n, 2 + length (len_ext n))"
proof (cases "n < 126")
  case True
  then show ?thesis by (simp add: payload_length_def len_prefix_eq ucast_len_prefix len_ext_def)
next
  case False
  have "(of_nat n :: size_t) < 65536" using assms by (simp add: word_less_nat_alt unat_of_nat_eq)
  with False assms show ?thesis
    by (simp add: payload_length_def len_prefix_eq len_ext_def be2_bytes numeral_3_eq_3 numeral_2_eq_2)
qed

lemma client_frame_eq:
  "client_frame op fin msk data =
     first_byte op fin # second_byte True (length data) # len_ext (length data) @ msk @ mask_from msk 0 data"
  by (simp add: client_frame_def second_byte_def)

lemma server_frame_eq:
  "server_frame op fin data =
     first_byte op fin # second_byte False (length data) # len_ext (length data) @ data"
  by (simp add: server_frame_def second_byte_def)

lemma unat_len: "n < 65536 \<Longrightarrow> unat (of_nat n :: size_t) = n"
  by (simp add: unat_of_nat_eq)

lemma decode_client_frame:
  assumes "op < 16" "length msk = 4" "length data < 65536"
  shows "decode_frame (client_frame op fin msk data @ rest) = Inr (op, fin, data)"
proof -
  let ?n = "length data" and ?off = "2 + length (len_ext (length data))"
  let ?h = "first_byte op fin # second_byte True ?n # len_ext ?n"
  let ?buf = "?h @ msk @ mask_from msk 0 data @ rest"
  have b: "client_frame op fin msk data @ rest = ?buf" by (simp add: client_frame_eq)
  have pl: "payload_length ?buf = Inr (of_nat ?n, ?off)"
    using payload_length_frame [OF assms(3)] by simp
  have msk: "take 4 (drop ?off ?buf) = msk" using assms(2) by simp
  have un: "unmask_loop msk (?off + 4) ?buf ?n 0 = Inr (?h @ msk @ data @ rest)"
    using unmask_loop_from [of "?h @ msk" "?off + 4" msk "[]" "mask_from msk 0 data" rest] assms(2) by simp
  have off: "?off + 4 = length (?h @ msk)" using assms(2) by simp
  have dr: "drop (length p) (p @ x) = x" for p x :: bytes by simp
  have "drop (?off + 4) (?h @ msk @ data @ rest) = data @ rest"
    using dr [of "?h @ msk" "data @ rest"] unfolding off by (simp only: append_assoc)
  moreover have "take ?n (data @ rest) = data" by simp
  ultimately show ?thesis using pl msk un assms
    unfolding b decode_frame_def
    by (simp add: unat_len first_byte_fields Let_def del: take_append drop_append)
qed

lemma decode_server_frame:
  assumes "op < 16" "length data < 65536"
  shows "decode_frame (server_frame op fin data @ rest) = Inr (op, fin, data)"
  using assms payload_length_frame [OF assms(2), of "first_byte op fin" False "data @ rest"]
  by (simp add: server_frame_eq decode_frame_def unat_len first_byte_fields Let_def)

lemma take_Suc_append:
  assumes "k \<le> length (a # b # e @ r)"
  obtains "k = 0" | "k = 1" | j where "k = j + 2" "j < length e"
  | j where "k = j + 2 + length e" "j \<le> length r"
proof -
  consider "k = 0" | "k = 1" | "2 \<le> k" "k < 2 + length e" | "2 + length e \<le> k" by linarith
  then show thesis
  proof cases
    case 3
    then show ?thesis using that(3) [of "k - 2"] by auto
  next
    case 4
    then show ?thesis using that(4) [of "k - (2 + length e)"] assms by auto
  qed (use that in auto)
qed

lemma decode_truncated:
  assumes "op < 16" "length msk = 4" "length data < 65536" "k < length (client_frame op fin msk data)"
  shows "decode_frame (take k (client_frame op fin msk data)) = Inl Oob"
proof -
  let ?n = "length data" and ?e = "len_ext (length data)"
  let ?r = "msk @ mask_from msk 0 data"
  from assms(4) have kl: "k < length (first_byte op fin # second_byte True ?n # ?e @ ?r)" by (simp add: client_frame_eq)
  then have "k \<le> length (first_byte op fin # second_byte True ?n # ?e @ ?r)" by simp
  then show ?thesis
  proof (cases rule: take_Suc_append)
    case (3 j)
    then have e: "126 \<le> ?n" "length ?e = 2" using assms(3) by (auto simp: length_len_ext split: if_splits)
    then obtain x y where "?e = [x, y]" by (auto simp: length_Suc_conv numeral_2_eq_2)
    with 3 e assms(3) show ?thesis
      by (auto simp: client_frame_eq decode_frame_def payload_length_def vat_def len_prefix_eq take_Cons' less_2_cases_iff)
  next
    case (4 j)
    have tk: "take k (client_frame op fin msk data) = first_byte op fin # second_byte True ?n # ?e @ take j ?r"
      using 4 by (simp add: client_frame_eq)
    have pl: "payload_length (first_byte op fin # second_byte True ?n # ?e @ take j ?r)
        = Inr (of_nat ?n, 2 + length ?e)" by (rule payload_length_frame [OF assms(3)])
    show ?thesis
    proof (cases "j < 4")
      case True
      with pl assms(2) show ?thesis unfolding tk decode_frame_def by (simp add: Let_def)
    next
      case False
      let ?buf = "first_byte op fin # second_byte True ?n # ?e @ take j ?r"
      have "unmask_loop m (6 + length ?e) ?buf ?n 0 = Inl Oob" for m
        using 4 kl False assms(2) by (intro unmask_loop_short) auto
      with False pl assms(2,3) show ?thesis
        unfolding tk decode_frame_def by (simp add: Let_def unat_len)
    qed
  qed (simp_all add: client_frame_eq decode_frame_def vat_def)
qed

text \<open>With the 64-bit length the halves are exchanged, so the length read is at least \<open>2 ^ 32\<close>.\<close>

lemma unat_swapped:
  assumes "0 < n" "n < 2 ^ 32"
  shows "unat (push_bit 32 (of_nat n :: size_t) OR 0) = n * 2 ^ 32"
proof -
  have "push_bit 32 (of_nat n :: size_t) = of_nat (n * 2 ^ 32)" by (simp add: push_bit_eq_mult)
  moreover have "n * 2 ^ 32 < 2 ^ LENGTH(64)" using assms(2) by simp
  ultimately show ?thesis using unat_of_nat_eq [of "n * 2 ^ 32", where ?'a = 64] by simp
qed

lemma payload_length_long:
  assumes "65536 \<le> n" "n < 2 ^ 32" "12 \<le> length (len_ext n @ r)"
  shows "payload_length (b0 # second_byte m n # len_ext n @ r) = Inr (push_bit 32 (of_nat n) OR 0, 10)"
proof -
  have lt: "(of_nat n :: size_t) < 2 ^ 32" using assms(2) by (simp add: word_less_nat_alt unat_of_nat_eq)
  have "be4 NUL NUL NUL NUL = 0" by (simp add: be4_def b2w_def)
  with lt assms show ?thesis
    by (simp add: payload_length_def len_prefix_eq ntohl_load64_def len_ext_def be4_bytes byte_at_high [of _ 32])
qed

lemma decode_long:
  assumes "op < 16" "length msk = 4" "65536 \<le> length data" "length data < 2 ^ 32"
  shows "decode_frame (take k (client_frame op fin msk data)) = Inl Oob"
proof -
  let ?n = "length data" and ?e = "len_ext (length data)"
  let ?r = "msk @ mask_from msk 0 data"
  have e: "length ?e = 8" using assms(3) by (simp add: length_len_ext)
  obtain k' where k': "take k (client_frame op fin msk data) = take k' (client_frame op fin msk data)"
    "k' \<le> length (client_frame op fin msk data)" by (metis nle_le take_all)
  from k'(2) have "k' \<le> length (first_byte op fin # second_byte True ?n # ?e @ ?r)" by (simp add: client_frame_eq)
  then have "decode_frame (take k' (client_frame op fin msk data)) = Inl Oob"
  proof (cases rule: take_Suc_append)
    case (3 j)
    then show ?thesis using e assms(3)
      by (simp add: client_frame_eq decode_frame_def payload_length_def len_prefix_eq ntohl_load64_def)
  next
    case (4 j)
    have tk: "take k' (client_frame op fin msk data) = first_byte op fin # second_byte True ?n # ?e @ take j ?r"
      using 4 by (simp add: client_frame_eq)
    show "decode_frame (take k' (client_frame op fin msk data)) = Inl Oob"
    proof (cases "j < 4")
      case True
      then show ?thesis using e assms(2,3) unfolding tk
        by (simp add: decode_frame_def payload_length_def len_prefix_eq ntohl_load64_def)
    next
      case False
      let ?buf = "first_byte op fin # second_byte True ?n # ?e @ take j ?r"
      have pl: "payload_length ?buf = Inr (push_bit 32 (of_nat ?n) OR 0, 10)"
        using e False 4 assms by (intro payload_length_long) auto
      have "unat (push_bit 32 (of_nat ?n :: size_t) OR 0) = ?n * 2 ^ 32"
        using assms(3,4) by (intro unat_swapped) auto
      moreover have "unmask_loop m 14 ?buf (?n * 2 ^ 32) 0 = Inl Oob" for m
        using 4 False e assms(2,3) by (intro unmask_loop_short) auto
      ultimately show ?thesis using False pl e assms(2) 4(2)
        unfolding tk decode_frame_def by (simp add: Let_def)
    qed
  qed (simp_all add: client_frame_eq decode_frame_def vat_def)
  with k'(1) show ?thesis by simp
qed

section \<open>Reading messages\<close>

lemma header_array:
  "replicate 16 NUL = [NUL, NUL, NUL, NUL, NUL, NUL, NUL, NUL, NUL, NUL, NUL, NUL, NUL, NUL, NUL, NUL]"
  by (simp add: numeral_eq_Suc)

lemma header_long:
  "take 6 ((replicate 16 NUL)[0 := a, Suc 0 := b, 2 := c, 3 := d, 4 := e]) = [a, b, c, d, e, NUL]"
  by (simp add: numeral_eq_Suc)

lemma ws_header_long:
  "\<not> n < 126 \<Longrightarrow> \<not> n < 0xffff \<Longrightarrow>
    ws_header n op = [w2b (0x80 OR op), w2b 127, byte_at 56 n, byte_at 48 n, byte_at 40 n, NUL]"
  by (simp only: ws_header_def MakeWebsocketHeader_def header_long byte_at_def Let_def if_False prod.case One_nat_def)

lemma ws_header_frame:
  assumes "length data < 65535"
  shows "ws_header (of_nat (length data)) op @ data = server_frame op True data"
proof -
  let ?n = "length data"
  have u: "unat (of_nat ?n :: size_t) = ?n" using assms by (simp add: unat_of_nat_eq)
  have lt: "(of_nat ?n :: size_t) < 126 \<longleftrightarrow> ?n < 126" "(of_nat ?n :: size_t) < 0xffff"
    using u assms by (simp_all add: word_less_nat_alt)
  have uc: "?n < 126 \<Longrightarrow> ucast (of_nat ?n :: size_t) = (of_nat ?n :: 8 word)"
    by (simp add: word_unat_eq_iff unat_of_nat_eq unsigned_ucast_eq take_bit_nat_eq_self)
  show ?thesis using lt uc assms
    by (simp add: ws_header_def MakeWebsocketHeader_def server_frame_def first_byte_def len_prefix_def len_ext_def
        byte_at_def Let_def header_array numeral_2_eq_2 numeral_3_eq_3)
qed

text \<open>Reading the steady clock has no effect on the world.\<close>

definition clock_law :: "'w os \<Rightarrow> bool" where
  "clock_law os \<longleftrightarrow> (\<forall>w. snd (sys_now os w) = w)"

lemma clock_lawD: "clock_law os \<Longrightarrow> sys_now os w = (fst (sys_now os w), w)"
  by (metis clock_law_def prod.collapse)

text \<open>What a read makes of a frame that arrived whole.\<close>

definition frame_step ::
    "'w os \<Rightarrow> ('h, 'w) ws_callback \<Rightarrow> 'h WebsocketConnection \<Rightarrow> ws_type \<Rightarrow> bool \<Rightarrow> bytes \<Rightarrow> 'h Connection \<Rightarrow> 'w
      \<Rightarrow> int \<times> 'h Connection \<times> 'w" where
  "frame_step os app ws op fin payload c w =
     (if op = kTypeClose then (-1, c, w)
      else if op = kTypePing
      then case WebsocketConnection_Write os kTypePong payload c w of
             (_, c', w') \<Rightarrow> (0, set_ws (last_payload_update (\<lambda>_. [])) c', w')
      else if op = kTypePong then (0, set_ws (last_payload_update (\<lambda>_. [])) c, w)
      else if fin
      then case on_data ws of
             None \<Rightarrow> (0, set_ws (last_payload_update (\<lambda>_. [])) c, w)
           | Some h \<Rightarrow> (case app h op (last_payload ws @ payload) c w of
               (r, c', w') \<Rightarrow> (r, set_ws (last_payload_update (\<lambda>_. [])) c', w'))
      else (1, c, w))"

lemma ws_read_frame:
  assumes "clock_law os" "ws_conn c = Some ws" "c_buffer c = []" "op < 16" "length msk = 4"
    "\<forall>n \<ge> length d. sys_read os (c_fd c) n w = (Data d, w')"
    "d = client_frame op fin msk data @ extra" "length d \<le> 1024"
  shows "WebsocketConnection_Read os app c w
    = Inr (frame_step os app ws op fin data
        (c\<lparr>ws_conn := Some (ws\<lparr>last_payload := last_payload ws @ data, last_io_time := fst (sys_now os w')\<rparr>)\<rparr>) w')"
proof -
  have len: "length data < 65536" "d \<noteq> []" using assms(7,8) by (auto simp: client_frame_eq)
  have rd: "Connection_Read os c w = Inr (1, c\<lparr>c_buffer := d\<rparr>, w')"
    using Connection_Read_data [OF assms(6) len(2)] assms(3,8) by simp
  have dc: "decode_frame d = Inr (op, fin, data)"
    using decode_client_frame [OF assms(4,5) len(1)] assms(7) by simp
  obtain t where now: "sys_now os w' = (t, w')" using clock_lawD [OF assms(1)] by metis
  let ?c = "c\<lparr>ws_conn := Some (ws\<lparr>last_payload := last_payload ws @ data, last_io_time := t\<rparr>)\<rparr>"
  have upd: "set_ws (last_payload_update (\<lambda>_. last_payload ws @ data))
      (set_ws (last_io_time_update (\<lambda>_. t)) (c\<lparr>c_buffer := d\<rparr>\<lparr>c_buffer := []\<rparr>)) = ?c"
    using assms(2,3) by (cases c) (simp add: set_ws_def)
  have f: "c_buffer (c\<lparr>c_buffer := d\<rparr>) = d" "((1 :: int) < 0) = False" by simp_all
  have "WebsocketConnection_Read os app c w = Inr (frame_step os app ws op fin data ?c w')"
    unfolding WebsocketConnection_Read_def ws_receive_def
    by (simp only: assms(2) option.case rd rbind_simps prod.case Let_def now dc upd if_False f)
      (auto simp: frame_step_def split: prod.splits option.splits)
  then show ?thesis by (simp add: now)
qed

text \<open>As many reads as there are readiness events, with their results.\<close>

fun read_n ::
    "nat \<Rightarrow> 'w os \<Rightarrow> ('h, 'w) ws_callback \<Rightarrow> 'h Connection \<Rightarrow> 'w \<Rightarrow> (int list \<times> 'h Connection \<times> 'w) res" where
  "read_n 0 os app c w = Inr ([], c, w)"
| "read_n (Suc n) os app c w =
     rbind (WebsocketConnection_Read os app c w) (\<lambda>(r, c1, w1).
     rbind (read_n n os app c1 w1) (\<lambda>(rs, c2, w2). Inr (r # rs, c2, w2)))"

definition data_op :: "ws_type \<Rightarrow> bool" where
  "data_op op \<longleftrightarrow> op < 16 \<and> op \<noteq> kTypeClose \<and> op \<noteq> kTypePing \<and> op \<noteq> kTypePong"

definition fragments :: "(ws_type \<times> bytes \<times> bytes) list \<Rightarrow> bytes list" where
  "fragments fs = map (\<lambda>(op, msk, data). client_frame op False msk data) fs"

definition frags_ok :: "(ws_type \<times> bytes \<times> bytes) list \<Rightarrow> bool" where
  "frags_ok = list_all (\<lambda>(op, msk, data). data_op op \<and> length msk = 4 \<and> length (client_frame op False msk data) \<le> 1024)"

definition frag_data :: "(ws_type \<times> bytes \<times> bytes) list \<Rightarrow> bytes" where
  "frag_data fs = concat (map (\<lambda>(op, msk, data). data) fs)"

lemma read_message:
  assumes "clock_law os"
  shows "ws_conn c = Some ws \<Longrightarrow> c_buffer c = [] \<Longrightarrow> on_data ws = Some h \<Longrightarrow> frags_ok fs \<Longrightarrow> data_op op
    \<Longrightarrow> length msk = 4 \<Longrightarrow> length (client_frame op True msk data) \<le> 1024
    \<Longrightarrow> delivers os (c_fd c) w (fragments fs @ [client_frame op True msk data])
    \<Longrightarrow> \<exists>t w1. read_n (Suc (length fs)) os app c w =
          (case app h op (last_payload ws @ frag_data fs @ data)
             (c\<lparr>ws_conn := Some (ws\<lparr>last_payload := last_payload ws @ frag_data fs @ data, last_io_time := t\<rparr>)\<rparr>) w1 of
             (r, c2, w2) \<Rightarrow> Inr (replicate (length fs) 1 @ [r], set_ws (last_payload_update (\<lambda>_. [])) c2, w2))"
proof (induction fs arbitrary: c ws w)
  case Nil
  let ?d = "client_frame op True msk data @ []"
  from Nil.prems obtain w1 where rd: "\<forall>n \<ge> length ?d. sys_read os (c_fd c) n w = (Data ?d, w1)"
    by (auto simp: fragments_def)
  from Nil.prems have "op < 16" "length ?d \<le> 1024" by (simp_all add: data_op_def)
  from ws_read_frame [OF assms Nil.prems(1,2) this(1) Nil.prems(6) rd refl this(2), of app] Nil.prems(3,5)
  show ?case
    by (intro exI [of _ "fst (sys_now os w1)"] exI [of _ w1])
      (simp add: frame_step_def data_op_def frag_data_def split: prod.splits)
next
  case (Cons f fs)
  obtain o1 m1 d1 where f: "f = (o1, m1, d1)" by (cases f)
  let ?d = "client_frame o1 False m1 d1 @ []"
  from Cons.prems(8) f obtain w1 where rd: "\<forall>n \<ge> length ?d. sys_read os (c_fd c) n w = (Data ?d, w1)"
    and more: "delivers os (c_fd c) w1 (fragments fs @ [client_frame op True msk data])"
    by (auto simp: fragments_def)
  from Cons.prems(4) f have o1: "o1 < 16" "length m1 = 4" "length ?d \<le> 1024" "data_op o1" and ok: "frags_ok fs"
    by (simp_all add: data_op_def frags_ok_def)
  let ?ws = "ws\<lparr>last_payload := last_payload ws @ d1, last_io_time := fst (sys_now os w1)\<rparr>"
  let ?c = "c\<lparr>ws_conn := Some ?ws\<rparr>"
  from ws_read_frame [OF assms Cons.prems(1,2) o1(1,2) rd refl o1(3), of app] o1(4)
  have step: "WebsocketConnection_Read os app c w = Inr (1, ?c, w1)"
    by (simp add: frame_step_def data_op_def)
  have "ws_conn ?c = Some ?ws" "c_buffer ?c = []" "on_data ?ws = Some h" "c_fd ?c = c_fd c"
    using Cons.prems(2,3) by simp_all
  from Cons.IH [OF this(1-3) ok Cons.prems(5-7), of w1] more this(4)
  obtain t w2 where ih: "read_n (Suc (length fs)) os app ?c w1 =
          (case app h op (last_payload ?ws @ frag_data fs @ data)
             (?c\<lparr>ws_conn := Some (?ws\<lparr>last_payload := last_payload ?ws @ frag_data fs @ data, last_io_time := t\<rparr>)\<rparr>) w2 of
             (r, c2, w2) \<Rightarrow> Inr (replicate (length fs) 1 @ [r], set_ws (last_payload_update (\<lambda>_. [])) c2, w2))"
    by auto
  have "read_n (Suc (length (f # fs))) os app c w
      = rbind (read_n (Suc (length fs)) os app ?c w1) (\<lambda>(rs, c2, w2). Inr (1 # rs, c2, w2))"
    using step by simp
  with ih f show ?case
    by (intro exI [of _ t] exI [of _ w2]) (simp add: frag_data_def split: prod.split)
qed

section \<open>What goes out\<close>

text \<open>Writes are taken whole and appended to what was sent on the descriptor; reads send nothing.\<close>

definition wire_law :: "'w os \<Rightarrow> ('w \<Rightarrow> fd \<Rightarrow> bytes) \<Rightarrow> bool" where
  "wire_law os out \<longleftrightarrow>
     (\<forall>fd d w. \<exists>w'. sys_write os fd d w = (Wrote (length d), w') \<and> out w' = (out w)(fd := out w fd @ d))
   \<and> (\<forall>fd n w. out (snd (sys_read os fd n w)) = out w)"

lemma Connection_Write_wire:
  assumes "wire_law os out" "c_fd c \<noteq> -1"
  shows "\<exists>w'. Connection_Write os d c w = (1, w') \<and> out w' = (out w)(c_fd c := out w (c_fd c) @ d)"
proof -
  obtain w' where "sys_write os (c_fd c) d w = (Wrote (length d), w')" "out w' = (out w)(c_fd c := out w (c_fd c) @ d)"
    using assms(1) unfolding wire_law_def by blast
  with assms(2) show ?thesis by (simp add: Connection_Write_def)
qed

lemma WebsocketConnection_Write_wire:
  assumes "clock_law os" "wire_law os out" "c_fd c \<noteq> -1" "length data < 65535"
  shows "\<exists>t w'. WebsocketConnection_Write os op data c w = (0, set_ws (last_io_time_update (\<lambda>_. t)) c, w')
    \<and> out w' = (out w)(c_fd c := out w (c_fd c) @ server_frame op True data)"
proof -
  let ?h = "ws_header (of_nat (length data)) op"
  obtain w1 where w1: "Connection_Write os ?h c w = (1, w1)" "out w1 = (out w)(c_fd c := out w (c_fd c) @ ?h)"
    using Connection_Write_wire [OF assms(2,3)] by blast
  obtain w2 where w2: "Connection_Write os data c w1 = (1, w2)" "out w2 = (out w1)(c_fd c := out w1 (c_fd c) @ data)"
    using Connection_Write_wire [OF assms(2,3)] by blast
  obtain t where "sys_now os w2 = (t, w2)" using clock_lawD [OF assms(1)] by metis
  with w1 w2 ws_header_frame [OF assms(4), of op] show ?thesis
    by (intro exI [of _ t] exI [of _ w2])
      (auto simp: WebsocketConnection_Write_def ws_header_def split: prod.splits)
qed

lemma GetWsAcceptByKey_ok:
  assumes "length (SHA1 (key @ ws_guid)) = SHA_DIGEST_LENGTH" "length hash = SHA_DIGEST_LENGTH * 2"
  shows "GetWsAcceptByKey SHA1 hash key = Inr (b64_ref (SHA1 (key @ ws_guid)))"
  using base64_encode_ok [of "SHA1 (key @ ws_guid)" hash "Some (SHA_DIGEST_LENGTH * 2)"]
    assms length_b64_ref [of "SHA1 (key @ ws_guid)"]
  by (simp add: GetWsAcceptByKey_def SHA_DIGEST_LENGTH_def)

lemma sim_clock_law: "clock_law sim_os"
  by (simp add: clock_law_def sim_os_def)

lemma sim_wire_law: "wire_law sim_os k_output"
  by (auto simp: wire_law_def sim_os_def split: list.splits read_res.splits)

text \<open>An application that echoes every message, and an upgraded connection for it.\<close>

definition echo_app :: "(unit, kernel) ws_callback" where
  "echo_app h op data c w = WebsocketConnection_Write sim_os op data c w"

definition echo_conn :: "unit Connection" where
  "echo_conn = new_Connection 7\<lparr>ws_conn := Some \<lparr>ws_key = ''k'', ws_accept = [], on_data = Some (),
     will_close_hook = None, last_payload = [], last_io_time = 0\<rparr>\<rparr>"

section \<open>Properties\<close>

text \<open>
  C10. Server frames are what the protocol says: for a payload of up to 65534 bytes, the header of
  \<open>MakeWebsocketHeader\<close> followed by the payload is the unmasked frame of that opcode and length,
  and the frame reader of this library gets opcode, fin and payload back from it.
\<close>

theorem server_frame_roundtrip:
  assumes "length data < 65535" "op < 16"
  shows "ws_header (of_nat (length data)) op @ data = server_frame op True data
    \<and> decode_frame (ws_header (of_nat (length data)) op @ data) = Inr (op, True, data)"
  using ws_header_frame [OF assms(1)] decode_server_frame [of op data True "[]"] assms by simp

theorem server_frame_roundtrip_witness:
  "ws_header (of_nat (length ''hello'')) kTypeText @ ''hello'' = server_frame kTypeText True ''hello''
    \<and> decode_frame (ws_header (of_nat (length ''hello'')) kTypeText @ ''hello'') = Inr (kTypeText, True, ''hello'')"
  by (rule server_frame_roundtrip) (simp_all add: kTypeText_def)

text \<open>
  C9. A masked client frame of up to 65535 payload bytes at the start of the buffer is decoded:
  opcode, fin bit and the payload with the mask removed; bytes behind it play no part. If any
  suffix of the frame is still missing, decoding reads past the received bytes.
\<close>

theorem client_frame_decoded:
  assumes "op < 16" "length msk = 4" "length data < 65536"
  shows "decode_frame (client_frame op fin msk data @ rest) = Inr (op, fin, data)
    \<and> (\<forall>k < length (client_frame op fin msk data). decode_frame (take k (client_frame op fin msk data)) = Inl Oob)"
  using decode_client_frame [OF assms] decode_truncated [OF assms] by blast

theorem client_frame_decoded_witness:
  "decode_frame (client_frame kTypeText True ''abcd'' ''hello'' @ ''xy'') = Inr (kTypeText, True, ''hello'')
    \<and> decode_frame (take 4 (client_frame kTypeText True ''abcd'' ''hello'')) = Inl Oob"
proof -
  have "4 < length (client_frame kTypeText True ''abcd'' ''hello'')" by (simp add: client_frame_def)
  then show ?thesis
    using client_frame_decoded [of kTypeText "''abcd''" "''hello''" True "''xy''"] by (simp add: kTypeText_def)
qed

text \<open>
  C32. A frame with the 64-bit length is never decoded, not even when it is complete: the two
  halves of the length are exchanged, so any length below \<open>2 ^ 32\<close> is taken for a multiple of
  \<open>2 ^ 32\<close> and the unmasking runs off the buffer.
\<close>

theorem long_client_frame_overruns:
  assumes "op < 16" "length msk = 4" "65536 \<le> length data" "length data < 2 ^ 32"
  shows "decode_frame (take k (client_frame op fin msk data)) = Inl Oob"
  using assms by (rule decode_long)

theorem long_client_frame_overruns_witness:
  "decode_frame (take 1024 (client_frame kTypeBinary True ''abcd'' (replicate 70000 SP))) = Inl Oob"
  by (rule long_client_frame_overruns) (simp_all add: kTypeBinary_def)

text \<open>
  C8. A fragmented message is reassembled: with one complete frame per read, every fragment
  without the fin bit returns 1 and is kept; the final frame hands the handler all payloads in
  order, with the opcode of the final frame, returns what the handler returns, and the collected
  payload is empty again.
\<close>

theorem message_reassembled:
  assumes "clock_law os" "ws_conn c = Some ws" "c_buffer c = []" "on_data ws = Some h" "last_payload ws = []"
    "frags_ok fs" "data_op op" "length msk = 4" "length (client_frame op True msk data) \<le> 1024"
    "delivers os (c_fd c) w (fragments fs @ [client_frame op True msk data])"
  shows "\<exists>t w1. read_n (Suc (length fs)) os app c w =
    (case app h op (frag_data fs @ data)
       (c\<lparr>ws_conn := Some (ws\<lparr>last_payload := frag_data fs @ data, last_io_time := t\<rparr>)\<rparr>) w1 of
       (r, c2, w2) \<Rightarrow> Inr (replicate (length fs) 1 @ [r], set_ws (last_payload_update (\<lambda>_. [])) c2, w2))"
  using read_message [OF assms(1-4,6-10), of app] assms(5) by simp

theorem message_reassembled_witness:
  "\<exists>t w1. read_n 2 sim_os echo_app echo_conn
      (k0\<lparr>k_input := (\<lambda>_. [])(7 := [Data (client_frame kTypeText False ''abcd'' ''he''),
                                     Data (client_frame kTypeContinuation True ''wxyz'' ''llo'')])\<rparr>) =
    (case echo_app () kTypeContinuation ''hello''
       (echo_conn\<lparr>ws_conn := Some (the (ws_conn echo_conn)\<lparr>last_payload := ''hello'', last_io_time := t\<rparr>)\<rparr>) w1 of
       (r, c2, w2) \<Rightarrow> Inr ([1, r], set_ws (last_payload_update (\<lambda>_. [])) c2, w2))"
proof -
  let ?fs = "[(kTypeText, ''abcd'', ''he'')]"
  let ?l = "client_frame kTypeContinuation True ''wxyz'' ''llo''"
  let ?k = "k0\<lparr>k_input := (\<lambda>_. [])(7 := map Data (fragments ?fs @ [?l]))\<rparr>"
  have d: "delivers sim_os (c_fd echo_conn) ?k (fragments ?fs @ [?l])"
    by (rule sim_delivers) (simp_all add: echo_conn_def new_Connection_def fragments_def client_frame_def)
  have "frags_ok ?fs" "data_op kTypeContinuation" "length ?l \<le> 1024"
    by (simp_all add: frags_ok_def data_op_def ws_types client_frame_def len_ext_def)
  from message_reassembled [OF sim_clock_law _ _ _ _ this(1,2) _ this(3) d, of "the (ws_conn echo_conn)" "()" echo_app]
  show ?thesis by (simp add: echo_conn_def new_Connection_def frag_data_def fragments_def numeral_2_eq_2)
qed

text \<open>
  C30. A ping is answered by a pong with the same payload, as one well-formed frame, and returns 0 -
  and any fragments collected so far are dropped with it.
\<close>

theorem ping_answered:
  assumes "clock_law os" "wire_law os out" "ws_conn c = Some ws" "c_buffer c = []" "c_fd c \<noteq> -1" "length msk = 4"
    "length (client_frame kTypePing True msk data) \<le> 1024"
    "delivers os (c_fd c) w (client_frame kTypePing True msk data # ds)"
  shows "\<exists>c' ws' w'. WebsocketConnection_Read os app c w = Inr (0, c', w') \<and> ws_conn c' = Some ws'
    \<and> last_payload ws' = [] \<and> out w' = (out w)(c_fd c := out w (c_fd c) @ server_frame kTypePong True data)"
proof -
  let ?d = "client_frame kTypePing True msk data @ []"
  from assms(8) obtain w1 where rd: "\<forall>n \<ge> length ?d. sys_read os (c_fd c) n w = (Data ?d, w1)" by auto
  have op: "kTypePing < 16" "kTypePing \<noteq> kTypeClose" by (simp_all add: ws_types)
  have len: "length ?d \<le> 1024" "length data < 65535" using assms(7) by (simp_all add: client_frame_def)
  let ?ws = "ws\<lparr>last_payload := last_payload ws @ data, last_io_time := fst (sys_now os w1)\<rparr>"
  let ?c = "c\<lparr>ws_conn := Some ?ws\<rparr>"
  have out: "out w1 = out w" using rd assms(2) unfolding wire_law_def by (metis order_refl snd_conv)
  have "c_fd ?c \<noteq> -1" using assms(5) by simp
  from WebsocketConnection_Write_wire [OF assms(1,2) this len(2), of kTypePong w1]
  obtain t w2 where wr: "WebsocketConnection_Write os kTypePong data ?c w1 = (0, set_ws (last_io_time_update (\<lambda>_. t)) ?c, w2)"
    "out w2 = (out w1)(c_fd ?c := out w1 (c_fd ?c) @ server_frame kTypePong True data)" by blast
  from ws_read_frame [OF assms(1,3,4) op(1) assms(6) rd refl len(1), of app]
  have "WebsocketConnection_Read os app c w
    = Inr (0, set_ws (last_payload_update (\<lambda>_. [])) (set_ws (last_io_time_update (\<lambda>_. t)) ?c), w2)"
    using wr(1) op(2) by (simp add: frame_step_def)
  with wr(2) out show ?thesis by (simp add: set_ws_def)
qed

theorem ping_answered_witness:
  "\<exists>c' ws' w'. WebsocketConnection_Read sim_os echo_app echo_conn
      (k0\<lparr>k_input := (\<lambda>_. [])(7 := [Data (client_frame kTypePing True ''abcd'' ''hi'')])\<rparr>) = Inr (0, c', w')
    \<and> ws_conn c' = Some ws' \<and> last_payload ws' = [] \<and> k_output w' 7 = server_frame kTypePong True ''hi''"
proof -
  let ?k = "k0\<lparr>k_input := (\<lambda>_. [])(7 := map Data [client_frame kTypePing True ''abcd'' ''hi''])\<rparr>"
  have "delivers sim_os (c_fd echo_conn) ?k [client_frame kTypePing True ''abcd'' ''hi'']"
    by (rule sim_delivers) (simp_all add: echo_conn_def new_Connection_def client_frame_def)
  moreover have "ws_conn echo_conn = Some (the (ws_conn echo_conn))" "c_buffer echo_conn = []" "c_fd echo_conn = 7"
    by (simp_all add: echo_conn_def new_Connection_def)
  moreover have "length (client_frame kTypePing True ''abcd'' ''hi'') \<le> 1024" by (simp add: client_frame_def len_ext_def)
  ultimately obtain c' ws' w' where "WebsocketConnection_Read sim_os echo_app echo_conn ?k = Inr (0, c', w')"
    "ws_conn c' = Some ws'" "last_payload ws' = []"
    "k_output w' = (k_output ?k)(7 := k_output ?k 7 @ server_frame kTypePong True ''hi'')"
    using ping_answered [OF sim_clock_law sim_wire_law, of echo_conn "the (ws_conn echo_conn)" "''abcd''" "''hi''" ?k "[]" echo_app]
    by auto
  moreover have "k_output ?k 7 = []" by (simp add: k0_def)
  ultimately show ?thesis
    by (intro exI [of _ c'] exI [of _ ws'] exI [of _ w']) (simp only: list.map fun_upd_same append_Nil simp_thms)
qed

text \<open>
  A payload of 65535 bytes or more gets a malformed header: the escape for the 64-bit length,
  but only six bytes in all, so that a client reading the protocol's eight length bytes takes the
  first four bytes of the payload for the length (lengths up to \<open>2 ^ 40\<close>).
\<close>

theorem long_header_malformed:
  assumes "65535 \<le> length data" "length data < 2 ^ 40"
  shows "length (ws_header (of_nat (length data)) op) = 6
    \<and> (let frame = ws_header (of_nat (length data)) op @ data
       in b2w (frame ! 1) = 127
        \<and> push_bit 32 (be4 (frame ! 2) (frame ! 3) (frame ! 4) (frame ! 5)) OR be4 (frame ! 6) (frame ! 7) (frame ! 8) (frame ! 9)
          = be4 (data ! 0) (data ! 1) (data ! 2) (data ! 3))"
proof -
  let ?n = "of_nat (length data) :: size_t"
  have u: "unat ?n = length data" using assms(2) by (intro unat_of_nat_eq) simp
  have lt: "\<not> ?n < 126" "\<not> ?n < 0xffff" "?n < 2 ^ 40"
    using u assms by (simp_all add: word_less_nat_alt)
  have "ws_header ?n op = [w2b (0x80 OR op), w2b 127, byte_at 56 ?n, byte_at 48 ?n, byte_at 40 ?n, NUL]"
    using lt(1,2) by (rule ws_header_long)
  then have h: "ws_header ?n op = [w2b (0x80 OR op), w2b 127, NUL, NUL, NUL, NUL]"
    using lt(3) by (simp add: byte_at_high [of _ 40])
  have "be4 NUL NUL NUL NUL = 0" by (simp add: be4_def b2w_def)
  then show ?thesis by (simp add: h Let_def)
qed

theorem long_header_malformed_witness:
  "length (ws_header (of_nat (length (replicate 70000 SP))) kTypeText) = 6
    \<and> (let frame = ws_header (of_nat (length (replicate 70000 SP))) kTypeText @ replicate 70000 SP
       in b2w (frame ! 1) = 127
        \<and> push_bit 32 (be4 (frame ! 2) (frame ! 3) (frame ! 4) (frame ! 5)) OR be4 (frame ! 6) (frame ! 7) (frame ! 8) (frame ! 9)
          = be4 (replicate 70000 SP ! 0) (replicate 70000 SP ! 1) (replicate 70000 SP ! 2) (replicate 70000 SP ! 3))"
  by (rule long_header_malformed) (simp_all only: length_replicate, simp_all)

text \<open>
  C18. The accept key of a handshake: whatever the key, and with SHA-1 producing its 20 bytes, the
  encoding fits the local array, the answer has 28 characters and is the Base64 text of the digest
  of the key followed by the protocol's GUID; asking again returns the same value.
\<close>

theorem ws_accept_key:
  assumes "\<forall>m. length (SHA1 m) = SHA_DIGEST_LENGTH" "length hash = SHA_DIGEST_LENGTH * 2"
    "ws_conn c = Some ws" "ws_accept ws = []"
  shows "\<exists>a c'. GetWsAccept SHA1 hash c = Inr (a, c') \<and> length a = 28
    \<and> b64_decode a = SHA1 (ws_key ws @ ''258EAFA5-E914-47DA-95CA-C5AB0DC85B11'')
    \<and> GetWsAccept SHA1 hash' c' = Inr (a, c')"
proof -
  let ?a = "b64_ref (SHA1 (ws_key ws @ ws_guid))"
  have "length ?a = 28" using assms(1) by (simp add: length_b64_ref SHA_DIGEST_LENGTH_def)
  moreover from this have "?a \<noteq> []" by auto
  moreover have "GetWsAcceptByKey SHA1 hash (ws_key ws) = Inr ?a" using GetWsAcceptByKey_ok assms(1,2) by blast
  ultimately show ?thesis using assms(3,4)
    by (intro exI [of _ ?a] exI [of _ "set_ws (ws_accept_update (\<lambda>_. ?a)) c"])
      (simp add: GetWsAccept_def set_ws_def b64_decode_ref ws_guid_def)
qed

theorem ws_accept_key_witness:
  "\<exists>a c'. GetWsAccept (\<lambda>m. take 20 (m @ replicate 20 NUL)) (replicate 40 NUL) echo_conn = Inr (a, c') \<and> length a = 28
    \<and> b64_decode a = ''k258EAFA5-E914-47DA-'' \<and> GetWsAccept (\<lambda>m. take 20 (m @ replicate 20 NUL)) [] c' = Inr (a, c')"
proof -
  obtain ws where ws: "ws_conn echo_conn = Some ws" "ws_accept ws = []" "ws_key ws = ''k''"
    by (simp add: echo_conn_def)
  let ?sha = "\<lambda>m. take 20 (m @ replicate 20 NUL)"
  have "\<forall>m. length (?sha m) = SHA_DIGEST_LENGTH" "length (replicate 40 NUL) = SHA_DIGEST_LENGTH * 2"
    by (auto simp: SHA_DIGEST_LENGTH_def min_def)
  note a = ws_accept_key [OF this ws(1,2), of "[]"]
  have "?sha (ws_key ws @ ''258EAFA5-E914-47DA-95CA-C5AB0DC85B11'') = ''k258EAFA5-E914-47DA-''"
    by (simp add: ws(3))
  with a show ?thesis by (simp only:)
qed

text \<open>
  \<open>ServerPing\<close> sends one empty ping frame exactly when more than ten seconds have passed since
  the last traffic, and then counts the time anew; otherwise nothing is sent or changed.
\<close>

theorem server_ping_when_idle:
  assumes "clock_law os" "wire_law os out" "ws_conn c = Some ws" "c_fd c \<noteq> -1" "fst (sys_now os w) = now"
  shows "if now - last_io_time ws > 10 * 1000000000
    then \<exists>w'. ServerPing os c w = Inr (True, c\<lparr>ws_conn := Some (ws\<lparr>last_io_time := now\<rparr>)\<rparr>, w')
      \<and> out w' = (out w)(c_fd c := out w (c_fd c) @ server_frame kTypePing True [])
    else ServerPing os c w = Inr (False, c, w)"
proof -
  have now: "sys_now os w = (now, w)" using clock_lawD [OF assms(1)] assms(5) by metis
  have "length ([] :: bytes) < 65535" by simp
  from WebsocketConnection_Write_wire [OF assms(1,2,4) this, of kTypePing w]
  obtain t w' where "WebsocketConnection_Write os kTypePing [] c w = (0, set_ws (last_io_time_update (\<lambda>_. t)) c, w')"
    "out w' = (out w)(c_fd c := out w (c_fd c) @ server_frame kTypePing True [])" by blast
  with now assms(3) show ?thesis
    by (simp add: ServerPing_def HPL_ENABLE_PING_PONG_def set_ws_def)
qed

theorem server_ping_when_idle_witness:
  "\<exists>w'. ServerPing sim_os echo_conn (k0\<lparr>k_clock := 10000000001\<rparr>)
      = Inr (True, echo_conn\<lparr>ws_conn := Some (the (ws_conn echo_conn)\<lparr>last_io_time := 10000000001\<rparr>)\<rparr>, w')
    \<and> k_output w' 7 = server_frame kTypePing True []"
  using server_ping_when_idle [OF sim_clock_law sim_wire_law, of echo_conn "the (ws_conn echo_conn)"
      "k0\<lparr>k_clock := 10000000001\<rparr>" 10000000001]
  by (auto simp: echo_conn_def new_Connection_def sim_os_def k0_def)

text \<open>
  A wake-up without data is fatal: when the descriptor reports that nothing is there and
  nothing is buffered, \<open>Read\<close> goes on to decode a header from the empty buffer.
\<close>

theorem empty_wakeup_overruns:
  assumes "ws_conn c = Some ws" "c_buffer c = []" "delivers os (c_fd c) w []"
  shows "WebsocketConnection_Read os app c w = Inl Oob"
proof -
  obtain w' where "sys_read os (c_fd c) 1024 w = (ReadErr EAGAIN, w')" using assms(3) by (metis delivers.simps(1) prod.collapse)
  then have "Connection_Read os c w = Inr (0, c, w')"
    using assms(2) by (simp add: Connection_Read_def SMALL_MEMORY_def)
  with assms(1,2) show ?thesis
    by (simp add: WebsocketConnection_Read_def ws_receive_def decode_frame_def vat_def Let_def split: prod.split)
qed

theorem empty_wakeup_overruns_witness:
  "WebsocketConnection_Read sim_os echo_app echo_conn k0 = Inl Oob"
  by (rule empty_wakeup_overruns [of _ "the (ws_conn echo_conn)"])
    (simp_all add: echo_conn_def new_Connection_def k0_def sim_os_def)

end
