(* ===== verification/Hpl_Broadcast.thy ===== *)
theory Hpl_Broadcast
  imports Hpl_Websocket
begin

text \<open>
  Broadcast groups, \<^verbatim>\<open>src/src/hpl_broadcast_group.h\<close> and \<^verbatim>\<open>hpl_broadcast_group.cc\<close>: a message is
  written once into the group's pipe, duplicated with \<^verbatim>\<open>tee\<close> into a pipe per member, and spliced
  from there into the sockets. A member is a pointer to a WebSocket connection;
  \<open>desc\<close> gives the descriptor of the connections that are alive.
\<close>

section \<open>The group\<close>

type_synonym member = "(fd \<times> fd) \<times> conn_ptr"

record BroadcastGroup =
  pipefd :: "fd \<times> fd"
  connections :: "member list"

definition new_BroadcastGroup :: "'w os \<Rightarrow> 'w \<Rightarrow> BroadcastGroup \<times> 'w" where
  "new_BroadcastGroup os w =
     (let (ret, w1) = sys_pipe os w;
          fds = (case ret of None \<Rightarrow> (-1, -1) | Some p \<Rightarrow> p);
          (_, w2) = sys_setfl os (fst fds) O_NONBLOCK w1;
          (_, w3) = sys_setfl os (snd fds) O_NONBLOCK w2
      in (\<lparr>pipefd = fds, connections = []\<rparr>, w3))"

fun close_members :: "'w os \<Rightarrow> member list \<Rightarrow> 'w \<Rightarrow> 'w" where
  "close_members os [] w = w"
| "close_members os (((r, s), p) # ms) w = close_members os ms (sys_close os s (sys_close os r w))"

definition delete_BroadcastGroup :: "'w os \<Rightarrow> BroadcastGroup \<Rightarrow> 'w \<Rightarrow> 'w" where
  "delete_BroadcastGroup os g w =
     (let (r, s) = pipefd g;
          w1 = (if r \<noteq> -1 then sys_close os r w else w);
          w2 = (if s \<noteq> -1 then sys_close os s w1 else w1)
      in close_members os (connections g) w2)"

definition Join ::
    "'w os \<Rightarrow> (conn_ptr \<Rightarrow> fd option) \<Rightarrow> conn_ptr option \<Rightarrow> BroadcastGroup \<Rightarrow> 'w \<Rightarrow> (int \<times> BroadcastGroup \<times> 'w) res" where
  "Join os desc connection g w =
     (case connection of
        None \<Rightarrow> Inr (-1, g, w)
      | Some p \<Rightarrow>
          case desc p of
            None \<Rightarrow> Inl UseAfterFree
          | Some fd \<Rightarrow>
              let (_, w1) = sys_setsockopt os fd ''SO_ZEROCOPY'' w
              in case sys_pipe os w1 of
                   (None, w2) \<Rightarrow> Inr (-1, g, w2)
                 | (Some pipes, w2) \<Rightarrow>
                     let (_, w3) = sys_setfl os (fst pipes) O_NONBLOCK w2;
                         (_, w4) = sys_setfl os (snd pipes) O_NONBLOCK w3
                     in Inr (0, g\<lparr>connections := connections g @ [(pipes, p)]\<rparr>, w4))"

text \<open>The first entry of a connection, closed and erased.\<close>

fun erase_first :: "conn_ptr \<Rightarrow> member list \<Rightarrow> (member \<times> member list) option" where
  "erase_first p [] = None"
| "erase_first p (m # ms) =
     (if snd m = p then Some (m, ms) else map_option (\<lambda>(x, rest). (x, m # rest)) (erase_first p ms))"

definition Leave :: "'w os \<Rightarrow> conn_ptr \<Rightarrow> BroadcastGroup \<Rightarrow> 'w \<Rightarrow> int \<times> BroadcastGroup \<times> 'w" where
  "Leave os p g w =
     (case erase_first p (connections g) of
        None \<Rightarrow> (-1, g, w)
      | Some (((r, s), _), rest) \<Rightarrow>
          (0, g\<lparr>connections := rest\<rparr>, sys_close os s (sys_close os r w)))"

section \<open>Sending\<close>

text \<open>The \<^verbatim>\<open>tee\<close> loop over all members but the last, and the \<^verbatim>\<open>splice\<close> loop into the sockets.\<close>

fun tee_loop :: "'w os \<Rightarrow> fd \<Rightarrow> fd list \<Rightarrow> nat \<Rightarrow> 'w \<Rightarrow> 'w" where
  "tee_loop os src [] n w = w"
| "tee_loop os src (s # ss) n w = tee_loop os src ss n (snd (sys_tee os src s n w))"

fun splice_loop :: "'w os \<Rightarrow> (conn_ptr \<Rightarrow> fd option) \<Rightarrow> member list \<Rightarrow> nat \<Rightarrow> 'w \<Rightarrow> 'w res" where
  "splice_loop os desc [] n w = Inr w"
| "splice_loop os desc (((r, s), p) # ms) n w =
     (case desc p of
        None \<Rightarrow> Inl UseAfterFree
      | Some fd \<Rightarrow> splice_loop os desc ms n (snd (sys_splice os r fd n w)))"

definition Broadcast ::
    "'w os \<Rightarrow> (conn_ptr \<Rightarrow> fd option) \<Rightarrow> bytes \<Rightarrow> ws_type \<Rightarrow> BroadcastGroup \<Rightarrow> 'w \<Rightarrow> (int \<times> 'w) res" where
  "Broadcast os desc data msg_type g w =
     (let (r, s) = pipefd g
      in if r = -1 \<or> s = -1 then Inr (-1, w)
         else if connections g = [] then Inr (0, w)
         else let (header, header_len) = MakeWebsocketHeader (of_nat (length data)) msg_type
              in case sys_write os s (take header_len header) w of
                   (WriteErr _, w1) \<Rightarrow> Inr (-1, w1)
                 | (Wrote _, w1) \<Rightarrow>
                     case sys_write os s data w1 of
                       (WriteErr _, w2) \<Rightarrow> Inr (-1, w2)
                     | (Wrote _, w2) \<Rightarrow>
                         let n = header_len + length data;
                             ends = map (snd \<circ> fst) (connections g);
                             w3 = tee_loop os r (butlast ends) n w2;
                             w4 = snd (sys_splice os r (last ends) n w3)
                         in rbind (splice_loop os desc (connections g) n w4) (\<lambda>w5. Inr (0, w5)))"

text \<open>The same loop over pairs of a pipe and a socket (the benchmark has it in this form).\<close>

fun ZeroCopy_splice :: "'w os \<Rightarrow> nat \<Rightarrow> ((fd \<times> fd) \<times> fd) list \<Rightarrow> 'w \<Rightarrow> 'w" where
  "ZeroCopy_splice os n [] w = w"
| "ZeroCopy_splice os n (((r, s), fd) # ms) w = ZeroCopy_splice os n ms (snd (sys_splice os r fd n w))"

section \<open>Pipes and sockets\<close>

text \<open>
  What \<^verbatim>\<open>pipe(7)\<close>, \<^verbatim>\<open>tee(2)\<close> and \<^verbatim>\<open>splice(2)\<close> promise, on the bytes queued in each pipe (by its read end)
  and the bytes sent on each socket. \<open>peer\<close> maps the write end of a pipe to its read end; a pipe
  takes bytes as long as they fit its capacity, a socket takes them.
\<close>

type_synonym streams = "(fd \<Rightarrow> bytes) \<times> (fd \<Rightarrow> bytes)"

definition put :: "(fd \<Rightarrow> fd option) \<Rightarrow> streams \<Rightarrow> fd \<Rightarrow> bytes \<Rightarrow> streams" where
  "put peer st fd d =
     (case peer fd of
        Some r \<Rightarrow> ((fst st)(r := fst st r @ d), snd st)
      | None \<Rightarrow> (fst st, (snd st)(fd := snd st fd @ d)))"

definition room :: "(fd \<Rightarrow> fd option) \<Rightarrow> nat \<Rightarrow> streams \<Rightarrow> fd \<Rightarrow> nat \<Rightarrow> bool" where
  "room peer cap st fd n \<longleftrightarrow> (case peer fd of Some r \<Rightarrow> length (fst st r) + n \<le> cap | None \<Rightarrow> True)"

definition pipe_law :: "'w os \<Rightarrow> (fd \<Rightarrow> fd option) \<Rightarrow> nat \<Rightarrow> ('w \<Rightarrow> streams) \<Rightarrow> bool" where
  "pipe_law os peer cap view \<longleftrightarrow>
     (\<forall>fd d w. room peer cap (view w) fd (length d) \<longrightarrow>
        (\<exists>w'. sys_write os fd d w = (Wrote (length d), w') \<and> view w' = put peer (view w) fd d))
   \<and> (\<forall>r s n w. room peer cap (view w) s n \<longrightarrow>
        view (snd (sys_tee os r s n w)) = put peer (view w) s (take n (fst (view w) r)))
   \<and> (\<forall>r s n w. room peer cap (view w) s n \<longrightarrow>
        view (snd (sys_splice os r s n w))
          = put peer ((fst (view w))(r := drop n (fst (view w) r)), snd (view w)) s (take n (fst (view w) r)))"

lemma pipe_law_write:
  assumes "pipe_law os peer cap view" "room peer cap (view w) fd (length d)"
  obtains w' where "sys_write os fd d w = (Wrote (length d), w')" "view w' = put peer (view w) fd d"
  using assms unfolding pipe_law_def by blast

lemma pipe_law_tee:
  "pipe_law os peer cap view \<Longrightarrow> room peer cap (view w) s n \<Longrightarrow>
    view (snd (sys_tee os r s n w)) = put peer (view w) s (take n (fst (view w) r))"
  unfolding pipe_law_def by blast

lemma pipe_law_splice:
  "pipe_law os peer cap view \<Longrightarrow> room peer cap (view w) s n \<Longrightarrow>
    view (snd (sys_splice os r s n w))
      = put peer ((fst (view w))(r := drop n (fst (view w) r)), snd (view w)) s (take n (fst (view w) r))"
  unfolding pipe_law_def by blast

text \<open>The specification: every socket of the list gets the message, in this order.\<close>

definition fan_out :: "bytes \<Rightarrow> fd list \<Rightarrow> (fd \<Rightarrow> bytes) \<Rightarrow> fd \<Rightarrow> bytes" where
  "fan_out msg fds out = fold (\<lambda>s o'. o'(s := o' s @ msg)) fds out"

lemma fan_out_simps [simp]:
  "fan_out msg [] out = out"
  "fan_out msg (s # ss) out = fan_out msg ss (out(s := out s @ msg))"
  by (simp_all add: fan_out_def)

lemma fan_out_count: "fan_out msg fds out s = out s @ concat (replicate (count_list fds s) msg)"
  by (induction fds arbitrary: out) auto

text \<open>The pipes of the members: each write end leads to its read end, all read ends are different.\<close>

definition pipes_ok :: "(fd \<Rightarrow> fd option) \<Rightarrow> (fd \<times> fd) \<Rightarrow> (fd \<times> fd) list \<Rightarrow> bool" where
  "pipes_ok peer src ps \<longleftrightarrow>
     (\<forall>(r, s) \<in> set (src # ps). peer s = Some r) \<and> distinct (map fst (src # ps))"

lemma put_pipe: "peer s = Some r \<Longrightarrow> put peer st s d = ((fst st)(r := fst st r @ d), snd st)"
  by (simp add: put_def)

lemma put_socket: "peer s = None \<Longrightarrow> put peer st s d = (fst st, (snd st)(s := snd st s @ d))"
  by (simp add: put_def)

lemma tee_loop_view:
  assumes "pipe_law os peer cap view" "length msg \<le> cap"
  shows "\<forall>(r, s) \<in> set ps. peer s = Some r \<Longrightarrow> distinct (src # map fst ps) \<Longrightarrow> fst (view w) src = msg
    \<Longrightarrow> \<forall>r \<in> set (map fst ps). fst (view w) r = []
    \<Longrightarrow> view (tee_loop os src (map snd ps) (length msg) w)
        = (\<lambda>x. if x \<in> set (map fst ps) then msg else fst (view w) x, snd (view w))"
proof (induction ps arbitrary: w)
  case Nil
  then show ?case by simp
next
  case (Cons p ps)
  obtain r s where p: "p = (r, s)" by (cases p)
  let ?w = "snd (sys_tee os src s (length msg) w)"
  have "room peer cap (view w) s (length msg)"
    using Cons.prems p assms(2) by (simp add: room_def)
  from pipe_law_tee [OF assms(1) this, of src] Cons.prems p
  have v: "view ?w = ((fst (view w))(r := msg), snd (view w))" by (simp add: put_pipe)
  have "view (tee_loop os src (map snd ps) (length msg) ?w)
      = (\<lambda>x. if x \<in> set (map fst ps) then msg else fst (view ?w) x, snd (view ?w))"
    using Cons.prems p v by (intro Cons.IH) auto
  with v p show ?case by (auto simp: fun_eq_iff)
qed

text \<open>Duplicating a message into all pipes takes it out of the source.\<close>

lemma duplicate_view:
  assumes "pipe_law os peer cap view" "length msg \<le> cap" "pipes_ok peer (src, dst) ps" "ps \<noteq> []"
    "fst (view w) src = msg" "\<forall>r \<in> set (map fst ps). fst (view w) r = []"
  shows "view (snd (sys_splice os src (last (map snd ps)) (length msg)
            (tee_loop os src (butlast (map snd ps)) (length msg) w)))
    = (\<lambda>x. if x \<in> set (map fst ps) then msg else if x = src then [] else fst (view w) x, snd (view w))"
proof -
  obtain qs r s where ps: "ps = qs @ [(r, s)]" using assms(4) by (metis rev_exhaust surj_pair)
  let ?w = "tee_loop os src (map snd qs) (length msg) w"
  have v: "view ?w = (\<lambda>x. if x \<in> set (map fst qs) then msg else fst (view w) x, snd (view w))"
    using assms(3,5,6) ps by (intro tee_loop_view [OF assms(1,2)]) (auto simp: pipes_ok_def)
  have r: "r \<notin> fst ` set qs" "peer s = Some r" "src \<notin> fst ` set qs" "r \<noteq> src" "fst (view w) r = []"
    using assms(3,6) ps by (auto simp: pipes_ok_def)
  then have "room peer cap (view ?w) s (length msg)" using assms(2) v by (auto simp: room_def)
  from pipe_law_splice [OF assms(1) this, of src] v r assms(5) ps show ?thesis
    by (auto simp: put_pipe fun_eq_iff butlast_append)
qed

lemma splice_all_view:
  assumes "pipe_law os peer cap view"
  shows "distinct (map (fst \<circ> fst) ms) \<Longrightarrow> \<forall>((r, s), fd) \<in> set ms. peer fd = None \<and> fst (view w) r = msg
    \<Longrightarrow> view (ZeroCopy_splice os (length msg) ms w)
        = (\<lambda>x. if x \<in> set (map (fst \<circ> fst) ms) then [] else fst (view w) x, fan_out msg (map snd ms) (snd (view w)))"
proof (induction ms arbitrary: w)
  case Nil
  then show ?case by simp
next
  case (Cons m ms)
  obtain r s fd where m: "m = ((r, s), fd)" by (metis surj_pair)
  let ?w = "snd (sys_splice os r fd (length msg) w)"
  have "room peer cap (view w) fd (length msg)" using Cons.prems m by (simp add: room_def)
  from pipe_law_splice [OF assms this, of r] Cons.prems m
  have v: "view ?w = ((fst (view w))(r := []), (snd (view w))(fd := snd (view w) fd @ msg))"
    by (simp add: put_socket)
  have "view (ZeroCopy_splice os (length msg) ms ?w)
      = (\<lambda>x. if x \<in> set (map (fst \<circ> fst) ms) then [] else fst (view ?w) x, fan_out msg (map snd ms) (snd (view ?w)))"
    using Cons.prems m v by (intro Cons.IH) force+
  with v m show ?case by (auto simp: fun_eq_iff)
qed

lemma splice_loop_eq:
  "\<forall>m \<in> set ms. desc (snd m) = Some (fd_of (snd m)) \<Longrightarrow>
    splice_loop os desc ms n w = Inr (ZeroCopy_splice os n (map (\<lambda>m. (fst m, fd_of (snd m))) ms) w)"
  by (induction ms arbitrary: w) auto

definition group_ok :: "(fd \<Rightarrow> fd option) \<Rightarrow> (conn_ptr \<Rightarrow> fd option) \<Rightarrow> (fd \<Rightarrow> bytes) \<Rightarrow> BroadcastGroup \<Rightarrow> bool" where
  "group_ok peer desc q g \<longleftrightarrow>
     fst (pipefd g) \<noteq> -1 \<and> snd (pipefd g) \<noteq> -1 \<and> pipes_ok peer (pipefd g) (map fst (connections g))
   \<and> (\<forall>p \<in> set (pipefd g # map fst (connections g)). q (fst p) = [])
   \<and> (\<forall>m \<in> set (connections g). \<exists>fd. desc (snd m) = Some fd \<and> peer fd = None)"

definition member_fds :: "(conn_ptr \<Rightarrow> fd option) \<Rightarrow> BroadcastGroup \<Rightarrow> fd list" where
  "member_fds desc g = map (\<lambda>m. the (desc (snd m))) (connections g)"

text \<open>Both writes of a broadcast land in the group's pipe.\<close>

lemma broadcast_writes:
  assumes "pipe_law os peer cap view" "peer s = Some r" "fst (view w) r = []" "length h + length d \<le> cap"
  obtains w1 w2 where "sys_write os s h w = (Wrote (length h), w1)" "sys_write os s d w1 = (Wrote (length d), w2)"
    "view w2 = ((fst (view w))(r := h @ d), snd (view w))"
proof -
  have "room peer cap (view w) s (length h)" using assms by (simp add: room_def)
  from pipe_law_write [OF assms(1) this] obtain w1 where w1: "sys_write os s h w = (Wrote (length h), w1)"
    "view w1 = put peer (view w) s h" .
  then have v1: "view w1 = ((fst (view w))(r := h), snd (view w))" using assms by (simp add: put_pipe)
  then have "room peer cap (view w1) s (length d)" using assms by (simp add: room_def)
  from pipe_law_write [OF assms(1) this] obtain w2 where w2: "sys_write os s d w1 = (Wrote (length d), w2)"
    "view w2 = put peer (view w1) s d" .
  then have "view w2 = ((fst (view w))(r := h @ d), snd (view w))" using v1 assms by (simp add: put_pipe)
  with that w1(1) w2(1) show thesis by blast
qed

lemma Broadcast_split:
  assumes "pipefd g = (r, s)" "r \<noteq> -1" "s \<noteq> -1" "connections g \<noteq> []"
    "sys_write os s (ws_header (of_nat (length data)) ty) w = (Wrote k1, w1)" "sys_write os s data w1 = (Wrote k2, w2)"
  shows "Broadcast os desc data ty g w =
    (let n = length (ws_header (of_nat (length data)) ty) + length data;
         ends = map snd (map fst (connections g))
     in rbind (splice_loop os desc (connections g) n
          (snd (sys_splice os r (last ends) n (tee_loop os r (butlast ends) n w2)))) (\<lambda>w5. Inr (0, w5)))"
proof -
  obtain h k where hk: "MakeWebsocketHeader (of_nat (length data)) ty = (h, k)" by fastforce
  have "k \<le> length h" using hk by (auto simp: MakeWebsocketHeader_def Let_def split: if_splits)
  then have "length (ws_header (of_nat (length data)) ty) = k" "ws_header (of_nat (length data)) ty = take k h"
    by (simp_all add: ws_header_def hk)
  with assms hk show ?thesis by (simp add: Broadcast_def Let_def)
qed

section \<open>A kernel with pipes\<close>

text \<open>The write end of a pipe is one above its read end; pipe descriptors start at 1000.\<close>

definition sim_peer :: "fd \<Rightarrow> fd option" where
  "sim_peer fd = (if fd \<ge> 1000 \<and> odd fd then Some (fd - 1) else None)"

definition k_put :: "fd \<Rightarrow> bytes \<Rightarrow> kernel \<Rightarrow> kernel" where
  "k_put fd d k =
     (case sim_peer fd of
        Some r \<Rightarrow> k\<lparr>k_pipe := (k_pipe k)(r := k_pipe k r @ d)\<rparr>
      | None \<Rightarrow> k\<lparr>k_output := (k_output k)(fd := k_output k fd @ d)\<rparr>)"

definition pipe_os :: "kernel os" where
  "pipe_os = sim_os\<lparr>
     sys_write := \<lambda>fd d k. (Wrote (length d), k_put fd d k),
     sys_tee := \<lambda>r s n k. (Wrote (min n (length (k_pipe k r))), k_put s (take n (k_pipe k r)) k),
     sys_splice := \<lambda>r s n k. (Wrote (min n (length (k_pipe k r))),
       k_put s (take n (k_pipe k r)) (k\<lparr>k_pipe := (k_pipe k)(r := drop n (k_pipe k r))\<rparr>))\<rparr>"

definition k_view :: "kernel \<Rightarrow> streams" where
  "k_view k = (k_pipe k, k_output k)"

lemma sim_pipe_law: "pipe_law pipe_os sim_peer cap k_view"
  by (auto simp: pipe_law_def pipe_os_def k_view_def k_put_def put_def split: option.splits)

text \<open>Two members on the sockets 7 and 8.\<close>

definition sim_group :: BroadcastGroup where
  "sim_group = \<lparr>pipefd = (1000, 1001), connections = [((1002, 1003), 1), ((1004, 1005), 2)]\<rparr>"

definition sim_desc :: "conn_ptr \<Rightarrow> fd option" where
  "sim_desc p = (if p = 1 then Some 7 else if p = 2 then Some 8 else None)"

lemma sim_group_ok: "group_ok sim_peer sim_desc (fst (k_view k0)) sim_group"
  by (auto simp: group_ok_def pipes_ok_def sim_group_def sim_peer_def sim_desc_def k_view_def k0_def)

lemma splice_loop_stale:
  "m \<in> set ms \<Longrightarrow> desc (snd m) = None \<Longrightarrow> splice_loop os desc ms n w = Inl UseAfterFree"
  by (induction ms arbitrary: w) (auto split: option.splits)

lemma erase_first_append:
  "p \<notin> snd ` set ms \<Longrightarrow> erase_first p (ms @ [(x, p)]) = Some ((x, p), ms)"
  by (induction ms) auto

lemma erase_first_None: "p \<notin> snd ` set ms \<Longrightarrow> erase_first p ms = None"
  by (induction ms) auto

lemma Broadcast_stale:
  assumes "pipe_law os peer cap view" "pipefd g = (r, s)" "r \<noteq> -1" "s \<noteq> -1" "peer s = Some r" "fst (view w) r = []"
    "length (ws_header (of_nat (length data)) ty) + length data \<le> cap"
    "m \<in> set (connections g)" "desc (snd m) = None"
  shows "Broadcast os desc data ty g w = Inl UseAfterFree"
proof -
  obtain w1 w2 where wr: "sys_write os s (ws_header (of_nat (length data)) ty) w = (Wrote (length (ws_header (of_nat (length data)) ty)), w1)"
    "sys_write os s data w1 = (Wrote (length data), w2)"
    using broadcast_writes [OF assms(1,5-7)] by metis
  have "connections g \<noteq> []" using assms(8) by auto
  from Broadcast_split [OF assms(2-4) this wr, of desc] show ?thesis
    using assms(8,9) by (simp add: Let_def splice_loop_stale [of m "connections g" desc])
qed

text \<open>A whole broadcast on a group whose pipes are in order.\<close>

lemma Broadcast_group:
  assumes "pipe_law os peer cap view" "group_ok peer desc (fst (view w)) g" "connections g \<noteq> []"
    "length data < 65535" "length (server_frame ty True data) \<le> cap"
  shows "\<exists>w'. Broadcast os desc data ty g w = Inr (0, w')
    \<and> view w' = (fst (view w), fan_out (server_frame ty True data) (member_fds desc g) (snd (view w)))"
proof -
  obtain r s where rs: "pipefd g = (r, s)" by (cases "pipefd g")
  let ?h = "ws_header (of_nat (length data)) ty" and ?ms = "connections g" and ?ps = "map fst (connections g)"
  let ?msg = "server_frame ty True data"
  have msg: "?h @ data = ?msg" using ws_header_frame [OF assms(4)] .
  then have len: "length ?h + length data = length ?msg" by (metis length_append)
  from assms(2) rs have ok: "r \<noteq> -1" "s \<noteq> -1" "pipes_ok peer (r, s) ?ps" "fst (view w) r = []" "peer s = Some r"
    "\<forall>x \<in> set (map fst ?ps). fst (view w) x = []" by (auto simp: group_ok_def pipes_ok_def)
  obtain w1 w2 where w: "sys_write os s ?h w = (Wrote (length ?h), w1)" "sys_write os s data w1 = (Wrote (length data), w2)"
    "view w2 = ((fst (view w))(r := ?msg), snd (view w))"
    using broadcast_writes [OF assms(1) ok(5,4), of ?h data] assms(5) len msg by metis
  have ne: "?ps \<noteq> []" "fst (view w2) r = ?msg" "\<forall>x \<in> set (map fst ?ps). fst (view w2) x = []"
    using assms(3) ok(3,6) w(3) by (auto simp: pipes_ok_def)
  let ?w3 = "snd (sys_splice os r (last (map snd ?ps)) (length ?msg) (tee_loop os r (butlast (map snd ?ps)) (length ?msg) w2))"
  note v3 = duplicate_view [OF assms(1,5) ok(3) ne]
  let ?zs = "map (\<lambda>m. (fst m, the (desc (snd m)))) ?ms"
  have live: "\<forall>m \<in> set ?ms. desc (snd m) = Some (the (desc (snd m))) \<and> peer (the (desc (snd m))) = None"
    using assms(2) by (auto simp: group_ok_def)
  have B: "Broadcast os desc data ty g w = Inr (0, ZeroCopy_splice os (length ?msg) ?zs ?w3)"
    using Broadcast_split [OF rs ok(1,2) assms(3) w(1,2), of desc] len
      splice_loop_eq [of ?ms desc "\<lambda>p. the (desc p)" os "length ?msg" ?w3] live by (simp add: Let_def)
  have "\<forall>m \<in> set ?ms. fst (view ?w3) (fst (fst m)) = ?msg" using v3 by simp
  with live have fm: "\<forall>((r, s), fd) \<in> set ?zs. peer fd = None \<and> fst (view ?w3) r = ?msg" by fastforce
  have "view (ZeroCopy_splice os (length ?msg) ?zs ?w3)
      = (\<lambda>x. if x \<in> set (map (fst \<circ> fst) ?zs) then [] else fst (view ?w3) x, fan_out ?msg (map snd ?zs) (snd (view ?w3)))"
    using ok(3) by (intro splice_all_view [OF assms(1) _ fm]) (simp add: pipes_ok_def comp_def)
  moreover have "map snd ?zs = member_fds desc g" by (simp add: member_fds_def comp_def)
  ultimately have "view (ZeroCopy_splice os (length ?msg) ?zs ?w3)
      = (fst (view w), fan_out ?msg (member_fds desc g) (snd (view w)))"
    using v3 w(3) ok(4,6) by (auto simp: fun_eq_iff)
  with B show ?thesis by blast
qed

section \<open>Properties\<close>

text \<open>
  C7. A broadcast is equivalent to writing the frame to every member: on a group whose pipes are
  its own, empty and large enough, and whose members are alive, \<open>Broadcast\<close> returns 0, every member's
  socket gets exactly the WebSocket frame of the message, no other stream changes and all pipes
  are empty again.
\<close>

theorem broadcast_delivers:
  assumes "pipe_law os peer cap view" "group_ok peer desc (fst (view w)) g" "connections g \<noteq> []"
    "length data < 65535" "length (server_frame ty True data) \<le> cap"
  shows "\<exists>w'. Broadcast os desc data ty g w = Inr (0, w')
    \<and> view w' = (fst (view w), fan_out (server_frame ty True data) (member_fds desc g) (snd (view w)))"
  using assms by (rule Broadcast_group)

theorem broadcast_delivers_witness:
  "\<exists>w'. Broadcast pipe_os sim_desc ''hi'' kTypeText sim_group k0 = Inr (0, w')
    \<and> k_view w' = (fst (k_view k0), fan_out (server_frame kTypeText True ''hi'') [7, 8] (snd (k_view k0)))"
proof -
  have "member_fds sim_desc sim_group = [7, 8]" by (simp add: member_fds_def sim_group_def sim_desc_def)
  moreover have "connections sim_group \<noteq> []" by (simp add: sim_group_def)
  ultimately show ?thesis
    using broadcast_delivers [OF sim_pipe_law sim_group_ok, of "''hi''" kTypeText 100]
    by (simp add: server_frame_def len_ext_def)
qed

text \<open>
  A member that was destroyed without leaving the group is dereferenced by the next broadcast:
  neither closing a connection nor destroying it removes it from the groups it joined.
\<close>

theorem broadcast_stale_member:
  assumes "pipe_law os peer cap view" "pipefd g = (r, s)" "r \<noteq> -1" "s \<noteq> -1" "peer s = Some r" "fst (view w) r = []"
    "length (ws_header (of_nat (length data)) ty) + length data \<le> cap"
    "m \<in> set (connections g)" "desc (snd m) = None"
  shows "Broadcast os desc data ty g w = Inl UseAfterFree"
  using assms by (rule Broadcast_stale)

theorem broadcast_stale_member_witness:
  "Broadcast pipe_os (\<lambda>p. if p = 1 then Some 7 else None) ''hi'' kTypeText sim_group k0 = Inl UseAfterFree"
  by (rule broadcast_stale_member [OF sim_pipe_law, where cap = 100 and m = "((1004, 1005), 2)" and r = 1000 and s = 1001])
    (auto simp: sim_group_def sim_peer_def k_view_def k0_def ws_header_def MakeWebsocketHeader_def)

text \<open>
  C33. Joining appends the connection with a pipe of its own and leaving undoes it: after \<open>Join\<close> has
  returned 0 for a connection that was not a member, \<open>Leave\<close> returns 0, the members are as before and
  both ends of the pipe are closed; leaving again returns -1 and changes nothing.
\<close>

theorem join_then_leave:
  assumes "Join os desc (Some p) g w = Inr (0, g', w')" "p \<notin> snd ` set (connections g)"
  shows "\<exists>r s. connections g' = connections g @ [((r, s), p)]
    \<and> Leave os p g' w'' = (0, g, sys_close os s (sys_close os r w'')) \<and> Leave os p g w'' = (-1, g, w'')"
proof -
  obtain r s where g': "g' = g\<lparr>connections := connections g @ [((r, s), p)]\<rparr>"
    using assms(1) by (auto simp: Join_def Let_def split: option.splits prod.splits)
  have "erase_first p (connections g) = None" using assms(2) by (rule erase_first_None)
  with g' assms(2) show ?thesis by (simp add: Leave_def erase_first_append)
qed

theorem join_then_leave_witness:
  "\<exists>g' w' r s. Join pipe_os sim_desc (Some 1) (sim_group\<lparr>connections := []\<rparr>) (k0\<lparr>k_next_fd := 1002\<rparr>) = Inr (0, g', w')
    \<and> Leave pipe_os 1 g' w' = (0, sim_group\<lparr>connections := []\<rparr>, sys_close pipe_os s (sys_close pipe_os r w'))"
proof -
  obtain g' w' where "Join pipe_os sim_desc (Some 1) (sim_group\<lparr>connections := []\<rparr>) (k0\<lparr>k_next_fd := 1002\<rparr>) = Inr (0, g', w')"
    by (simp add: Join_def sim_desc_def pipe_os_def sim_os_def)
  from this join_then_leave [OF this, of w'] show ?thesis by auto
qed

end
