(* ===== verification/Hpl_Server.thy ===== *)
theory Hpl_Server
  imports Hpl_Broadcast Hpl_Response
begin

text \<open>
  The server, \<^verbatim>\<open>src/src/hpl_server.h\<close>, \<^verbatim>\<open>hpl_server.cc\<close> and \<^verbatim>\<open>hpl_request_handler.h\<close>: set-up, the event
  loop \<open>Poll\<close> with accepting, dispatching requests, upgrading and closing, and the table of request
  handlers. A connection lives at a pointer; a pointer that is in no list any more is dangling,
  and dereferencing it is the fault \<open>UseAfterFree\<close>. Callbacks are arguments: each gets the pointer of
  its connection and may change the whole server and the world, which is what
  \<^verbatim>\<open>Connection::Close\<close> lets it do.
\<close>

section \<open>Request handlers\<close>

record 'h RequestHandler =
  http_handlers :: "'h option list"
  ws_connect_hook :: "'h option"
  ws_ready_hook :: "'h option"
  ws_will_close_hook :: "'h option"
  ws_message_handler :: "'h option"

text \<open>\<^verbatim>\<open>Handler http_handlers[static_cast<int>(HttpMethod::UNKNOWN)] = {}\<close>\<close>

definition new_RequestHandler :: "'h RequestHandler" where
  "new_RequestHandler =
     \<lparr>http_handlers = replicate (method_index UNKNOWN_METHOD) None, ws_connect_hook = None, ws_ready_hook = None,
      ws_will_close_hook = None, ws_message_handler = None\<rparr>"

section \<open>The server object and what it is given\<close>

record 'h Server =
  poll_fd :: fd
  server_conn :: "(conn_ptr \<times> 'h Connection) option"
  pending_conns :: "(conn_ptr \<times> 'h Connection) list"
  request_handlers :: "(bytes \<times> 'h RequestHandler) list"
  next_ptr :: conn_ptr

definition new_Server :: "'h Server" where
  "new_Server = \<lparr>poll_fd = -1, server_conn = None, pending_conns = [], request_handlers = [], next_ptr = 1\<rparr>"

text \<open>
  The code around the server: the system calls, the user's callbacks, \<^verbatim>\<open>std::regex\<close> (a match, no match,
  or a pattern it throws on), SHA-1 with the array for the accept key, number formatting, and
  the fuel of the reading loop.
\<close>

record ('h, 'w) env =
  env_os :: "'w os"
  run_handler :: "'h \<Rightarrow> conn_ptr \<Rightarrow> bytes \<Rightarrow> bytes \<Rightarrow> bool \<Rightarrow> 'h Server \<Rightarrow> 'w \<Rightarrow> (int \<times> 'h Server \<times> 'w) res"
  run_hook :: "'h \<Rightarrow> conn_ptr \<Rightarrow> bytes \<Rightarrow> 'h Server \<Rightarrow> 'w \<Rightarrow> (int \<times> 'h Server \<times> 'w) res"
  run_ws :: "'h \<Rightarrow> conn_ptr \<Rightarrow> ws_type \<Rightarrow> bytes \<Rightarrow> 'h Server \<Rightarrow> 'w \<Rightarrow> (int \<times> 'h Server \<times> 'w) res"
  regex_match :: "bytes \<Rightarrow> bytes \<Rightarrow> bool option"
  sha1_of :: "bytes \<Rightarrow> bytes"
  hash_array :: bytes
  fmt_nat :: "nat \<Rightarrow> bytes"
  fuel :: nat

section \<open>Connections by pointer\<close>

definition conn_at :: "conn_ptr \<Rightarrow> 'h Server \<Rightarrow> 'h Connection res" where
  "conn_at p s =
     (case map_of (pending_conns s) p of
        Some c \<Rightarrow> Inr c
      | None \<Rightarrow> (case server_conn s of
          Some (q, c) \<Rightarrow> if q = p then Inr c else Inl UseAfterFree
        | None \<Rightarrow> Inl UseAfterFree))"

definition set_conn :: "conn_ptr \<Rightarrow> 'h Connection \<Rightarrow> 'h Server \<Rightarrow> 'h Server" where
  "set_conn p c s =
     s\<lparr>pending_conns := map (\<lambda>(q, d). (q, if q = p then c else d)) (pending_conns s),
       server_conn := map_option (\<lambda>(q, d). (q, if q = p then c else d)) (server_conn s)\<rparr>"

section \<open>Set-up\<close>

definition EPOLLIN :: "32 word" where "EPOLLIN = 1"

definition Init :: "'w os \<Rightarrow> string option \<Rightarrow> int \<Rightarrow> int \<Rightarrow> 'h Server \<Rightarrow> 'w \<Rightarrow> int \<times> 'h Server \<times> 'w" where
  "Init os addr port backlog s w =
     (case sys_epoll_create os w of
        (None, w1) \<Rightarrow> (-1, s\<lparr>poll_fd := -1\<rparr>, w1)
      | (Some ep, w1) \<Rightarrow>
     let s1 = s\<lparr>poll_fd := ep\<rparr> in
     case sys_socket os w1 of
        (None, w2) \<Rightarrow> (-2, s1, w2)
      | (Some fd, w2) \<Rightarrow>
     case sys_setsockopt os fd ''SO_REUSEADDR'' w2 of
        (False, w3) \<Rightarrow> (-3, s1, w3)
      | (True, w3) \<Rightarrow>
     case sys_setsockopt os fd ''SO_REUSEPORT'' w3 of
        (False, w4) \<Rightarrow> (-3, s1, w4)
      | (True, w4) \<Rightarrow>
     case sys_bind os fd addr (port mod 65536) w4 of
        (False, w5) \<Rightarrow> (-3, s1, w5)
      | (True, w5) \<Rightarrow>
     case sys_listen os fd backlog w5 of
        (False, w6) \<Rightarrow> (-4, s1, w6)
      | (True, w6) \<Rightarrow>
     let s2 = s1\<lparr>server_conn := Some (next_ptr s1, new_Connection fd), next_ptr := next_ptr s1 + 1\<rparr> in
     case sys_epoll_add os ep fd (next_ptr s1, EPOLLIN) w6 of
        (False, w7) \<Rightarrow> (-4, s2, w7)
      | (True, w7) \<Rightarrow> (0, s2, w7))"

section \<open>Handler table\<close>

text \<open>The loop that makes \<^verbatim>\<open>".*"\<close> of every \<^verbatim>\<open>'*'\<close>, stepping over what it inserted.\<close>

fun star_loop :: "bytes \<Rightarrow> bytes" where
  "star_loop [] = []"
| "star_loop (c # cs) = (if c = CHR ''*'' then CHR ''.'' # CHR ''*'' # star_loop cs else c # star_loop cs)"

definition RegisterRequestHandler :: "bytes \<Rightarrow> 'h RequestHandler \<Rightarrow> 'h Server \<Rightarrow> 'h Server" where
  "RegisterRequestHandler u handler s =
     s\<lparr>request_handlers := map_assign (star_loop u) handler (request_handlers s)\<rparr>"

fun find_loop ::
    "(bytes \<Rightarrow> bytes \<Rightarrow> bool option) \<Rightarrow> bytes \<Rightarrow> (bytes \<times> 'h RequestHandler) list \<Rightarrow> bytes option res" where
  "find_loop rx u [] = Inr None"
| "find_loop rx u ((k, h) # hs) =
     (case rx k u of
        None \<Rightarrow> Inl RegexError
      | Some True \<Rightarrow> Inr (Some k)
      | Some False \<Rightarrow> find_loop rx u hs)"

text \<open>The result is the iterator: the key of the entry, or \<^const>\<open>None\<close> for \<^verbatim>\<open>end()\<close>.\<close>

definition FindRequestHandler :: "('h, 'w) env \<Rightarrow> bytes \<Rightarrow> 'h Server \<Rightarrow> bytes option res" where
  "FindRequestHandler e u s = find_loop (regex_match e) (c_str u 0) (request_handlers s)"

definition handler_at :: "bytes \<Rightarrow> 'h Server \<Rightarrow> 'h RequestHandler res" where
  "handler_at k s = (case map_of (request_handlers s) k of Some h \<Rightarrow> Inr h | None \<Rightarrow> Inl UseAfterFree)"

section \<open>Closing and accepting\<close>

definition CloseConn :: "'w os \<Rightarrow> conn_ptr \<Rightarrow> 'h Server \<Rightarrow> 'w \<Rightarrow> (int \<times> 'h Server \<times> 'w) res" where
  "CloseConn os p s w =
     rbind (conn_at p s) (\<lambda>c.
       case sys_epoll_del os (poll_fd s) (c_fd c) w of
         (False, w1) \<Rightarrow> Inr (-1, s, w1)
       | (True, w1) \<Rightarrow>
           let (s1, w2) = (if c_fd c \<noteq> -1 then (set_conn p (c\<lparr>c_fd := -1\<rparr>) s, sys_close os (c_fd c) w1) else (s, w1))
           in Inr (0, s1\<lparr>pending_conns := filter (\<lambda>(q, _). q \<noteq> p) (pending_conns s1)\<rparr>, w2))"

definition AcceptNewConnection ::
    "'w os \<Rightarrow> 'h Server \<Rightarrow> 'w \<Rightarrow> ((conn_ptr \<times> 'h Connection) option \<times> 'h Server \<times> 'w) res" where
  "AcceptNewConnection os s w =
     (case server_conn s of
        None \<Rightarrow> Inl NullDeref
      | Some (_, sc) \<Rightarrow>
          case sys_accept os (c_fd sc) w of
            (None, w1) \<Rightarrow> Inr (None, s, w1)
          | (Some client_fd, w1) \<Rightarrow>
              case sys_setsockopt os client_fd ''SO_KEEPALIVE'' w1 of
                (False, w2) \<Rightarrow> Inr (None, s, w2)
              | (True, w2) \<Rightarrow>
                  let (_, w3) = setnonblocking os client_fd w2
                  in Inr (Some (next_ptr s, new_Connection client_fd), s\<lparr>next_ptr := next_ptr s + 1\<rparr>, w3))"

section \<open>The event loop\<close>

fun ping_loop ::
    "'w os \<Rightarrow> (conn_ptr \<times> 'h Connection) list \<Rightarrow> 'w \<Rightarrow> ((conn_ptr \<times> 'h Connection) list \<times> 'w) res" where
  "ping_loop os [] w = Inr ([], w)"
| "ping_loop os ((p, c) # cs) w =
     rbind (if ws_conn c \<noteq> None then ServerPing os c w else Inr (False, c, w)) (\<lambda>(_, c1, w1).
     rbind (ping_loop os cs w1) (\<lambda>(cs', w2). Inr ((p, c1) # cs', w2)))"

text \<open>Run a hook if there is one; \<open>n\<close> is the value otherwise.\<close>

definition opt_hook ::
    "('h, 'w) env \<Rightarrow> 'h option \<Rightarrow> int \<Rightarrow> conn_ptr \<Rightarrow> bytes \<Rightarrow> 'h Server \<Rightarrow> 'w \<Rightarrow> (int \<times> 'h Server \<times> 'w) res" where
  "opt_hook e hook n p u s w =
     (case hook of None \<Rightarrow> Inr (n, s, w) | Some h \<Rightarrow> run_hook e h p u s w)"

definition close_and_go :: "('h, 'w) env \<Rightarrow> conn_ptr \<Rightarrow> 'h Server \<Rightarrow> 'w \<Rightarrow> ('h Server \<times> 'w) res" where
  "close_and_go e p s w = rbind (CloseConn (env_os e) p s w) (\<lambda>(_, s1, w1). Inr (s1, w1))"

text \<open>A WebSocket that became readable: \<open>ws_conn_->Read()\<close> with its callback, then closing on -1.\<close>

definition ws_read_event :: "('h, 'w) env \<Rightarrow> conn_ptr \<Rightarrow> 'h Server \<Rightarrow> 'w \<Rightarrow> (int \<times> 'h Server \<times> 'w) res" where
  "ws_read_event e p s w =
     rbind (conn_at p s) (\<lambda>c.
     rbind (ws_receive (env_os e) c w) (\<lambda>(act, c1, w1).
       let s1 = set_conn p c1 s
       in case act of
            Ret r \<Rightarrow> Inr (r, s1, w1)
          | Call h op data \<Rightarrow>
              rbind (run_ws e h p op data s1 w1) (\<lambda>(r, s2, w2).
              rbind (conn_at p s2) (\<lambda>c2.
                Inr (r, set_conn p (set_ws (last_payload_update (\<lambda>_. [])) c2) s2, w2)))))"

definition handle_websocket :: "('h, 'w) env \<Rightarrow> conn_ptr \<Rightarrow> 'h Server \<Rightarrow> 'w \<Rightarrow> ('h Server \<times> 'w) res" where
  "handle_websocket e p s w =
     rbind (ws_read_event e p s w) (\<lambda>(ret, s1, w1).
       if ret = -1
       then rbind (conn_at p s1) (\<lambda>c.
            case ws_conn c of
              None \<Rightarrow> Inl NullDeref
            | Some ws \<Rightarrow>
                rbind (opt_hook e (will_close_hook ws) 0 p [] s1 w1) (\<lambda>(_, s2, w2). close_and_go e p s2 w2))
       else Inr (s1, w1))"

text \<open>
  The upgrade. The pointer returned by \<open>UpgradeToWebsocket\<close> is dereferenced without a test, first in
  the arguments of a log line. The headers of the answer are a \<^verbatim>\<open>std::map\<close>, so they come sorted.
\<close>

definition answer_upgrade ::
    "('h, 'w) env \<Rightarrow> conn_ptr \<Rightarrow> bytes \<Rightarrow> bytes \<Rightarrow> int \<Rightarrow> 'h Server \<Rightarrow> 'w \<Rightarrow> ('h Server \<times> 'w) res" where
  "answer_upgrade e p k u n s w =
     rbind (conn_at p s) (\<lambda>c.
     rbind (GetWsAccept (sha1_of e) (hash_array e) c) (\<lambda>(accept, c1).
     rbind (MakeResponse (fmt_nat e) 101 (version (c_parser c1))
             [(''Connection'', ''Upgrade''), (''Sec-WebSocket-Accept'', accept), (''Upgrade'', ''websocket'')] [])
       (\<lambda>switch_protocol_rsp.
     let w1 = snd (Connection_Write (env_os e) switch_protocol_rsp c1 w);
         s1 = set_conn p c1 s
     in rbind (handler_at k s1) (\<lambda>hs.
        rbind (opt_hook e (ws_ready_hook hs) n p u s1 w1) (\<lambda>(n', s2, w2).
        if n' = -1 then close_and_go e p s2 w2 else Inr (s2, w2))))))"

definition handle_upgrade ::
    "('h, 'w) env \<Rightarrow> conn_ptr \<Rightarrow> bytes \<Rightarrow> bytes \<Rightarrow> 'h Server \<Rightarrow> 'w \<Rightarrow> ('h Server \<times> 'w) res" where
  "handle_upgrade e p k u s w =
     rbind (conn_at p s) (\<lambda>c.
     rbind (handler_at k s) (\<lambda>hs.
     case UpgradeToWebsocket (env_os e) (ws_message_handler hs) (ws_will_close_hook hs) c w of
       (not_null, c1, w1) \<Rightarrow>
         if \<not> not_null then Inl NullDeref
         else rbind (GetWsAccept (sha1_of e) (hash_array e) c1) (\<lambda>(_, c2).
              rbind (opt_hook e (ws_connect_hook hs) 0 p u (set_conn p c2 s) w1) (\<lambda>(n, s2, w2).
              if n = -1 then close_and_go e p s2 w2 else answer_upgrade e p k u n s2 w2))))"

text \<open>A request whose headers are complete (\<open>ret\<close> is 0 or 1).\<close>

definition handle_request ::
    "('h, 'w) env \<Rightarrow> conn_ptr \<Rightarrow> int \<Rightarrow> 'h Server \<Rightarrow> 'w \<Rightarrow> ('h Server \<times> 'w) res" where
  "handle_request e p ret s w =
     rbind (conn_at p s) (\<lambda>c.
     let u = uri (c_parser c);
         m = http_method (c_parser c)
     in rbind (FindRequestHandler e u s) (\<lambda>found.
        case found of
          Some k \<Rightarrow>
            if ShouldUpgradeWebsocket c then handle_upgrade e p k u s w
            else rbind (handler_at k s) (\<lambda>hs.
                 if method_index m < length (http_handlers hs)
                 then rbind (case http_handlers hs ! method_index m of
                               None \<Rightarrow> Inr (-1, s, w)
                             | Some h \<Rightarrow> run_handler e h p u (PopBody c) (ret = 1) s w) (\<lambda>(handler_ret, s1, w1).
                      if handler_ret = -1 then close_and_go e p s1 w1 else Inr (s1, w1))
                 else Inl Oob)
        | None \<Rightarrow>
            rbind (MakeResponse (fmt_nat e) 404 (version (c_parser c)) [] []) (\<lambda>rsp_404.
            let (_, w1) = Connection_Write (env_os e) rsp_404 c w
            in close_and_go e p s w1)))"

definition handle_http :: "('h, 'w) env \<Rightarrow> conn_ptr \<Rightarrow> 'h Server \<Rightarrow> 'w \<Rightarrow> ('h Server \<times> 'w) res" where
  "handle_http e p s w =
     rbind (conn_at p s) (\<lambda>c.
       case ProcessDataIn (fuel e) (env_os e) c w of
         None \<Rightarrow> Inl Diverges
       | Some r \<Rightarrow>
           rbind r (\<lambda>(ret, c1, w1).
             let s1 = set_conn p c1 s
             in if ret = -2 then close_and_go e p s1 w1
                else if ret = -1 then Inr (s1, w1)
                else if ret = 0 \<or> ret = 1 then handle_request e p ret s1 w1
                else Inr (s1, w1)))"

text \<open>The branch of \<open>Poll\<close> for the listening socket: \<open>Some r\<close> when \<open>Poll\<close> returns \<open>r\<close> from inside the loop.\<close>

definition handle_accept :: "('h, 'w) env \<Rightarrow> 'h Server \<Rightarrow> 'w \<Rightarrow> (int option \<times> 'h Server \<times> 'w) res" where
  "handle_accept e s w =
     rbind (AcceptNewConnection (env_os e) s w) (\<lambda>(new_conn, s1, w1).
       case new_conn of
         None \<Rightarrow> Inr (None, s1, w1)
       | Some (p, c) \<Rightarrow>
           case sys_epoll_add (env_os e) (poll_fd s1) (c_fd c) (p, EPOLLIN) w1 of
             (False, w2) \<Rightarrow> Inr (Some (-4), s1, w2)
           | (True, w2) \<Rightarrow> Inr (None, s1\<lparr>pending_conns := pending_conns s1 @ [(p, c)]\<rparr>, w2))"

definition handle_event :: "('h, 'w) env \<Rightarrow> epoll_entry \<Rightarrow> 'h Server \<Rightarrow> 'w \<Rightarrow> (int option \<times> 'h Server \<times> 'w) res" where
  "handle_event e ev s w =
     (case ev of (p, events) \<Rightarrow>
        if map_option fst (server_conn s) = Some p then handle_accept e s w
        else rbind (conn_at p s) (\<lambda>c.
             if events AND EPOLLIN \<noteq> 0
             then rbind (if ws_conn c \<noteq> None then handle_websocket e p s w else handle_http e p s w)
                    (\<lambda>(s1, w1). Inr (None, s1, w1))
             else Inr (None, s, w)))"

fun event_loop ::
    "('h, 'w) env \<Rightarrow> epoll_entry list \<Rightarrow> 'h Server \<Rightarrow> 'w \<Rightarrow> (int option \<times> 'h Server \<times> 'w) res" where
  "event_loop e [] s w = Inr (None, s, w)"
| "event_loop e (ev # evs) s w =
     rbind (handle_event e ev s w) (\<lambda>(r, s1, w1).
       case r of Some x \<Rightarrow> Inr (Some x, s1, w1) | None \<Rightarrow> event_loop e evs s1 w1)"

definition max_events :: nat where "max_events = 10"

definition Poll :: "('h, 'w) env \<Rightarrow> int \<Rightarrow> 'h Server \<Rightarrow> 'w \<Rightarrow> (int \<times> 'h Server \<times> 'w) res" where
  "Poll e timeout s w =
     rbind (ping_loop (env_os e) (pending_conns s) w) (\<lambda>(conns, w1).
     let s1 = s\<lparr>pending_conns := conns\<rparr>
     in case sys_epoll_wait (env_os e) (poll_fd s1) max_events timeout w1 of
          (None, w2) \<Rightarrow> Inr (-1, s1, w2)
        | (Some events, w2) \<Rightarrow>
            rbind (event_loop e events s1 w2) (\<lambda>(r, s2, w3).
              Inr (case r of Some x \<Rightarrow> x | None \<Rightarrow> int (length events), s2, w3)))"

section \<open>Outcomes without dangling pointers\<close>

text \<open>The outcome is not a use after free, and a normal result satisfies the postcondition.\<close>

definition alive :: "('a \<Rightarrow> bool) \<Rightarrow> 'a res \<Rightarrow> bool" where
  "alive P m = (case m of Inl f \<Rightarrow> f \<noteq> UseAfterFree | Inr x \<Rightarrow> P x)"

lemma alive_Inr [simp]: "alive P (Inr x) = P x"
  by (simp add: alive_def)

lemma alive_Inl [simp]: "alive P (Inl f) \<longleftrightarrow> f \<noteq> UseAfterFree"
  by (simp add: alive_def)

lemma alive_bind: "alive P m \<Longrightarrow> (\<And>x. P x \<Longrightarrow> alive Q (f x)) \<Longrightarrow> alive Q (rbind m f)"
  by (cases m) simp_all

lemma alive_mono: "alive P m \<Longrightarrow> (\<And>x. P x \<Longrightarrow> Q x) \<Longrightarrow> alive Q m"
  by (cases m) simp_all

text \<open>Steps that look at no pointer never report a dangling one.\<close>

lemma alive_vat: "alive (\<lambda>_. True) (vat v i)"
  by (simp add: vat_def)

lemma alive_peek: "alive (\<lambda>_. True) (peek s i)"
  by (simp add: peek_def)

lemma alive_load32: "alive (\<lambda>_. True) (load32 s i)"
  unfolding load32_def by (intro alive_bind [OF alive_peek]) simp

lemma alive_store: "alive (\<lambda>_. True) (store d j c)"
  by (simp add: store_def)

section \<open>The server's invariant\<close>

definition ptrs :: "'h Server \<Rightarrow> conn_ptr list" where
  "ptrs s = map fst (pending_conns s)"

definition table_ok :: "(bytes \<times> 'h RequestHandler) list \<Rightarrow> bool" where
  "table_ok t \<longleftrightarrow> map_wf t \<and> (\<forall>(k, h) \<in> set t. length (http_handlers h) = method_index UNKNOWN_METHOD)"

definition server_ok :: "'h Server \<Rightarrow> bool" where
  "server_ok s \<longleftrightarrow>
     distinct (ptrs s) \<and> (\<forall>p \<in> set (ptrs s). p < next_ptr s)
   \<and> (\<forall>q c. server_conn s = Some (q, c) \<longrightarrow> q < next_ptr s \<and> q \<notin> set (ptrs s))
   \<and> (\<forall>(p, c) \<in> set (pending_conns s). conn_ok c)
   \<and> table_ok (request_handlers s)"

text \<open>Nothing was closed or accepted, and the handlers are still registered.\<close>

definition calm :: "'h Server \<Rightarrow> 'h Server \<Rightarrow> bool" where
  "calm s s' \<longleftrightarrow> server_ok s' \<and> set (ptrs s') = set (ptrs s)
     \<and> map_option fst (server_conn s') = map_option fst (server_conn s)
     \<and> fst ` set (request_handlers s) \<subseteq> fst ` set (request_handlers s')"

text \<open>At most the connection \<open>p\<close> was closed.\<close>

definition served :: "conn_ptr \<Rightarrow> 'h Server \<Rightarrow> 'h Server \<Rightarrow> bool" where
  "served p s s' \<longleftrightarrow> server_ok s' \<and> set (ptrs s) - {p} \<subseteq> set (ptrs s') \<and> set (ptrs s') \<subseteq> set (ptrs s)
     \<and> map_option fst (server_conn s') = map_option fst (server_conn s)"

text \<open>
  What the library asks of callbacks (the note at \<^verbatim>\<open>Connection::Close\<close>): they may write, keep notes,
  register handlers, but neither close a connection nor touch a dead one.
\<close>

definition callbacks_law :: "('h, 'w) env \<Rightarrow> bool" where
  "callbacks_law e \<longleftrightarrow>
     (\<forall>h p u body final s w. server_ok s \<and> p \<in> set (ptrs s) \<longrightarrow>
        alive (\<lambda>(_, s', _). calm s s') (run_handler e h p u body final s w))
   \<and> (\<forall>h p u s w. server_ok s \<and> p \<in> set (ptrs s) \<longrightarrow> alive (\<lambda>(_, s', _). calm s s') (run_hook e h p u s w))
   \<and> (\<forall>h p op d s w. server_ok s \<and> p \<in> set (ptrs s) \<longrightarrow> alive (\<lambda>(_, s', _). calm s s') (run_ws e h p op d s w))"

lemma calm_refl: "server_ok s \<Longrightarrow> calm s s"
  by (simp add: calm_def)

lemma calm_trans: "calm s s1 \<Longrightarrow> calm s1 s2 \<Longrightarrow> calm s s2"
  by (simp add: calm_def) blast

lemma calm_served: "calm s s' \<Longrightarrow> served p s s'"
  by (auto simp: calm_def served_def)

lemma calm_served_trans: "calm s s1 \<Longrightarrow> served p s1 s2 \<Longrightarrow> served p s s2"
  by (auto simp: calm_def served_def)

lemma conn_at_live:
  assumes "server_ok s" "p \<in> set (ptrs s)"
  shows "alive (\<lambda>c. (p, c) \<in> set (pending_conns s) \<and> conn_ok c) (conn_at p s)"
proof -
  from assms(2) obtain c where "map_of (pending_conns s) p = Some c"
    by (auto simp: ptrs_def dest!: weak_map_of_SomeI)
  moreover from this have "(p, c) \<in> set (pending_conns s)" by (rule map_of_SomeD)
  ultimately show ?thesis using assms(1) by (auto simp: conn_at_def server_ok_def)
qed

lemma ptrs_set_conn [simp]: "ptrs (set_conn p c s) = ptrs s"
  by (simp add: ptrs_def set_conn_def comp_def split_beta)

lemma set_conn_calm:
  assumes "server_ok s" "conn_ok c"
  shows "calm s (set_conn p c s)"
proof -
  have "map_option fst (server_conn (set_conn p c s)) = map_option fst (server_conn s)"
    by (cases "server_conn s") (auto simp: set_conn_def)
  moreover have "server_ok (set_conn p c s)"
    using assms ptrs_set_conn [of p c s] unfolding server_ok_def
    by (auto simp: set_conn_def)
  ultimately show ?thesis by (simp add: calm_def) (simp add: set_conn_def)
qed

lemma filter_replaced [simp]:
  "filter (\<lambda>(q, _). q \<noteq> p) (map (\<lambda>(q, d). (q, if q = p then c else d)) cs) = filter (\<lambda>(q, _). q \<noteq> p) cs"
  by (induction cs) auto

lemma handler_at_live:
  assumes "server_ok s" "k \<in> fst ` set (request_handlers s)"
  shows "alive (\<lambda>h. length (http_handlers h) = method_index UNKNOWN_METHOD) (handler_at k s)"
proof -
  from assms(2) obtain h where h: "map_of (request_handlers s) k = Some h"
    by (auto dest!: weak_map_of_SomeI)
  then have "(k, h) \<in> set (request_handlers s)" by (rule map_of_SomeD)
  with h assms(1) show ?thesis by (auto simp: handler_at_def server_ok_def table_ok_def)
qed

lemma CloseConn_served:
  assumes "server_ok s" "p \<in> set (ptrs s)"
  shows "alive (\<lambda>(r, s', w'). served p s s') (CloseConn os p s w)"
  unfolding CloseConn_def
proof (rule alive_bind [OF conn_at_live [OF assms]], elim conjE)
  fix c assume c: "(p, c) \<in> set (pending_conns s)" "conn_ok c"
  have ok: "conn_ok (c\<lparr>c_fd := -1\<rparr>)" using c(2) by (simp add: conn_ok_def)
  have del: "served p s (s'\<lparr>pending_conns := filter (\<lambda>(q, _). q \<noteq> p) (pending_conns s')\<rparr>)" if "calm s s'" for s'
    using that by (auto simp: calm_def served_def server_ok_def ptrs_def distinct_map_filter split_beta)
  show "alive (\<lambda>(r, s', w'). served p s s')
      (case sys_epoll_del os (poll_fd s) (c_fd c) w of
         (False, w1) \<Rightarrow> Inr (-1, s, w1)
       | (True, w1) \<Rightarrow>
           let (s1, w2) = (if c_fd c \<noteq> -1 then (set_conn p (c\<lparr>c_fd := -1\<rparr>) s, sys_close os (c_fd c) w1) else (s, w1))
           in Inr (0, s1\<lparr>pending_conns := filter (\<lambda>(q, _). q \<noteq> p) (pending_conns s1)\<rparr>, w2))"
    using del [OF calm_refl [OF assms(1)]] del [OF set_conn_calm [OF assms(1) ok, of p]] calm_served [OF calm_refl [OF assms(1)]]
    by (auto simp: Let_def split: prod.split bool.split)
qed

section \<open>Parsing and decoding touch no pointer\<close>

lemma alive_skip_spaces: "alive (\<lambda>_. True) (skip_spaces line pos)"
proof (induction line pos rule: skip_spaces.induct)
  case (1 line pos)
  show ?case
  proof (cases "peek line pos")
    case (Inr c)
    with 1 show ?thesis by (simp add: skip_spaces.simps [of line pos])
  qed (use alive_peek [of line pos] in \<open>simp add: skip_spaces.simps [of line pos]\<close>)
qed

lemma alive_ParseHttpVersion: "alive (\<lambda>_. True) (ParseHttpVersion s off e)"
  unfolding ParseHttpVersion_def HttpVersion_number_def WsVersion_def
  by (intro alive_bind [OF alive_load32]) (auto intro!: alive_bind [OF alive_load32] simp: Let_def)

lemma alive_ParseFirstLine: "alive (\<lambda>_. True) (ParseFirstLine line)"
proof -
  have "alive (\<lambda>_. True) (ParseHttpMethod line 0 0)"
    unfolding ParseHttpMethod_def by (rule alive_bind [OF alive_load32]) simp
  then show ?thesis
    unfolding ParseFirstLine_def
    by (rule alive_bind)
      (auto intro!: alive_bind [OF alive_skip_spaces] alive_bind [OF alive_ParseHttpVersion] split: prod.split option.split)
qed

lemma alive_PushLine: "alive (\<lambda>_. True) (PushLine line p)"
proof -
  have "alive (\<lambda>_. True) (atoi t)" for t by (simp add: atoi_def Let_def)
  then have "alive (\<lambda>_. True) (ParseHeaderLine line p)"
    unfolding ParseHeaderLine_def Let_def by (auto intro!: alive_bind split: option.split)
  moreover have "alive (\<lambda>_. True) (rbind (ParseFirstLine line) (\<lambda>(m, u, v). Inr (q m u v)))" for q
    by (rule alive_bind [OF alive_ParseFirstLine]) auto
  ultimately show ?thesis
    by (auto simp: PushLine_def Let_def split: ParserState.split option.split)
qed

lemma alive_ProcessDataIn:
  assumes "read_law os" "conn_ok c" "ProcessDataIn n os c w = Some r"
  shows "alive (\<lambda>(ret, c', w'). conn_ok c') r"
proof (cases r)
  case (Inl f)
  with ProcessDataIn_fault [OF assms(1,2)] assms(3) have "parser_blamed os n c w f" by simp
  from parser_blamed_PushLine [OF this] obtain line p where "PushLine line p = Inl f" by blast
  with alive_PushLine [of line p] Inl show ?thesis by simp
next
  case (Inr x)
  with ProcessDataIn_ok [OF assms(1,2)] assms(3) show ?thesis by (cases x) simp
qed

lemma alive_unmask_loop: "alive (\<lambda>_. True) (unmask_loop m off b n i)"
proof (induction m off b n i rule: unmask_loop.induct)
  case (1 m off b n i)
  then show ?case by (simp add: unmask_loop.simps [of m off b n i])
qed

lemma alive_payload_length: "alive (\<lambda>_. True) (payload_length b)"
proof -
  have "alive (\<lambda>_. True) (ntohl_load64 b i)" for i by (simp add: ntohl_load64_def)
  then show ?thesis
    unfolding payload_length_def Let_def
    by (intro alive_bind [OF alive_vat]) (auto intro!: alive_bind [OF alive_vat] alive_bind)
qed

lemma alive_decode_frame: "alive (\<lambda>_. True) (decode_frame b)"
  unfolding decode_frame_def Let_def
  by (intro alive_bind [OF alive_vat] alive_bind [OF alive_payload_length])
    (auto intro!: alive_bind [OF alive_unmask_loop] alive_bind [where P = "\<lambda>_. True"] simp: alive_unmask_loop split: prod.split)

lemma conn_ok_set_ws [simp]: "conn_ok (set_ws f c) = conn_ok c"
  by (simp add: conn_ok_def set_ws_def)

lemma conn_ok_Write: "WebsocketConnection_Write os ty d c w = (r, c', w') \<Longrightarrow> conn_ok c' = conn_ok c"
  by (auto simp: WebsocketConnection_Write_def Let_def split: prod.splits)

lemma alive_ws_receive:
  assumes "read_law os" "conn_ok c"
  shows "alive (\<lambda>(act, c1, w1). conn_ok c1) (ws_receive os c w)"
proof -
  from assms(2) have "length (c_buffer c) \<le> 1024" by (simp add: conn_ok_def)
  from Connection_Read_ok [OF assms(1) this] obtain r c1 w1 d where
    rd: "Connection_Read os c w = Inr (r, c1, w1)" "length (c_buffer c1) \<le> 1024" "c1 = c\<lparr>c_buffer := c_buffer c @ d\<rparr>"
    by blast
  have ok: "conn_ok c1" using assms(2) rd(2,3) by (simp add: conn_ok_def)
  then have ok': "conn_ok (c1\<lparr>c_buffer := []\<rparr>)" by (simp add: conn_ok_def)
  show ?thesis unfolding ws_receive_def using ok ok'
    by (auto simp: rd(1) Let_def intro!: alive_bind [OF alive_decode_frame] split: option.split prod.split dest!: conn_ok_Write)
qed

section \<open>Serving an event\<close>

definition env_law :: "('h, 'w) env \<Rightarrow> bool" where
  "env_law e \<longleftrightarrow> read_law (env_os e) \<and> callbacks_law e
     \<and> (\<forall>m. length (sha1_of e m) = SHA_DIGEST_LENGTH) \<and> length (hash_array e) = SHA_DIGEST_LENGTH * 2"

lemma env_law_callbacks:
  assumes "env_law e" "server_ok s" "p \<in> set (ptrs s)"
  shows "alive (\<lambda>(_, s', _). calm s s') (run_handler e h p u body final s w)"
    "alive (\<lambda>(_, s', _). calm s s') (run_hook e h p u s w)"
    "alive (\<lambda>(_, s', _). calm s s') (run_ws e h p op d s w)"
  using assms unfolding env_law_def callbacks_law_def by blast+

lemma calm_keeps: "calm s s' \<Longrightarrow> p \<in> set (ptrs s) \<Longrightarrow> server_ok s' \<and> p \<in> set (ptrs s')"
  by (simp add: calm_def)

lemma calm_set_conn: "calm s s' \<Longrightarrow> conn_ok c \<Longrightarrow> calm s (set_conn p c s')"
  by (rule calm_trans [OF _ set_conn_calm]) (auto simp: calm_def)

lemma calm_then: "calm s s1 \<Longrightarrow> calm s1 s2 \<Longrightarrow> conn_ok c \<Longrightarrow> calm s (set_conn p c s2)"
  by (rule calm_set_conn [OF calm_trans])

lemma alive_GetWsAccept:
  assumes "env_law e" "conn_ok c"
  shows "alive (\<lambda>(a, c'). conn_ok c') (GetWsAccept (sha1_of e) (hash_array e) c)"
  using assms GetWsAcceptByKey_ok [of "sha1_of e" _ "hash_array e"]
  by (auto simp: GetWsAccept_def env_law_def split: option.split)

lemma close_and_go_served:
  assumes "server_ok s" "p \<in> set (ptrs s)"
  shows "alive (\<lambda>(s', w'). served p s s') (close_and_go e p s w)"
  unfolding close_and_go_def by (rule alive_bind [OF CloseConn_served [OF assms]]) auto

lemma close_after_calm:
  assumes "calm s s'" "p \<in> set (ptrs s)"
  shows "alive (\<lambda>(s'', w'). served p s s'') (close_and_go e p s' w)"
  using calm_keeps [OF assms] calm_served_trans [OF assms(1)]
  by (auto intro: alive_mono [OF close_and_go_served])

lemma alive_opt_hook:
  assumes "env_law e" "server_ok s" "p \<in> set (ptrs s)"
  shows "alive (\<lambda>(n, s', w'). calm s s') (opt_hook e hook n p u s w)"
  using env_law_callbacks(2) [OF assms] calm_refl [OF assms(2)]
  by (auto simp: opt_hook_def split: option.split)

lemma hook_then_close:
  assumes "env_law e" "calm s s1" "p \<in> set (ptrs s)"
  shows "alive (\<lambda>(s', w'). served p s s') (rbind (opt_hook e hook 0 p u s1 w1) (\<lambda>(_, s2, w2). close_and_go e p s2 w2))"
  using calm_keeps [OF assms(2,3)] calm_trans [OF assms(2)]
  by (auto intro!: alive_bind [OF alive_opt_hook [OF assms(1)]] close_after_calm [OF _ assms(3)])

lemma handle_websocket_served:
  assumes "env_law e" "server_ok s" "p \<in> set (ptrs s)"
  shows "alive (\<lambda>(s', w'). served p s s') (handle_websocket e p s w)"
proof -
  have rl: "read_law (env_os e)" using assms(1) by (simp add: env_law_def)
  have read: "alive (\<lambda>(r, s', w'). calm s s') (ws_read_event e p s w)"
    unfolding ws_read_event_def
  proof (rule alive_bind [OF conn_at_live [OF assms(2,3)]], elim conjE, rule alive_bind [OF alive_ws_receive [OF rl]])
    fix c and z :: "'a ws_action \<times> 'a Connection \<times> 'b"
    assume "case z of (act, c1, w1) \<Rightarrow> conn_ok c1"
    then obtain act c1 w1 where z: "z = (act, c1, w1)" "conn_ok c1" by (cases z) auto
    let ?s = "set_conn p c1 s"
    have s1: "calm s ?s" using set_conn_calm [OF assms(2) z(2)] .
    note k = calm_keeps [OF s1 assms(3)]
    show "alive (\<lambda>(r, s', w'). calm s s')
       (case z of (act, c1, w1) \<Rightarrow> let s1 = set_conn p c1 s in case act of Ret r \<Rightarrow> Inr (r, s1, w1)
          | Call h op data \<Rightarrow> rbind (run_ws e h p op data s1 w1) (\<lambda>(r, s2, w2).
              rbind (conn_at p s2) (\<lambda>c2. Inr (r, set_conn p (set_ws (last_payload_update (\<lambda>_. [])) c2) s2, w2))))"
      using s1 k unfolding z(1)
      by (auto simp: Let_def split: ws_action.split intro!: alive_bind [OF env_law_callbacks(3) [OF assms(1)]]
          alive_bind [OF conn_at_live] dest: calm_keeps)
        (erule (1) calm_then, simp)
  qed
  show ?thesis unfolding handle_websocket_def
    by (rule alive_bind [OF read])
      (auto intro!: alive_bind [OF conn_at_live] hook_then_close [OF assms(1) _ assms(3)]
        simp: calm_keeps [OF _ assms(3)] calm_served split: option.split)
qed

lemma UpgradeToWebsocket_ok:
  "UpgradeToWebsocket os m h c w = (ok, c', w') \<Longrightarrow> conn_ok c \<Longrightarrow> conn_ok c'"
  by (auto simp: UpgradeToWebsocket_def conn_ok_def Let_def split: if_splits prod.splits)

lemma answer_upgrade_served:
  assumes "env_law e" "calm s s2" "p \<in> set (ptrs s)" "k \<in> fst ` set (request_handlers s)"
  shows "alive (\<lambda>(s', w'). served p s s') (answer_upgrade e p k u n s2 w)"
  unfolding answer_upgrade_def
proof (rule alive_bind [OF conn_at_live])
  show k2: "server_ok s2" "p \<in> set (ptrs s2)" using calm_keeps [OF assms(2,3)] by auto
  fix c assume "(p, c) \<in> set (pending_conns s2) \<and> conn_ok c"
  then have c: "conn_ok c" by simp
  have key: "k \<in> fst ` set (request_handlers s2)" using assms(2,4) by (auto simp: calm_def)
  have rest: "alive (\<lambda>(s', w'). served p s s')
      (rbind (handler_at k (set_conn p c1 s2)) (\<lambda>hs. rbind (opt_hook e (ws_ready_hook hs) n p u (set_conn p c1 s2) w1)
        (\<lambda>(n', s4, w4). if n' = -1 then close_and_go e p s4 w4 else Inr (s4, w4))))" if "conn_ok c1" for c1 w1
  proof -
    have s3: "calm s (set_conn p c1 s2)" using calm_set_conn [OF assms(2) that] .
    have "k \<in> fst ` set (request_handlers (set_conn p c1 s2))" using key by (simp add: set_conn_def)
    with s3 calm_keeps [OF s3 assms(3)] show ?thesis
      by (auto intro!: alive_bind [OF handler_at_live] alive_bind [OF alive_opt_hook [OF assms(1)]]
          close_after_calm [OF _ assms(3)] calm_served elim: calm_trans)
  qed
  show "alive (\<lambda>(s', w'). served p s s')
     (rbind (GetWsAccept (sha1_of e) (hash_array e) c) (\<lambda>(accept, c1).
     rbind (MakeResponse (fmt_nat e) 101 (version (c_parser c1))
             [(''Connection'', ''Upgrade''), (''Sec-WebSocket-Accept'', accept), (''Upgrade'', ''websocket'')] [])
       (\<lambda>switch_protocol_rsp.
     let w1 = snd (Connection_Write (env_os e) switch_protocol_rsp c1 w);
         s1 = set_conn p c1 s2
     in rbind (handler_at k s1) (\<lambda>hs.
        rbind (opt_hook e (ws_ready_hook hs) n p u s1 w1) (\<lambda>(n', s2, w2).
        if n' = -1 then close_and_go e p s2 w2 else Inr (s2, w2))))))"
    using rest by (auto intro!: alive_bind [OF alive_GetWsAccept [OF assms(1) c]] simp: MakeResponse_spec Let_def)
qed

lemma handle_upgrade_served:
  assumes "env_law e" "server_ok s" "p \<in> set (ptrs s)" "k \<in> fst ` set (request_handlers s)"
  shows "alive (\<lambda>(s', w'). served p s s') (handle_upgrade e p k u s w)"
proof -
  have hook: "alive (\<lambda>(n, s', w'). calm s s') (opt_hook e h 0 p u (set_conn p c2 s) w1)" if "conn_ok c2" for h c2 w1
  proof -
    have "calm s (set_conn p c2 s)" using set_conn_calm [OF assms(2) that] .
    from this calm_keeps [OF this assms(3)] show ?thesis
      by (intro alive_mono [OF alive_opt_hook [OF assms(1)]]) (auto intro: calm_trans)
  qed
  show ?thesis unfolding handle_upgrade_def
    by (auto intro!: alive_bind [OF conn_at_live [OF assms(2,3)]] alive_bind [OF handler_at_live [OF assms(2,4)]]
        alive_bind [OF alive_GetWsAccept [OF assms(1)]] alive_bind [OF hook] close_after_calm [OF _ assms(3)]
        answer_upgrade_served [OF assms(1) _ assms(3,4)] elim: UpgradeToWebsocket_ok split: prod.split)
qed

lemma find_loop_key:
  "find_loop rx u t = Inr (Some k) \<Longrightarrow> k \<in> fst ` set t"
  by (induction t) (auto split: option.splits bool.splits)

lemma alive_find_loop: "alive (\<lambda>r. \<forall>k. r = Some k \<longrightarrow> k \<in> fst ` set t) (find_loop rx u t)"
proof -
  have "alive (\<lambda>_. True) (find_loop rx u t)" by (induction t) (auto split: option.split bool.split)
  then show ?thesis by (cases "find_loop rx u t") (auto dest: find_loop_key)
qed

lemma handle_request_served:
  assumes "env_law e" "server_ok s" "p \<in> set (ptrs s)"
  shows "alive (\<lambda>(s', w'). served p s s') (handle_request e p ret s w)"
  unfolding handle_request_def FindRequestHandler_def Let_def
  by (auto intro!: alive_bind [OF conn_at_live [OF assms(2,3)]] alive_bind [OF alive_find_loop]
      handle_upgrade_served [OF assms] alive_bind [OF handler_at_live [OF assms(2)]]
      alive_bind [OF env_law_callbacks(1) [OF assms]] close_after_calm [OF _ assms(3)] calm_served calm_refl [OF assms(2)]
      simp: MakeResponse_spec split: option.split prod.split)

lemma handle_http_served:
  assumes "env_law e" "server_ok s" "p \<in> set (ptrs s)"
  shows "alive (\<lambda>(s', w'). served p s s') (handle_http e p s w)"
  unfolding handle_http_def
proof (rule alive_bind [OF conn_at_live [OF assms(2,3)]], elim conjE)
  fix c :: "'a Connection" assume c: "conn_ok c"
  have rl: "read_law (env_os e)" using assms(1) by (simp add: env_law_def)
  have step: "alive (\<lambda>(s', w'). served p s s')
     (let s1 = set_conn p c1 s
      in if ret = -2 then close_and_go e p s1 w1 else if ret = -1 then Inr (s1, w1)
         else if ret = 0 \<or> ret = 1 then handle_request e p ret s1 w1 else Inr (s1, w1))" if "conn_ok c1" for ret c1 w1
  proof -
    have s1: "calm s (set_conn p c1 s)" using set_conn_calm [OF assms(2) that] .
    note k = calm_keeps [OF s1 assms(3)]
    have "alive (\<lambda>(s', w'). served p s s') (handle_request e p ret (set_conn p c1 s) w1)"
      using k calm_served_trans [OF s1] by (auto intro: alive_mono [OF handle_request_served [OF assms(1)]])
    with s1 show ?thesis using close_after_calm [OF s1 assms(3)] by (auto simp: Let_def calm_served)
  qed
  show "alive (\<lambda>(s', w'). served p s s')
     (case ProcessDataIn (fuel e) (env_os e) c w of None \<Rightarrow> Inl Diverges
      | Some r \<Rightarrow> rbind r (\<lambda>(ret, c1, w1).
          let s1 = set_conn p c1 s
          in if ret = -2 then close_and_go e p s1 w1 else if ret = -1 then Inr (s1, w1)
             else if ret = 0 \<or> ret = 1 then handle_request e p ret s1 w1 else Inr (s1, w1)))"
    using step by (auto intro!: alive_bind [OF alive_ProcessDataIn [OF rl c]] split: option.split)
qed

text \<open>Accepting adds at most one connection, at a fresh pointer.\<close>

definition grown :: "'h Server \<Rightarrow> 'h Server \<Rightarrow> bool" where
  "grown s s' \<longleftrightarrow> server_ok s' \<and> set (ptrs s) \<subseteq> set (ptrs s') \<and> set (ptrs s') \<subseteq> insert (next_ptr s) (set (ptrs s))
     \<and> map_option fst (server_conn s') = map_option fst (server_conn s)"

lemma handle_accept_grown:
  assumes "server_ok s"
  shows "alive (\<lambda>(r, s', w'). grown s s') (handle_accept e s w)"
proof -
  have same: "grown s s" "grown s (s\<lparr>next_ptr := next_ptr s + 1\<rparr>)"
    using assms by (auto simp: grown_def server_ok_def ptrs_def less_Suc_eq)
  have new: "grown s (s\<lparr>next_ptr := next_ptr s + 1, pending_conns := pending_conns s @ [(next_ptr s, new_Connection fd)]\<rparr>)" for fd
    using assms new_Connection_ok [of fd] by (fastforce simp: grown_def server_ok_def ptrs_def less_Suc_eq)
  show ?thesis using same new
    by (auto simp: handle_accept_def AcceptNewConnection_def Let_def split: option.split prod.split bool.split)
qed

lemma handle_event_ok:
  assumes "env_law e" "server_ok s" "p \<in> set (ptrs s) \<or> map_option fst (server_conn s) = Some p"
  shows "alive (\<lambda>(r, s', w'). server_ok s' \<and> set (ptrs s) - {p} \<subseteq> set (ptrs s')
      \<and> map_option fst (server_conn s') = map_option fst (server_conn s)) (handle_event e (p, ev) s w)"
proof (cases "map_option fst (server_conn s) = Some p")
  case True
  then show ?thesis
    by (auto simp: handle_event_def grown_def intro!: alive_mono [OF handle_accept_grown [OF assms(2)]])
next
  case False
  with assms(3) have p: "p \<in> set (ptrs s)" by simp
  show ?thesis using False assms(2)
    by (auto simp: handle_event_def served_def intro!: alive_bind [OF conn_at_live [OF assms(2) p]]
        alive_bind [OF handle_websocket_served [OF assms(1,2) p]] alive_bind [OF handle_http_served [OF assms(1,2) p]])
qed

lemma event_loop_ok:
  assumes "env_law e"
  shows "server_ok s \<Longrightarrow> distinct (map fst evs)
    \<Longrightarrow> \<forall>p \<in> set (map fst evs). p \<in> set (ptrs s) \<or> map_option fst (server_conn s) = Some p
    \<Longrightarrow> alive (\<lambda>(r, s', w'). server_ok s') (event_loop e evs s w)"
proof (induction evs arbitrary: s w)
  case (Cons ev evs)
  obtain p m where ev: "ev = (p, m)" by (cases ev)
  have "p \<in> set (ptrs s) \<or> map_option fst (server_conn s) = Some p" using Cons.prems(3) ev by simp
  note step = handle_event_ok [OF assms Cons.prems(1) this, of m w]
  show ?case unfolding event_loop.simps ev
  proof (rule alive_bind [OF step])
    fix z :: "int option \<times> 'a Server \<times> 'b"
    assume "case z of (r, s', w') \<Rightarrow> server_ok s' \<and> set (ptrs s) - {p} \<subseteq> set (ptrs s')
      \<and> map_option fst (server_conn s') = map_option fst (server_conn s)"
    then obtain r s1 w1 where z: "z = (r, s1, w1)" "server_ok s1" "set (ptrs s) - {p} \<subseteq> set (ptrs s1)"
      "map_option fst (server_conn s1) = map_option fst (server_conn s)" by (cases z) auto
    have "\<forall>q \<in> set (map fst evs). q \<in> set (ptrs s1) \<or> map_option fst (server_conn s1) = Some q"
      using Cons.prems(2,3) z(3,4) ev by auto
    with Cons.IH [OF z(2)] Cons.prems(2) z
    show "alive (\<lambda>(r, s', w'). server_ok s') (case z of (r, s1, w1) \<Rightarrow> case r of Some x \<Rightarrow> Inr (Some x, s1, w1) | None \<Rightarrow> event_loop e evs s1 w1)"
      by (auto split: option.split)
  qed
qed simp

lemma ping_loop_ok:
  "\<forall>(p, c) \<in> set cs. conn_ok c \<Longrightarrow>
    alive (\<lambda>(cs', w'). map fst cs' = map fst cs \<and> (\<forall>(p, c) \<in> set cs'. conn_ok c)) (ping_loop os cs w)"
proof (induction cs arbitrary: w)
  case (Cons pc cs)
  obtain p c where pc: "pc = (p, c)" by (cases pc)
  have "alive (\<lambda>(b, c', w'). conn_ok c') (if ws_conn c \<noteq> None then ServerPing os c w else Inr (False, c, w))"
    using Cons.prems pc by (auto simp: ServerPing_def Let_def dest!: conn_ok_Write split: option.split prod.split)
  then show ?case unfolding pc ping_loop.simps
  proof (rule alive_bind)
    fix z :: "bool \<times> 'a Connection \<times> 'b" assume "case z of (b, c', w') \<Rightarrow> conn_ok c'"
    then obtain b c1 w1 where z: "z = (b, c1, w1)" "conn_ok c1" by (cases z) auto
    have "alive (\<lambda>(cs', w'). map fst cs' = map fst cs \<and> (\<forall>(p, c) \<in> set cs'. conn_ok c)) (ping_loop os cs w1)"
      using Cons by auto
    with z show "alive (\<lambda>(cs', w'). map fst cs' = map fst ((p, c) # cs) \<and> (\<forall>(p, c) \<in> set cs'. conn_ok c))
        (case z of (_, c1, w1) \<Rightarrow> rbind (ping_loop os cs w1) (\<lambda>(cs', w2). Inr ((p, c1) # cs', w2)))"
      by (auto intro!: alive_bind)
  qed
qed simp

lemma Poll_ok:
  assumes "env_law e" "server_ok s"
    and reported: "\<And>cs w1 evs w2 p. ping_loop (env_os e) (pending_conns s) w = Inr (cs, w1)
      \<Longrightarrow> sys_epoll_wait (env_os e) (poll_fd s) max_events t w1 = (Some evs, w2)
      \<Longrightarrow> distinct (map fst evs) \<and> (p \<in> set (map fst evs) \<longrightarrow> p \<in> set (ptrs s) \<or> map_option fst (server_conn s) = Some p)"
  shows "alive (\<lambda>(r, s', w'). server_ok s') (Poll e t s w)"
proof (cases "ping_loop (env_os e) (pending_conns s) w")
  case (Inl f)
  have "\<forall>(p, c) \<in> set (pending_conns s). conn_ok c" using assms(2) by (simp add: server_ok_def)
  from ping_loop_ok [OF this, of "env_os e" w] Inl show ?thesis by (simp add: Poll_def)
next
  case (Inr z)
  obtain cs w1 where z: "z = (cs, w1)" by (cases z)
  have "\<forall>(p, c) \<in> set (pending_conns s). conn_ok c" using assms(2) by (simp add: server_ok_def)
  from ping_loop_ok [OF this, of "env_os e" w] Inr z have cs: "map fst cs = map fst (pending_conns s)" "\<forall>(p, c) \<in> set cs. conn_ok c"
    by simp_all
  let ?s = "s\<lparr>pending_conns := cs\<rparr>"
  have p: "ptrs ?s = ptrs s" using cs(1) by (simp add: ptrs_def)
  have ok: "server_ok ?s" using assms(2) cs(2) p by (simp add: server_ok_def)
  have "alive (\<lambda>(r, s', w'). server_ok s') (event_loop e evs ?s w2)"
    if "sys_epoll_wait (env_os e) (poll_fd s) max_events t w1 = (Some evs, w2)" for evs w2
    using reported [of cs w1 evs w2] that Inr z p by (intro event_loop_ok [OF assms(1) ok]) auto
  with ok z Inr show ?thesis
    by (auto simp: Poll_def Let_def intro!: alive_bind split: option.split prod.split)
qed

section \<open>The handler table\<close>

lemma find_loop_skip:
  "\<forall>(k', h') \<in> set pre. rx k' u = Some False \<Longrightarrow> find_loop rx u (pre @ t) = find_loop rx u t"
  by (induction pre) auto

lemma find_loop_split:
  "find_loop rx u t = Inr (Some k) \<Longrightarrow>
     \<exists>pre h post. t = pre @ (k, h) # post \<and> rx k u = Some True \<and> (\<forall>(k', h') \<in> set pre. rx k' u = Some False)"
proof (induction t)
  case (Cons kh t)
  obtain k' h' where kh: "kh = (k', h')" by (cases kh)
  show ?case
  proof (cases "rx k' u = Some False")
    case True
    with Cons kh obtain pre h post where "t = pre @ (k, h) # post" "rx k u = Some True"
      "\<forall>(k', h') \<in> set pre. rx k' u = Some False" by auto
    with True kh show ?thesis by (intro exI [of _ "kh # pre"]) auto
  next
    case False
    with Cons.prems kh have "k' = k" "rx k u = Some True" by (auto split: option.splits bool.splits)
    with kh show ?thesis by (intro exI [of _ "[]"]) auto
  qed
qed simp

lemma find_loop_None:
  "find_loop rx u t = Inr None \<longleftrightarrow> (\<forall>(k, h) \<in> set t. rx k u = Some False)"
  by (induction t) (auto split: option.splits bool.splits)

lemma RegisterRequestHandler_ok:
  assumes "server_ok s" "length (http_handlers h) = method_index UNKNOWN_METHOD"
  shows "server_ok (RegisterRequestHandler u h s)"
proof -
  have "set (map_assign (star_loop u) h t) \<subseteq> insert (star_loop u, h) (set t)" for t :: "(bytes \<times> 'a RequestHandler) list"
    by (induction "star_loop u" h t rule: map_assign.induct) auto
  then show ?thesis using assms map_wf_assign [of "request_handlers s" "star_loop u" h]
    by (fastforce simp: server_ok_def RegisterRequestHandler_def table_ok_def ptrs_def)
qed

section \<open>Following a request\<close>

lemma conn_at_set: "conn_at p s = Inr c0 \<Longrightarrow> conn_at p (set_conn p c s) = Inr c"
proof -
  assume at: "conn_at p s = Inr c0"
  have m: "map_of (map (\<lambda>(q, d). (q, if q = p then c else d)) cs) p = (if map_of cs p = None then None else Some c)" for cs
    by (induction cs) auto
  show ?thesis using at by (auto simp: conn_at_def set_conn_def m split: option.splits prod.splits if_splits)
qed

lemma set_conn_set [simp]: "set_conn p c (set_conn p c' s) = set_conn p c s"
  by (cases "server_conn s") (auto simp: set_conn_def comp_def split_beta)

lemma request_handlers_set_conn [simp]: "request_handlers (set_conn p c s) = request_handlers s"
  by (simp add: set_conn_def)

lemma handler_at_set_conn [simp]: "handler_at k (set_conn p c s) = handler_at k s"
  by (simp add: handler_at_def)

lemma status_lines:
  "status_pair 101 = (101, ''Switching Protocols'')" "status_pair 404 = (404, ''Not Found'')"
  by code_simp+

definition switch_response :: "HttpVersion \<Rightarrow> bytes \<Rightarrow> bytes" where
  "switch_response v accept = HttpVersionToString v @ '' 101 Switching Protocols'' @ CRLF @ ''Connection: Upgrade'' @ CRLF
     @ ''Sec-WebSocket-Accept: '' @ accept @ CRLF @ ''Upgrade: websocket'' @ CRLF @ CRLF"

lemma MakeResponse_switch:
  "fmt 101 = ''101'' \<Longrightarrow> MakeResponse fmt 101 v
     [(''Connection'', ''Upgrade''), (''Sec-WebSocket-Accept'', a), (''Upgrade'', ''websocket'')] [] = Inr (switch_response v a)"
  by (simp add: MakeResponse_spec status_lines header_lines_def switch_response_def)

text \<open>The connection after the upgrade.\<close>

definition upgraded :: "'h RequestHandler \<Rightarrow> bytes \<Rightarrow> int \<Rightarrow> 'h Connection \<Rightarrow> 'h Connection" where
  "upgraded hs accept now c = c\<lparr>ws_conn := Some \<lparr>ws_key = websocket_key (c_parser c), ws_accept = accept,
     on_data = ws_message_handler hs, will_close_hook = ws_will_close_hook hs, last_payload = [], last_io_time = now\<rparr>\<rparr>"

text \<open>The answer is sent whatever the ready hook is, and the ready hook decides what happens then.\<close>

lemma answer_upgrade_sends:
  assumes "wire_law (env_os e) out" "conn_at p s = Inr (upgraded hs a now c)" "a \<noteq> []" "c_fd c \<noteq> -1" "fmt_nat e 101 = ''101''"
    "handler_at k s = Inr hs"
  shows "\<exists>w'. out w' = (out w)(c_fd c := out w (c_fd c) @ switch_response (version (c_parser c)) a)
    \<and> answer_upgrade e p k u n s w = rbind (opt_hook e (ws_ready_hook hs) n p u (set_conn p (upgraded hs a now c) s) w')
        (\<lambda>(n', s2, w2). if n' = -1 then close_and_go e p s2 w2 else Inr (s2, w2))"
proof -
  let ?c = "upgraded hs a now c"
  have fd: "c_fd ?c = c_fd c" "version (c_parser ?c) = version (c_parser c)" by (simp_all add: upgraded_def)
  have acc: "GetWsAccept (sha1_of e) (hash_array e) ?c = Inr (a, ?c)"
    using assms(3) by (simp add: GetWsAccept_def upgraded_def)
  obtain w' where wr: "Connection_Write (env_os e) (switch_response (version (c_parser c)) a) ?c w = (1, w')"
    "out w' = (out w)(c_fd c := out w (c_fd c) @ switch_response (version (c_parser c)) a)"
    using Connection_Write_wire [OF assms(1), of ?c] assms(4) fd by auto
  show ?thesis
    using wr assms(2,5,6) by (intro exI [of _ w']) (simp add: answer_upgrade_def acc MakeResponse_switch [of "fmt_nat e"] fd Let_def)
qed

lemma answer_upgrade_done:
  assumes "wire_law (env_os e) out" "conn_at p s = Inr (upgraded hs a now c)" "a \<noteq> []" "c_fd c \<noteq> -1" "fmt_nat e 101 = ''101''"
    "handler_at k s = Inr hs" "ws_ready_hook hs = None"
  shows "\<exists>w'. answer_upgrade e p k u 0 s w = Inr (set_conn p (upgraded hs a now c) s, w')
    \<and> out w' = (out w)(c_fd c := out w (c_fd c) @ switch_response (version (c_parser c)) a)"
  using answer_upgrade_sends [OF assms(1-6), of w u 0] assms(7) by (auto simp: opt_hook_def)

text \<open>Up to the answer the upgrade touches only the connection, and the connect hook decides what happens then.\<close>

lemma handle_upgrade_connects:
  assumes "clock_law (env_os e)" "conn_at p s = Inr c" "handler_at k s = Inr hs"
    "ws_conn c = None" "websocket_key (c_parser c) \<noteq> []"
    "\<forall>m. length (sha1_of e m) = SHA_DIGEST_LENGTH" "length (hash_array e) = SHA_DIGEST_LENGTH * 2"
    "a = b64_ref (sha1_of e (websocket_key (c_parser c) @ ws_guid))"
  shows "a \<noteq> [] \<and> (\<exists>now. handle_upgrade e p k u s w
    = rbind (opt_hook e (ws_connect_hook hs) 0 p u (set_conn p (upgraded hs a now c) s) w)
        (\<lambda>(n, s2, w2). if n = -1 then close_and_go e p s2 w2 else answer_upgrade e p k u n s2 w2))"
proof -
  let ?key = "websocket_key (c_parser c)"
  obtain now where now: "sys_now (env_os e) w = (now, w)" using clock_lawD [OF assms(1)] by metis
  let ?c1 = "upgraded hs [] now c" and ?c2 = "upgraded hs a now c"
  have up: "UpgradeToWebsocket (env_os e) (ws_message_handler hs) (ws_will_close_hook hs) c w = (True, ?c1, w)"
    using assms(4,5) now by (simp add: UpgradeToWebsocket_def upgraded_def Let_def)
  have "length a = 28" using assms(6,8) by (simp add: length_b64_ref SHA_DIGEST_LENGTH_def)
  then have ne: "a \<noteq> []" by auto
  have key: "GetWsAcceptByKey (sha1_of e) (hash_array e) ?key = Inr a" using GetWsAcceptByKey_ok assms(6-8) by blast
  have acc: "GetWsAccept (sha1_of e) (hash_array e) ?c1 = Inr (a, ?c2)"
    by (simp add: GetWsAccept_def upgraded_def set_ws_def key)
  show ?thesis using assms(2,3) ne by (intro conjI exI [of _ now]) (simp_all add: handle_upgrade_def up acc)
qed

lemma handle_upgrade_done:
  assumes "clock_law (env_os e)" "wire_law (env_os e) out" "conn_at p s = Inr c" "handler_at k s = Inr hs"
    "ws_conn c = None" "websocket_key (c_parser c) \<noteq> []" "c_fd c \<noteq> -1" "fmt_nat e 101 = ''101''"
    "ws_connect_hook hs = None" "ws_ready_hook hs = None"
    "\<forall>m. length (sha1_of e m) = SHA_DIGEST_LENGTH" "length (hash_array e) = SHA_DIGEST_LENGTH * 2"
  shows "\<exists>now w'. handle_upgrade e p k u s w
      = Inr (set_conn p (upgraded hs (b64_ref (sha1_of e (websocket_key (c_parser c) @ ws_guid))) now c) s, w')
    \<and> out w' = (out w)(c_fd c := out w (c_fd c)
        @ switch_response (version (c_parser c)) (b64_ref (sha1_of e (websocket_key (c_parser c) @ ws_guid))))"
proof -
  let ?a = "b64_ref (sha1_of e (websocket_key (c_parser c) @ ws_guid))"
  obtain now where ne: "?a \<noteq> []" and up: "handle_upgrade e p k u s w = answer_upgrade e p k u 0 (set_conn p (upgraded hs ?a now c) s) w"
    using handle_upgrade_connects [OF assms(1,3-6,11,12) refl, of u w] assms(9) by (auto simp: opt_hook_def)
  have at: "conn_at p (set_conn p (upgraded hs ?a now c) s) = Inr (upgraded hs ?a now c)" using conn_at_set [OF assms(3)] .
  have hs: "handler_at k (set_conn p (upgraded hs ?a now c) s) = Inr hs" using assms(4) by simp
  from answer_upgrade_done [OF assms(2) at ne assms(7,8) hs assms(10), of u w] up
  show ?thesis by (intro exI [of _ now]) simp
qed

section \<open>A server to try the properties on\<close>

text \<open>Patterns match themselves or, for the catch-all, everything; callbacks do nothing.\<close>

definition sim_env :: "(unit, kernel) env" where
  "sim_env = \<lparr>env_os = sim_os, run_handler = (\<lambda>_ _ _ _ _ s w. Inr (0, s, w)), run_hook = (\<lambda>_ _ _ s w. Inr (0, s, w)),
     run_ws = (\<lambda>_ _ _ _ s w. Inr (0, s, w)), regex_match = (\<lambda>k u. Some (k = ''.*'' \<or> k = u)),
     sha1_of = (\<lambda>m. replicate 20 SP), hash_array = replicate 40 NUL, fmt_nat = dec, fuel = 100\<rparr>"

definition sim_server :: "unit Connection \<Rightarrow> bytes \<Rightarrow> unit Server" where
  "sim_server c u = RegisterRequestHandler u new_RequestHandler
     (new_Server\<lparr>poll_fd := 4, server_conn := Some (1, new_Connection 5), pending_conns := [(2, c)], next_ptr := 3\<rparr>)"

lemma sim_server_ok: "conn_ok c \<Longrightarrow> server_ok (sim_server c u)"
  unfolding sim_server_def
  by (rule RegisterRequestHandler_ok) (auto simp: server_ok_def ptrs_def new_Server_def table_ok_def new_RequestHandler_def)

lemma sim_env_law: "env_law sim_env"
  by (auto simp: env_law_def sim_env_def sim_read_law callbacks_law_def calm_refl SHA_DIGEST_LENGTH_def)

text \<open>A connection with a parsed request, and facts to evaluate with.\<close>

definition sim_conn :: "HttpHeaderParser \<Rightarrow> unit Connection" where
  "sim_conn q = new_Connection 7\<lparr>c_parser := q\<rparr>"

lemma sim_conn_ok: "parser_inv q \<Longrightarrow> conn_ok (sim_conn q)"
  by (simp add: conn_ok_def sim_conn_def new_Connection_def)

lemma sim_env_fields [simp]:
  "env_os sim_env = sim_os" "fmt_nat sim_env = dec" "regex_match sim_env k u = Some (k = ''.*'' \<or> k = u)"
  "sha1_of sim_env m = replicate 20 SP" "hash_array sim_env = replicate 40 NUL"
  by (simp_all add: sim_env_def)

lemma dec_status: "dec 101 = ''101''" "dec 404 = ''404''"
  by code_simp+

lemma sim_os_close: "fst (sys_epoll_del sim_os ep fd w)" "k_output (snd (sys_epoll_del sim_os ep fd w)) = k_output w"
    "k_output (sys_close sim_os fd w) = k_output w"
  by (simp_all add: sim_os_def)

lemma sim_server_fields [simp]:
  "pending_conns (sim_server c u) = [(2, c)]" "server_conn (sim_server c u) = Some (1, new_Connection 5)"
  "poll_fd (sim_server c u) = 4" "request_handlers (sim_server c u) = [(star_loop u, new_RequestHandler)]"
  by (simp_all add: sim_server_def RegisterRequestHandler_def new_Server_def)

lemma sim_server_at [simp]: "conn_at 2 (sim_server c u) = Inr c"
  "handler_at (star_loop u) (sim_server c u) = Inr new_RequestHandler"
  by (simp_all add: conn_at_def handler_at_def)

lemma sim_find:
  "FindRequestHandler sim_env v (sim_server c u)
     = Inr (if star_loop u = ''.*'' \<or> star_loop u = c_str v 0 then Some (star_loop u) else None)"
  by (simp add: FindRequestHandler_def sim_env_def)

section \<open>Properties\<close>

text \<open>
  Callbacks must not close connections: when serving one event closes another connection whose event is in the
  same batch (as the example \<^verbatim>\<open>basic.cc\<close> does from its ready hook), the loop goes on to use the destroyed
  connection.
\<close>

theorem closed_in_same_batch:
  assumes "handle_event e (p, m) s w = Inr (None, s1, w1)" "q \<notin> set (ptrs s1)" "map_option fst (server_conn s1) \<noteq> Some q"
  shows "event_loop e ((p, m) # (q, m') # evs) s w = Inl UseAfterFree"
proof -
  have "conn_at q s1 = Inl UseAfterFree"
    using assms(2,3) by (cases "map_of (pending_conns s1) q")
      (auto simp: conn_at_def ptrs_def dest: map_of_SomeD split: option.split prod.split intro: rev_image_eqI)
  with assms show ?thesis by (simp add: handle_event_def)
qed

theorem closed_in_same_batch_witness:
  "event_loop (sim_env\<lparr>run_hook := \<lambda>_ _ _ s w. CloseConn sim_os 3 s w\<rparr>) [(2, EPOLLIN), (3, EPOLLIN)]
     (new_Server\<lparr>poll_fd := 4, server_conn := Some (1, new_Connection 5),
        pending_conns := [(2, set_ws (will_close_hook_update (\<lambda>_. Some ())) echo_conn), (3, new_Connection 8)]\<rparr>)
     (k0\<lparr>k_input := (\<lambda>_. [])(7 := [Data []])\<rparr>) = Inl UseAfterFree"
proof -
  let ?e = "sim_env\<lparr>run_hook := \<lambda>_ _ _ s w. CloseConn sim_os 3 s w\<rparr>"
  let ?s = "new_Server\<lparr>poll_fd := 4, server_conn := Some (1, new_Connection 5),
        pending_conns := [(2, set_ws (will_close_hook_update (\<lambda>_. Some ())) echo_conn), (3, new_Connection 8)]\<rparr>"
  let ?k = "k0\<lparr>k_input := (\<lambda>_. [])(7 := [Data []])\<rparr>"
  have "\<exists>w1. handle_event ?e (2, EPOLLIN) ?s ?k = Inr (None, ?s\<lparr>pending_conns := []\<rparr>, w1)"
    by (simp add: handle_event_def handle_websocket_def ws_read_event_def ws_receive_def Connection_Read_def conn_at_def
        set_conn_def opt_hook_def close_and_go_def CloseConn_def new_Server_def echo_conn_def new_Connection_def set_ws_def
        sim_env_def sim_os_def EPOLLIN_def SMALL_MEMORY_def Let_def)
  then obtain w1 where "handle_event ?e (2, EPOLLIN) ?s ?k = Inr (None, ?s\<lparr>pending_conns := []\<rparr>, w1)" by blast
  from closed_in_same_batch [OF this, of 3 EPOLLIN "[]"] show ?thesis by (simp add: ptrs_def)
qed

text \<open>
  Closing: when the kernel accepts the deregistration, \<open>CloseConn\<close> returns 0, closes the
  descriptor and removes exactly that connection; when it refuses, it returns -1 and the server
  is unchanged.
\<close>

theorem close_conn_removes:
  assumes "server_ok s" "(p, c) \<in> set (pending_conns s)" "sys_epoll_del os (poll_fd s) (c_fd c) w = (b, w1)"
  shows "if b
    then \<exists>s'. CloseConn os p s w = Inr (0, s', if c_fd c \<noteq> -1 then sys_close os (c_fd c) w1 else w1)
      \<and> pending_conns s' = filter (\<lambda>(q, _). q \<noteq> p) (pending_conns s) \<and> server_ok s'
    else CloseConn os p s w = Inr (-1, s, w1)"
proof -
  have "distinct (map fst (pending_conns s))" using assms(1) by (simp add: server_ok_def ptrs_def)
  with assms(2) have at: "conn_at p s = Inr c" by (simp add: conn_at_def map_of_is_SomeI)
  have mem: "p \<in> set (ptrs s)" using assms(2) by (force simp: ptrs_def)
  have "alive (\<lambda>(r, s', w'). served p s s') (CloseConn os p s w)" by (rule CloseConn_served [OF assms(1) mem])
  then show ?thesis using at assms(3)
    by (auto simp: CloseConn_def Let_def set_conn_def served_def split: if_splits)
qed

theorem close_conn_removes_witness:
  "\<exists>s'. CloseConn sim_os 2 (sim_server (new_Connection 7) ''/'') k0 = Inr (0, s', sys_close sim_os 7 (snd (sys_epoll_del sim_os 4 7 k0)))
     \<and> pending_conns s' = [] \<and> server_ok s'"
proof -
  have "sys_epoll_del sim_os (poll_fd (sim_server (new_Connection 7) ''/'')) (c_fd (new_Connection 7 :: unit Connection)) k0
      = (True, snd (sys_epoll_del sim_os 4 7 k0))"
    by (simp add: sim_os_def new_Connection_def)
  from close_conn_removes [OF sim_server_ok [OF new_Connection_ok] _ this, of 2] show ?thesis
    by (simp add: new_Connection_def)
qed

text \<open>
  The WebSocket handshake: for a request that asks for the upgrade with a key, on a path whose
  handlers have no connect or ready hook, the server sends exactly the 101 response with the accept
  key - the Base64 text of the SHA-1 digest of key and GUID - and the connection is a WebSocket from
  then on, with the handlers registered for the path.
\<close>

theorem websocket_handshake:
  assumes "clock_law (env_os e)" "wire_law (env_os e) out" "conn_at p s = Inr c"
    "FindRequestHandler e (uri (c_parser c)) s = Inr (Some k)" "handler_at k s = Inr hs"
    "ws_connect_hook hs = None" "ws_ready_hook hs = None"
    "ShouldUpgradeWebsocket c" "websocket_key (c_parser c) \<noteq> []" "c_fd c \<noteq> -1" "fmt_nat e 101 = ''101''"
    "\<forall>m. length (sha1_of e m) = SHA_DIGEST_LENGTH" "length (hash_array e) = SHA_DIGEST_LENGTH * 2"
  shows "\<exists>s' w' c' ws a. handle_request e p ret s w = Inr (s', w') \<and> conn_at p s' = Inr c' \<and> ws_conn c' = Some ws
    \<and> on_data ws = ws_message_handler hs \<and> will_close_hook ws = ws_will_close_hook hs \<and> last_payload ws = []
    \<and> b64_decode a = sha1_of e (websocket_key (c_parser c) @ ''258EAFA5-E914-47DA-95CA-C5AB0DC85B11'')
    \<and> out w' = (out w)(c_fd c := out w (c_fd c)
        @ HttpVersionToString (version (c_parser c)) @ '' 101 Switching Protocols'' @ CRLF @ ''Connection: Upgrade'' @ CRLF
        @ ''Sec-WebSocket-Accept: '' @ a @ CRLF @ ''Upgrade: websocket'' @ CRLF @ CRLF)"
proof -
  let ?a = "b64_ref (sha1_of e (websocket_key (c_parser c) @ ws_guid))"
  have "ws_conn c = None" using assms(8) by (auto simp: ShouldUpgradeWebsocket_def split: if_splits)
  from handle_upgrade_done [OF assms(1-3,5) this assms(9-11,6,7,12,13), of "uri (c_parser c)" w]
  obtain now w' where up: "handle_upgrade e p k (uri (c_parser c)) s w = Inr (set_conn p (upgraded hs ?a now c) s, w')"
    "out w' = (out w)(c_fd c := out w (c_fd c) @ switch_response (version (c_parser c)) ?a)" by blast
  then have "handle_request e p ret s w = Inr (set_conn p (upgraded hs ?a now c) s, w')"
    using assms(3,4,8) by (simp add: handle_request_def Let_def)
  moreover have "conn_at p (set_conn p (upgraded hs ?a now c) s) = Inr (upgraded hs ?a now c)"
    using conn_at_set [OF assms(3)] .
  moreover have "b64_decode ?a = sha1_of e (websocket_key (c_parser c) @ ''258EAFA5-E914-47DA-95CA-C5AB0DC85B11'')"
    by (simp only: b64_decode_ref ws_guid_def)
  ultimately show ?thesis using up(2)
    by (intro exI [of _ "set_conn p (upgraded hs ?a now c) s"] exI [of _ w'] exI [of _ "upgraded hs ?a now c"]
        exI [of _ "the (ws_conn (upgraded hs ?a now c))"] exI [of _ ?a]) (simp add: upgraded_def switch_response_def)
qed

theorem websocket_handshake_witness:
  "\<exists>s' w' a. handle_request sim_env 2 1 (sim_server (sim_conn (new_HttpHeaderParser\<lparr>uri := ''/ws'', version := HTTP_1_1,
      connection_flags := ConnectionUpgrade, upgrade_flags := UpgradeWebSocket, headers := [(''Sec-WebSocket-Key'', ''key'')]\<rparr>)) ''/ws'') k0
      = Inr (s', w')
    \<and> k_output w' 7 = ''HTTP/1.1 101 Switching Protocols'' @ CRLF @ ''Connection: Upgrade'' @ CRLF
        @ ''Sec-WebSocket-Accept: '' @ a @ CRLF @ ''Upgrade: websocket'' @ CRLF @ CRLF
    \<and> b64_decode a = replicate 20 SP"
proof -
  let ?q = "new_HttpHeaderParser\<lparr>uri := ''/ws'', version := HTTP_1_1,
      connection_flags := ConnectionUpgrade, upgrade_flags := UpgradeWebSocket, headers := [(''Sec-WebSocket-Key'', ''key'')]\<rparr>"
  let ?c = "sim_conn ?q"
  have star: "star_loop ''/ws'' = ''/ws''" by simp
  have f: "c_parser ?c = ?q" "c_fd ?c = 7" "ShouldUpgradeWebsocket ?c" "websocket_key ?q = ''key''"
    by (simp_all add: sim_conn_def new_Connection_def ShouldUpgradeWebsocket_def UpgradeWebSocket_def ConnectionUpgrade_def
        websocket_key_def GetHeader_def)
  have find: "FindRequestHandler sim_env (uri (c_parser ?c)) (sim_server ?c ''/ws'') = Inr (Some ''/ws'')"
    unfolding sim_find by (simp add: f(1) c_str_def)
  have env: "clock_law (env_os sim_env)" "wire_law (env_os sim_env) k_output" "fmt_nat sim_env 101 = ''101''"
    "\<forall>m. length (sha1_of sim_env m) = SHA_DIGEST_LENGTH" "length (hash_array sim_env) = SHA_DIGEST_LENGTH * 2"
    by (simp_all add: sim_clock_law sim_wire_law SHA_DIGEST_LENGTH_def dec_status)
  have hs: "handler_at ''/ws'' (sim_server ?c ''/ws'') = Inr new_RequestHandler"
    using sim_server_at(2) [of "''/ws''" ?c] unfolding star .
  from websocket_handshake [OF env(1,2) sim_server_at(1) find hs _ _ f(3) _ _ env(3-5), of 1 k0] f
  obtain s' w' a where "handle_request sim_env 2 1 (sim_server ?c ''/ws'') k0 = Inr (s', w')"
    "b64_decode a = sha1_of sim_env (websocket_key ?q @ ''258EAFA5-E914-47DA-95CA-C5AB0DC85B11'')"
    "k_output w' = (k_output k0)(7 := k_output k0 7
        @ HttpVersionToString HTTP_1_1 @ '' 101 Switching Protocols'' @ CRLF @ ''Connection: Upgrade'' @ CRLF
        @ ''Sec-WebSocket-Accept: '' @ a @ CRLF @ ''Upgrade: websocket'' @ CRLF @ CRLF)"
    by (auto simp: new_RequestHandler_def)
  then show ?thesis
    by (intro exI [of _ s'] exI [of _ w'] exI [of _ a]) (simp add: k0_def)
qed

text \<open>
  C25. An upgrade request without a key crashes the server: \<open>UpgradeToWebsocket\<close> returns a null
  pointer, which is dereferenced at once.
\<close>

theorem upgrade_without_key_crashes:
  assumes "conn_at p s = Inr c" "FindRequestHandler e (uri (c_parser c)) s = Inr (Some k)" "handler_at k s = Inr hs"
    "ShouldUpgradeWebsocket c" "websocket_key (c_parser c) = []"
  shows "handle_request e p ret s w = Inl NullDeref"
proof -
  have "ws_conn c = None" using assms(4) by (auto simp: ShouldUpgradeWebsocket_def split: if_splits)
  with assms show ?thesis by (simp add: handle_request_def handle_upgrade_def UpgradeToWebsocket_def Let_def)
qed

theorem upgrade_without_key_crashes_witness:
  "handle_request sim_env 2 1 (sim_server (sim_conn (new_HttpHeaderParser\<lparr>uri := ''/ws'', version := HTTP_1_1,
      connection_flags := ConnectionUpgrade, upgrade_flags := UpgradeWebSocket\<rparr>)) ''*'') k0 = Inl NullDeref"
  by (rule upgrade_without_key_crashes [OF sim_server_at(1) _ sim_server_at(2)])
    (simp_all add: sim_find sim_conn_def new_Connection_def ShouldUpgradeWebsocket_def UpgradeWebSocket_def ConnectionUpgrade_def
      websocket_key_def GetHeader_def new_HttpHeaderParser_def)



text \<open>
  C21. A path without handlers is answered by a 404 response without a body, and the connection is
  closed: the response is all that is sent, the connection is gone, the others are untouched.
\<close>

theorem unknown_path_404:
  assumes "wire_law (env_os e) out" "server_ok s" "(p, c) \<in> set (pending_conns s)" "c_fd c \<noteq> -1" "fmt_nat e 404 = ''404''"
    "\<forall>(k, h) \<in> set (request_handlers s). regex_match e k (c_str (uri (c_parser c)) 0) = Some False"
    "\<forall>ep fd w. fst (sys_epoll_del (env_os e) ep fd w) \<and> out (snd (sys_epoll_del (env_os e) ep fd w)) = out w"
    "\<forall>fd w. out (sys_close (env_os e) fd w) = out w"
  shows "\<exists>s' w'. handle_request e p ret s w = Inr (s', w') \<and> pending_conns s' = filter (\<lambda>(q, _). q \<noteq> p) (pending_conns s)
    \<and> out w' = (out w)(c_fd c := out w (c_fd c)
        @ HttpVersionToString (version (c_parser c)) @ '' 404 Not Found'' @ CRLF @ CRLF)"
proof -
  let ?rsp = "HttpVersionToString (version (c_parser c)) @ '' 404 Not Found'' @ CRLF @ CRLF"
  have "distinct (map fst (pending_conns s))" using assms(2) by (simp add: server_ok_def ptrs_def)
  with assms(3) have at: "conn_at p s = Inr c" by (simp add: conn_at_def map_of_is_SomeI)
  have none: "FindRequestHandler e (uri (c_parser c)) s = Inr None"
    unfolding FindRequestHandler_def find_loop_None by (rule assms(6))
  have rsp: "MakeResponse (fmt_nat e) 404 (version (c_parser c)) [] [] = Inr ?rsp"
    using assms(5) by (simp add: MakeResponse_spec status_lines header_lines_def)
  obtain w1 where w1: "Connection_Write (env_os e) ?rsp c w = (1, w1)" "out w1 = (out w)(c_fd c := out w (c_fd c) @ ?rsp)"
    using Connection_Write_wire [OF assms(1,4)] by blast
  obtain w2 where w2: "sys_epoll_del (env_os e) (poll_fd s) (c_fd c) w1 = (True, w2)" "out w2 = out w1"
    using assms(7) by (metis (full_types) prod.collapse)
  with at none rsp w1 w2 assms(4,8) show ?thesis
    by (simp add: handle_request_def close_and_go_def CloseConn_def Let_def set_conn_def)
qed

theorem unknown_path_404_witness:
  "\<exists>s' w'. handle_request sim_env 2 1 (sim_server (sim_conn (new_HttpHeaderParser\<lparr>uri := ''/x'', version := HTTP_1_0\<rparr>)) ''/y'') k0 = Inr (s', w')
    \<and> pending_conns s' = [] \<and> k_output w' 7 = ''HTTP/1.0 404 Not Found'' @ CRLF @ CRLF"
proof -
  let ?c = "sim_conn (new_HttpHeaderParser\<lparr>uri := ''/x'', version := HTTP_1_0\<rparr>)"
  have ok: "server_ok (sim_server ?c ''/y'')"
    by (intro sim_server_ok sim_conn_ok) (auto simp: parser_inv_def new_HttpHeaderParser_def)
  have mem: "(2, ?c) \<in> set (pending_conns (sim_server ?c ''/y''))" by simp
  have f: "c_parser ?c = new_HttpHeaderParser\<lparr>uri := ''/x'', version := HTTP_1_0\<rparr>" "c_fd ?c = 7" by (simp_all add: sim_conn_def new_Connection_def)
  obtain s' w' where "handle_request sim_env 2 1 (sim_server ?c ''/y'') k0 = Inr (s', w')"
    "pending_conns s' = []" "k_output w' = (k_output k0)(7 := k_output k0 7 @ HttpVersionToString HTTP_1_0 @ '' 404 Not Found'' @ CRLF @ CRLF)"
    using unknown_path_404 [OF _ ok mem, of sim_env k_output 1 k0] f sim_wire_law
    by (auto simp: c_str_def sim_os_close dec_status)
  then show ?thesis by (intro exI [of _ s'] exI [of _ w']) (simp add: k0_def)
qed

text \<open>
  Handlers are looked up in the order of their patterns: the entry found is registered and
  matches, and every registered pattern that is smaller in the byte order does not match.
\<close>

theorem find_first_match:
  assumes "server_ok s" "FindRequestHandler e u s = Inr (Some k)"
  shows "regex_match e k (c_str u 0) = Some True \<and> k \<in> fst ` set (request_handlers s)
    \<and> (\<forall>k' \<in> fst ` set (request_handlers s). k' < k \<longrightarrow> regex_match e k' (c_str u 0) = Some False)"
proof -
  from assms(2) obtain pre h post where t: "request_handlers s = pre @ (k, h) # post" "regex_match e k (c_str u 0) = Some True"
    "\<forall>(k', h') \<in> set pre. regex_match e k' (c_str u 0) = Some False"
    unfolding FindRequestHandler_def using find_loop_split by blast
  have "sorted_wrt (<) (map fst pre @ k # map fst post)"
    using assms(1) t(1) by (simp add: server_ok_def table_ok_def map_wf_def)
  then have "\<forall>k' \<in> fst ` set post. k < k'" by (auto simp: sorted_wrt_append)
  with t show ?thesis by force
qed

theorem find_first_match_witness:
  "regex_match sim_env ''/y'' (c_str ''/y'' 0) = Some True \<and> regex_match sim_env ''/a'' (c_str ''/y'' 0) = Some False"
proof -
  let ?s = "RegisterRequestHandler ''/a'' new_RequestHandler (sim_server (new_Connection 7) ''/y'')"
  have hs: "request_handlers ?s = [(''/a'', new_RequestHandler), (''/y'', new_RequestHandler)]"
    by (simp add: RegisterRequestHandler_def less_char_def)
  have "server_ok ?s"
    by (intro RegisterRequestHandler_ok sim_server_ok new_Connection_ok) (simp add: new_RequestHandler_def)
  moreover have "FindRequestHandler sim_env ''/y'' ?s = Inr (Some ''/y'')"
    unfolding FindRequestHandler_def hs by (simp add: c_str_def)
  ultimately show ?thesis using find_first_match [of ?s sim_env "''/y''" "''/y''"] unfolding hs
    by (auto simp: less_char_def)
qed

text \<open>
  A catch-all takes everything: after \<^verbatim>\<open>"*"\<close> is registered beside paths that start with a slash, every
  request finds the catch-all handler, because its pattern \<^verbatim>\<open>".*"\<close> sorts before them.
\<close>

theorem catch_all_shadows:
  assumes "\<forall>(k, h') \<in> set (request_handlers s). \<exists>x. k = CHR ''/'' # x" "\<forall>v. regex_match e ''.*'' v = Some True"
  shows "FindRequestHandler e u (RegisterRequestHandler ''*'' h s) = Inr (Some ''.*'')
    \<and> handler_at ''.*'' (RegisterRequestHandler ''*'' h s) = Inr h"
proof -
  have "''.*'' < CHR ''/'' # x" for x by (simp add: less_char_def)
  then have "map_assign ''.*'' h (request_handlers s) = (''.*'', h) # request_handlers s"
    using assms(1) by (cases "request_handlers s") auto
  with assms(2) show ?thesis by (simp add: FindRequestHandler_def RegisterRequestHandler_def handler_at_def)
qed

theorem catch_all_shadows_witness:
  "FindRequestHandler sim_env ''/y'' (RegisterRequestHandler ''*'' new_RequestHandler (sim_server (new_Connection 7) ''/y'')) = Inr (Some ''.*'')
    \<and> handler_at ''.*'' (RegisterRequestHandler ''*'' new_RequestHandler (sim_server (new_Connection 7) ''/y'')) = Inr new_RequestHandler"
  by (rule catch_all_shadows) simp_all

text \<open>
  \<open>Init\<close> on a fresh server returns 0 or one of its four error codes, keeps the invariant either
  way, and on success there is a listening connection registered under a pointer no other
  connection will get.
\<close>

theorem init_result:
  "case Init os addr port backlog new_Server w of
     (r, s, w') \<Rightarrow> r \<in> {0, -1, -2, -3, -4} \<and> server_ok s \<and> pending_conns s = []
       \<and> (r = 0 \<longrightarrow> (\<exists>q fd. server_conn s = Some (q, new_Connection fd) \<and> q < next_ptr s))"
  by (auto simp: Init_def new_Server_def server_ok_def table_ok_def ptrs_def Let_def split: prod.split option.split bool.split)

theorem init_result_witness:
  "\<exists>s w' q fd. Init sim_os None 2999 5 (new_Server :: unit Server) k0 = (0, s, w') \<and> server_ok s
     \<and> server_conn s = Some (q, new_Connection fd) \<and> q < next_ptr s"
proof -
  obtain s w' where i: "Init sim_os None 2999 5 (new_Server :: unit Server) k0 = (0, s, w')"
    by (simp add: Init_def sim_os_def Let_def)
  have "case Init sim_os None 2999 5 (new_Server :: unit Server) k0 of (r, s, w') \<Rightarrow> r \<in> {0, -1, -2, -3, -4} \<and> server_ok s \<and> pending_conns s = []
       \<and> (r = 0 \<longrightarrow> (\<exists>q fd. server_conn s = Some (q, new_Connection fd) \<and> q < next_ptr s))"
    by (rule init_result)
  with i show ?thesis by auto
qed

end
