(* ===== verification/Hpl_Life.thy ===== *)
theory Hpl_Life
  imports Hpl_Server
begin

text \<open>
  The life of a server over many calls: the epoll interest list of the kernel holds raw pointers
  to connections, and the server has to keep it in step with its list of connections through
  accepting, serving and closing. The invariant is stated on the kernel's documented behaviour
  (\<open>interest_law\<close>) alone and carried through every branch of \<open>Poll\<close>; a transition system of the
  calls a program makes (\<open>Init\<close>, registering handlers, polling, closing a connection between
  polls) then reaches only states in which the next \<open>Poll\<close> follows no dangling pointer.
\<close>

section \<open>Descriptors of the live connections\<close>

definition fd_of :: "'h Server \<Rightarrow> conn_ptr \<rightharpoonup> fd" where
  "fd_of s p = (case conn_at p s of Inr c \<Rightarrow> Some (c_fd c) | Inl e \<Rightarrow> None)"

text \<open>Every registered pointer is that of a live connection, with the descriptor it is registered under.\<close>

definition tied :: "'w interest \<Rightarrow> 'h Server \<Rightarrow> 'w \<Rightarrow> bool" where
  "tied reg s w \<longleftrightarrow> (\<forall>fd p. reg w (poll_fd s) fd = Some p \<longrightarrow> fd_of s p = Some fd)"

text \<open>A step that closes nothing and registers nothing.\<close>

definition quiet :: "'w interest \<Rightarrow> 'h Server \<Rightarrow> 'w \<Rightarrow> 'h Server \<Rightarrow> 'w \<Rightarrow> bool" where
  "quiet reg s w s' w' \<longleftrightarrow> poll_fd s' = poll_fd s \<and> fd_of s \<subseteq>\<^sub>m fd_of s' \<and> adds_none reg w w'"

definition quiet_callbacks :: "('h, 'w) env \<Rightarrow> 'w interest \<Rightarrow> bool" where
  "quiet_callbacks e reg \<longleftrightarrow>
     (\<forall>h p u body final s w r s' w'. run_handler e h p u body final s w = Inr (r, s', w') \<longrightarrow> quiet reg s w s' w')
   \<and> (\<forall>h p u s w r s' w'. run_hook e h p u s w = Inr (r, s', w') \<longrightarrow> quiet reg s w s' w')
   \<and> (\<forall>h p op d s w r s' w'. run_ws e h p op d s w = Inr (r, s', w') \<longrightarrow> quiet reg s w s' w')"

definition lawful :: "('h, 'w) env \<Rightarrow> 'w interest \<Rightarrow> bool" where
  "lawful e reg \<longleftrightarrow> env_law e \<and> quiet_callbacks e reg \<and> interest_law (env_os e) reg \<and> no_other_adds (env_os e) reg"

lemma lawfulD:
  assumes "lawful e reg"
  shows "env_law e" "quiet_callbacks e reg" "interest_law (env_os e) reg" "no_other_adds (env_os e) reg"
  using assms by (auto simp: lawful_def)

lemma tied_quiet: "tied reg s w \<Longrightarrow> quiet reg s w s' w' \<Longrightarrow> tied reg s' w'"
  unfolding tied_def quiet_def adds_none_def map_le_def by (metis domI)

lemma quiet_refl [simp]: "quiet reg s w s w"
  by (simp add: quiet_def)

lemma quiet_trans: "quiet reg s w s1 w1 \<Longrightarrow> quiet reg s1 w1 s2 w2 \<Longrightarrow> quiet reg s w s2 w2"
  unfolding quiet_def by (metis map_le_trans adds_none_trans)

lemma fd_of_set_conn: "conn_at p s = Inr c0 \<Longrightarrow> c_fd c = c_fd c0 \<Longrightarrow> fd_of (set_conn p c s) = fd_of s"
proof
  fix q assume at: "conn_at p s = Inr c0" "c_fd c = c_fd c0"
  have m: "map_of (map (\<lambda>(r, d). (r, if r = p then c else d)) cs) q
      = (if q = p then map_option (\<lambda>_. c) (map_of cs q) else map_of cs q)" for cs
    by (induction cs) auto
  show "fd_of (set_conn p c s) q = fd_of s q"
    using at by (auto simp: fd_of_def conn_at_def set_conn_def m split: option.splits prod.splits if_splits)
qed

lemma poll_fd_set_conn [simp]: "poll_fd (set_conn p c s) = poll_fd s"
  by (simp add: set_conn_def)

lemma quiet_set_conn:
  "conn_at p s = Inr c0 \<Longrightarrow> c_fd c = c_fd c0 \<Longrightarrow> adds_none reg w w' \<Longrightarrow> quiet reg s w (set_conn p c s) w'"
  by (simp add: quiet_def fd_of_set_conn)

section \<open>Reading and writing register nothing\<close>

lemma no_other_adds_calls:
  assumes "no_other_adds os reg"
  shows "sys_read os fd n w = (r, w') \<Longrightarrow> adds_none reg w w'" "sys_write os fd d w = (x, w') \<Longrightarrow> adds_none reg w w'"
    "adds_none reg w (sys_close os fd w)" "sys_now os w = (t, w') \<Longrightarrow> adds_none reg w w'"
    "sys_accept os fd w = (a, w') \<Longrightarrow> adds_none reg w w'" "sys_setsockopt os fd y w = (b, w') \<Longrightarrow> adds_none reg w w'"
    "sys_getfl os fd w = (f, w') \<Longrightarrow> adds_none reg w w'" "sys_setfl os fd g w = (b, w') \<Longrightarrow> adds_none reg w w'"
    "sys_socket os w = (a, w') \<Longrightarrow> adds_none reg w w'" "sys_bind os fd h i w = (b, w') \<Longrightarrow> adds_none reg w w'"
    "sys_listen os fd i w = (b, w') \<Longrightarrow> adds_none reg w w'"
  using assms unfolding no_other_adds_def by (metis snd_conv)+

text \<open>Reading changes the world by reads only, so whatever every read keeps is kept.\<close>

lemma Connection_Read_keeps:
  assumes "\<forall>fd n w. R w (snd (sys_read os fd n w))" "Connection_Read os c w = Inr (x, c', w')"
  shows "c_fd c' = c_fd c \<and> R w w'"
  using assms(2) assms(1) [rule_format, of w "c_fd c" "unat (SMALL_MEMORY - of_nat (length (c_buffer c)))"]
  by (auto simp: Connection_Read_def Let_def split: prod.splits read_res.splits errno.splits if_splits)

lemma ProcessDataIn_keeps:
  assumes "\<forall>fd n w. R w (snd (sys_read os fd n w))" "\<And>x y z. R x y \<Longrightarrow> R y z \<Longrightarrow> R x z"
  shows "ProcessDataIn n os c w = Some (Inr (r, c', w')) \<Longrightarrow> c_fd c' = c_fd c \<and> R w w'"
proof (induction n arbitrary: c w)
  case (Suc n)
  then obtain x c1 w1 where rd: "Connection_Read os c w = Inr (x, c1, w1)" by (auto split: sum.splits)
  note q = Connection_Read_keeps [OF assms(1) rd]
  show ?case
  proof (cases "line_loop c1")
    case (Inr y)
    obtain z c2 where y: "y = (z, c2)" by (cases y)
    with Inr have "c_fd c2 = c_fd c1" using line_loop_fd by metis
    with Inr y rd q Suc show ?thesis
      by (cases z) (auto split: if_splits intro: assms(2))
  qed (use Suc.prems rd q in \<open>auto split: if_splits\<close>)
qed simp

lemma Connection_Read_quiet:
  assumes "no_other_adds os reg" "Connection_Read os c w = Inr (r, c', w')"
  shows "c_fd c' = c_fd c \<and> adds_none reg w w'"
  using assms by (intro Connection_Read_keeps [where R = "adds_none reg"]) (auto simp: no_other_adds_def)

lemma ProcessDataIn_quiet:
  assumes "no_other_adds os reg" "ProcessDataIn n os c w = Some (Inr (r, c', w'))"
  shows "c_fd c' = c_fd c \<and> adds_none reg w w'"
  using assms
  by (intro ProcessDataIn_keeps [where R = "adds_none reg"]) (auto simp: no_other_adds_def intro: adds_none_trans)

lemma Connection_Write_quiet:
  assumes "no_other_adds os reg" "Connection_Write os d c w = (r, w')"
  shows "adds_none reg w w'"
  using assms(2) no_other_adds_calls(2) [OF assms(1)]
  by (auto simp: Connection_Write_def split: prod.splits write_res.splits errno.splits if_splits)

lemma c_fd_set_ws [simp]: "c_fd (set_ws f c) = c_fd c"
  by (simp add: set_ws_def)

lemma WebsocketConnection_Write_quiet:
  assumes "no_other_adds os reg" "WebsocketConnection_Write os ty d c w = (r, c', w')"
  shows "c_fd c' = c_fd c \<and> adds_none reg w w'"
  using assms(2)
  by (auto simp: WebsocketConnection_Write_def Let_def split: prod.splits
      dest!: Connection_Write_quiet [OF assms(1)] no_other_adds_calls(4) [OF assms(1)]) (metis adds_none_trans)

lemma ws_receive_quiet:
  assumes "no_other_adds os reg" "ws_receive os c w = Inr (act, c', w')"
  shows "c_fd c' = c_fd c \<and> adds_none reg w w'"
proof -
  from assms(2) obtain r c1 w1 where rd: "Connection_Read os c w = Inr (r, c1, w1)"
    by (auto simp: ws_receive_def rbind_eq_Inr split: option.splits)
  note q = Connection_Read_quiet [OF assms(1) rd]
  obtain now w2 where now: "sys_now os w1 = (now, w2)" by (cases "sys_now os w1")
  have w2: "adds_none reg w w2" using q adds_none_trans [OF _ no_other_adds_calls(4) [OF assms(1) now]] by simp
  have wr: "c_fd d' = c_fd d \<and> adds_none reg w w3" if "WebsocketConnection_Write os ty x d w2 = (y, d', w3)" for ty x d y d' w3
    using WebsocketConnection_Write_quiet [OF assms(1) that] adds_none_trans [OF w2] by simp
  show ?thesis
  proof (cases "r < 0")
    case True
    with assms(2) rd q show ?thesis by (auto simp: ws_receive_def split: option.splits)
  next
    case False
    with assms(2) rd now obtain opc fin pl where "decode_frame (c_buffer c1) = Inr (opc, fin, pl)"
      by (auto simp: ws_receive_def rbind_eq_Inr Let_def split: option.splits)
    with assms(2) rd now False q w2 show ?thesis
      by (auto simp: ws_receive_def Let_def split: option.splits if_splits prod.splits dest!: wr)
  qed
qed

lemma ServerPing_quiet:
  assumes "no_other_adds os reg" "ServerPing os c w = Inr (b, c', w')"
  shows "c_fd c' = c_fd c \<and> adds_none reg w w'"
  using assms(2)
  by (auto simp: ServerPing_def Let_def split: option.splits prod.splits if_splits
      dest!: WebsocketConnection_Write_quiet [OF assms(1)] no_other_adds_calls(4) [OF assms(1)] intro: adds_none_trans)

lemma UpgradeToWebsocket_quiet:
  assumes "no_other_adds os reg" "UpgradeToWebsocket os m h c w = (ok, c', w')"
  shows "c_fd c' = c_fd c \<and> adds_none reg w w'"
  using assms(2) no_other_adds_calls(4) [OF assms(1)]
  by (auto simp: UpgradeToWebsocket_def Let_def split: if_splits prod.splits)

lemma GetWsAccept_fd: "GetWsAccept h a c = Inr (x, c') \<Longrightarrow> c_fd c' = c_fd c"
  by (auto simp: GetWsAccept_def rbind_eq_Inr split: option.splits if_splits)

section \<open>Every branch of the event loop keeps the interest list in step\<close>

lemma fd_of_remove:
  "q \<noteq> p \<Longrightarrow> fd_of ((set_conn p c s)\<lparr>pending_conns := filter (\<lambda>(r, _). r \<noteq> p) (pending_conns s)\<rparr>) q = fd_of s q"
  "q \<noteq> p \<Longrightarrow> fd_of (s\<lparr>pending_conns := filter (\<lambda>(r, _). r \<noteq> p) (pending_conns s)\<rparr>) q = fd_of s q"
proof -
  assume "q \<noteq> p"
  then have "map_of (filter (\<lambda>(r, _). r \<noteq> p) cs) q = map_of cs q" for cs :: "(conn_ptr \<times> 'a Connection) list"
    by (induction cs) auto
  with \<open>q \<noteq> p\<close> show "fd_of ((set_conn p c s)\<lparr>pending_conns := filter (\<lambda>(r, _). r \<noteq> p) (pending_conns s)\<rparr>) q = fd_of s q"
    "fd_of (s\<lparr>pending_conns := filter (\<lambda>(r, _). r \<noteq> p) (pending_conns s)\<rparr>) q = fd_of s q"
    by (auto simp: fd_of_def conn_at_def set_conn_def split: option.splits prod.splits)
qed

lemma pending_conns_set_conn [simp]:
  "filter (\<lambda>(q, _). q \<noteq> p) (pending_conns (set_conn p c s)) = filter (\<lambda>(q, _). q \<noteq> p) (pending_conns s)"
  by (simp add: set_conn_def)

lemma CloseConn_tied:
  assumes "interest_law os reg" "no_other_adds os reg" "tied reg s w" "CloseConn os p s w = Inr (r, s', w')"
  shows "tied reg s' w'"
proof -
  from assms(4) obtain c where c: "conn_at p s = Inr c" by (auto simp: CloseConn_def rbind_eq_Inr)
  obtain b w1 where del: "sys_epoll_del os (poll_fd s) (c_fd c) w = (b, w1)" by (cases "sys_epoll_del os (poll_fd s) (c_fd c) w")
  with assms(1) have w1: "adds_none reg w w1" "b \<Longrightarrow> reg w1 (poll_fd s) (c_fd c) = None"
    unfolding interest_law_def by blast+
  show ?thesis
  proof (cases b)
    case False
    with assms(4) c del w1(1) assms(3) show ?thesis
      by (auto simp: CloseConn_def intro: tied_quiet simp: quiet_def)
  next
    case True
    have "poll_fd s' = poll_fd s \<and> adds_none reg w1 w' \<and> (\<forall>q. q \<noteq> p \<longrightarrow> fd_of s' q = fd_of s q)"
      using assms(4) c del True no_other_adds_calls(3) [OF assms(2)] fd_of_remove
      by (auto simp: CloseConn_def Let_def split: if_splits)
    then have s': "poll_fd s' = poll_fd s" "adds_none reg w1 w'" "\<And>q. q \<noteq> p \<Longrightarrow> fd_of s' q = fd_of s q" by auto
    show ?thesis unfolding tied_def s'(1)
    proof (intro allI impI)
      fix fd q assume "reg w' (poll_fd s) fd = Some q"
      then have reg1: "reg w1 (poll_fd s) fd = Some q" using s'(2) unfolding adds_none_def map_le_def by (metis domI)
      then have "reg w (poll_fd s) fd = Some q" using w1(1) unfolding adds_none_def map_le_def by (metis domI)
      then have f: "fd_of s q = Some fd" using assms(3) by (simp add: tied_def)
      have "q \<noteq> p" using f c reg1 w1(2) [OF True] by (auto simp: fd_of_def)
      with s'(3) f show "fd_of s' q = Some fd" by simp
    qed
  qed
qed

lemma close_and_go_tied:
  assumes "lawful e reg" "tied reg s w" "close_and_go e p s w = Inr (s', w')"
  shows "tied reg s' w'"
  using assms(3) CloseConn_tied [OF lawfulD(3,4) [OF assms(1)] assms(2)]
  by (auto simp: close_and_go_def rbind_eq_Inr)

lemma opt_hook_quiet:
  assumes "lawful e reg" "opt_hook e hook n p u s w = Inr (r, s', w')"
  shows "quiet reg s w s' w'"
  using assms(2) lawfulD(2) [OF assms(1)]
  by (auto simp: opt_hook_def quiet_callbacks_def split: option.splits)

lemma ws_read_event_quiet:
  assumes "lawful e reg" "ws_read_event e p s w = Inr (r, s', w')"
  shows "quiet reg s w s' w'"
proof -
  from assms(2) obtain c act c1 w1 where c: "conn_at p s = Inr c" "ws_receive (env_os e) c w = Inr (act, c1, w1)"
    by (auto simp: ws_read_event_def rbind_eq_Inr)
  from ws_receive_quiet [OF lawfulD(4) [OF assms(1)] c(2)] have q: "quiet reg s w (set_conn p c1 s) w1"
    by (simp add: quiet_set_conn [OF c(1)])
  show ?thesis
  proof (cases act)
    case (Ret x)
    with q assms(2) c show ?thesis by (auto simp: ws_read_event_def)
  next
    case (Call h opc d)
    with assms(2) c obtain s2 c2 where s2: "run_ws e h p opc d (set_conn p c1 s) w1 = Inr (r, s2, w')" "conn_at p s2 = Inr c2"
      "s' = set_conn p (set_ws (last_payload_update (\<lambda>_. [])) c2) s2"
      by (auto simp: ws_read_event_def rbind_eq_Inr)
    have "quiet reg (set_conn p c1 s) w1 s2 w'"
      using s2(1) lawfulD(2) [OF assms(1)] unfolding quiet_callbacks_def by blast
    moreover have "quiet reg s2 w' s' w'" by (simp add: s2(3) quiet_set_conn [OF s2(2)])
    ultimately show ?thesis using q by (blast intro: quiet_trans)
  qed
qed

lemma handle_websocket_tied:
  assumes "lawful e reg" "tied reg s w" "handle_websocket e p s w = Inr (s', w')"
  shows "tied reg s' w'"
  using assms(3)
  by (auto simp: handle_websocket_def rbind_eq_Inr split: if_splits option.splits
      dest!: ws_read_event_quiet [OF assms(1)] opt_hook_quiet [OF assms(1)]
      intro: tied_quiet [OF assms(2)] close_and_go_tied [OF assms(1) tied_quiet [OF assms(2) quiet_trans]])

lemma answer_upgrade_tied:
  fixes e :: "('h, 'w) env"
  assumes "lawful e reg" "tied reg s w" "answer_upgrade e p k u n s w = Inr (s', w')"
  shows "tied reg s' w'"
proof -
  from assms(3) obtain c a c1 where c: "conn_at p s = Inr c" "GetWsAccept (sha1_of e) (hash_array e) c = Inr (a, c1)"
    by (auto simp: answer_upgrade_def rbind_eq_Inr)
  with assms(3) obtain rsp n' s2 w2 and hs :: "'h RequestHandler" where
    hook: "opt_hook e (ws_ready_hook hs) n p u (set_conn p c1 s) (snd (Connection_Write (env_os e) rsp c1 w)) = Inr (n', s2, w2)"
    and last: "close_and_go e p s2 w2 = Inr (s', w') \<or> s' = s2 \<and> w' = w2"
    unfolding answer_upgrade_def by (auto simp: rbind_eq_Inr Let_def split: if_splits)
  have "adds_none reg w (snd (Connection_Write (env_os e) rsp c1 w))"
    using Connection_Write_quiet [OF lawfulD(4) [OF assms(1)]] by (metis prod.collapse)
  from quiet_set_conn [OF c(1) GetWsAccept_fd [OF c(2)] this] opt_hook_quiet [OF assms(1) hook]
  have "quiet reg s w s2 w2" by (rule quiet_trans)
  with last assms(2) show ?thesis by (auto intro: tied_quiet close_and_go_tied [OF assms(1)])
qed

lemma handle_upgrade_tied:
  assumes "lawful e reg" "tied reg s w" "handle_upgrade e p k u s w = Inr (s', w')"
  shows "tied reg s' w'"
proof -
  from assms(3) obtain c hs where c: "conn_at p s = Inr c" "handler_at k s = Inr hs"
    by (auto simp: handle_upgrade_def rbind_eq_Inr)
  obtain ok c1 w1 where up: "UpgradeToWebsocket (env_os e) (ws_message_handler hs) (ws_will_close_hook hs) c w = (ok, c1, w1)"
    by (cases "UpgradeToWebsocket (env_os e) (ws_message_handler hs) (ws_will_close_hook hs) c w")
  from assms(3) c up obtain a c2 n s2 w2 where acc: "GetWsAccept (sha1_of e) (hash_array e) c1 = Inr (a, c2)"
    and hook: "opt_hook e (ws_connect_hook hs) 0 p u (set_conn p c2 s) w1 = Inr (n, s2, w2)"
    and last: "close_and_go e p s2 w2 = Inr (s', w') \<or> answer_upgrade e p k u n s2 w2 = Inr (s', w')"
    by (auto simp: handle_upgrade_def rbind_eq_Inr split: if_splits)
  from UpgradeToWebsocket_quiet [OF lawfulD(4) [OF assms(1)] up] GetWsAccept_fd [OF acc]
  have "quiet reg s w (set_conn p c2 s) w1" by (simp add: quiet_set_conn [OF c(1)])
  from quiet_trans [OF this opt_hook_quiet [OF assms(1) hook]] have "tied reg s2 w2" by (rule tied_quiet [OF assms(2)])
  with last show ?thesis by (auto intro: answer_upgrade_tied [OF assms(1)] close_and_go_tied [OF assms(1)])
qed

lemma handle_request_tied:
  fixes e :: "('h, 'w) env"
  assumes "lawful e reg" "tied reg s w" "handle_request e p ret s w = Inr (s', w')"
  shows "tied reg s' w'"
proof -
  from assms(3) obtain c found where c: "conn_at p s = Inr c" "FindRequestHandler e (uri (c_parser c)) s = Inr found"
    by (auto simp: handle_request_def Let_def rbind_eq_Inr)
  note close = close_and_go_tied [OF assms(1)]
  show ?thesis
  proof (cases found)
    case None
    with assms(3) c obtain rsp where rsp: "close_and_go e p s (snd (Connection_Write (env_os e) rsp c w)) = Inr (s', w')"
      by (auto simp: handle_request_def Let_def rbind_eq_Inr split_beta)
    obtain x w1 where "Connection_Write (env_os e) rsp c w = (x, w1)" by (cases "Connection_Write (env_os e) rsp c w")
    moreover from this rsp have "close_and_go e p s w1 = Inr (s', w')" by simp
    moreover from calculation have "quiet reg s w s w1"
      using Connection_Write_quiet [OF lawfulD(4) [OF assms(1)]] by (simp add: quiet_def)
    ultimately show ?thesis using close [OF tied_quiet [OF assms(2)]] by blast
  next
    case (Some k)
    show ?thesis
    proof (cases "ShouldUpgradeWebsocket c")
      case True
      with assms(3) c Some have "handle_upgrade e p k (uri (c_parser c)) s w = Inr (s', w')"
        by (simp add: handle_request_def Let_def)
      then show ?thesis by (rule handle_upgrade_tied [OF assms(1,2)])
    next
      case False
      with assms(3) c Some obtain r s1 w1 and hs :: "'h RequestHandler" where
        run: "(case http_handlers hs ! method_index (http_method (c_parser c)) of None \<Rightarrow> Inr (-1, s, w)
           | Some h \<Rightarrow> run_handler e h p (uri (c_parser c)) (PopBody c) (ret = 1) s w) = Inr (r, s1, w1)"
        and last: "close_and_go e p s1 w1 = Inr (s', w') \<or> s' = s1 \<and> w' = w1"
        by (auto simp: handle_request_def Let_def rbind_eq_Inr split: if_splits)
      from run have "quiet reg s w s1 w1"
        using lawfulD(2) [OF assms(1)] unfolding quiet_callbacks_def by (auto split: option.splits)
      with last close tied_quiet [OF assms(2)] show ?thesis by blast
    qed
  qed
qed

lemma handle_http_tied:
  assumes "lawful e reg" "tied reg s w" "handle_http e p s w = Inr (s', w')"
  shows "tied reg s' w'"
proof -
  from assms(3) obtain c ret c1 w1 where c: "conn_at p s = Inr c" "ProcessDataIn (fuel e) (env_os e) c w = Some (Inr (ret, c1, w1))"
    by (auto simp: handle_http_def rbind_eq_Inr split: option.splits)
  from ProcessDataIn_quiet [OF lawfulD(4) [OF assms(1)] c(2)]
  have "quiet reg s w (set_conn p c1 s) w1" by (simp add: quiet_set_conn [OF c(1)])
  then have "tied reg (set_conn p c1 s) w1" by (rule tied_quiet [OF assms(2)])
  with assms(3) c show ?thesis
    by (auto simp: handle_http_def Let_def split: if_splits
        intro: close_and_go_tied [OF assms(1)] handle_request_tied [OF assms(1)])
qed

lemma setnonblocking_quiet:
  assumes "no_other_adds os reg" "setnonblocking os fd w = (r, w')"
  shows "adds_none reg w w'"
  using assms(2)
  by (auto simp: setnonblocking_def split: prod.splits option.splits if_splits bool.splits
      dest!: no_other_adds_calls(7,8) [OF assms(1)] intro: adds_none_trans)

lemma AcceptNewConnection_quiet:
  assumes "no_other_adds os reg" "AcceptNewConnection os s w = Inr (new, s', w')"
  shows "quiet reg s w s' w' \<and> (\<forall>p c. new = Some (p, c) \<longrightarrow> p = next_ptr s)
    \<and> pending_conns s' = pending_conns s \<and> server_conn s' = server_conn s"
proof -
  have fd: "fd_of (s\<lparr>next_ptr := n\<rparr>) = fd_of s" for n by (rule ext) (auto simp: fd_of_def conn_at_def split: option.split)
  show ?thesis using assms(2)
    by (auto simp: AcceptNewConnection_def Let_def quiet_def fd split: option.splits prod.splits bool.splits
        dest!: no_other_adds_calls(5,6) [OF assms(1)] setnonblocking_quiet [OF assms(1)] intro: adds_none_trans)
qed

lemma handle_accept_tied:
  assumes "lawful e reg" "server_ok s" "tied reg s w" "handle_accept e s w = Inr (r, s', w')"
  shows "tied reg s' w'"
proof -
  from assms(4) obtain new s1 w1 where acc: "AcceptNewConnection (env_os e) s w = Inr (new, s1, w1)"
    by (auto simp: handle_accept_def rbind_eq_Inr)
  note q = AcceptNewConnection_quiet [OF lawfulD(4) [OF assms(1)] acc]
  then have t1: "tied reg s1 w1" using tied_quiet [OF assms(3)] by blast
  show ?thesis
  proof (cases new)
    case None
    with acc assms(4) t1 show ?thesis by (simp add: handle_accept_def)
  next
    case (Some pc)
    obtain p c where pc: "pc = (p, c)" by (cases pc)
    have p: "p = next_ptr s" using q Some pc by blast
    have fresh: "map_of (pending_conns s1) p = None" "map_option fst (server_conn s1) \<noteq> Some p"
      using q assms(2) p by (auto simp: server_ok_def ptrs_def map_of_eq_None_iff)
    obtain b w2 where add: "sys_epoll_add (env_os e) (poll_fd s1) (c_fd c) (p, EPOLLIN) w1 = (b, w2)" by fastforce
    show ?thesis
    proof (cases b)
      case False
      with add lawfulD(3) [OF assms(1)] have "adds_none reg w1 w2" unfolding interest_law_def by metis
      then have "tied reg s1 w2" by (intro tied_quiet [OF t1]) (simp add: quiet_def)
      with False add acc Some pc assms(4) show ?thesis by (simp add: handle_accept_def)
    next
      case True
      let ?s = "s1\<lparr>pending_conns := pending_conns s1 @ [(p, c)]\<rparr>"
      have le: "reg w2 (poll_fd s1) \<subseteq>\<^sub>m (reg w1 (poll_fd s1))(c_fd c \<mapsto> p)"
        using True add lawfulD(3) [OF assms(1)] unfolding interest_law_def by metis
      have fd: "fd_of ?s q = (if q = p then Some (c_fd c) else fd_of s1 q)" for q
        using fresh by (auto simp: fd_of_def conn_at_def map_add_def split: option.splits)
      have "fd_of s1 p = None" using fresh by (auto simp: fd_of_def conn_at_def split: option.split)
      then have "fd_of ?s q = Some f" if "reg w2 (poll_fd s1) f = Some q" for f q
        using that t1 fd [of q] le [unfolded map_le_def, rule_format, of f]
        by (cases "f = c_fd c") (auto simp: tied_def dom_def)
      then have "tied reg ?s w2" by (simp add: tied_def)
      with True add acc Some pc assms(4) show ?thesis by (simp add: handle_accept_def)
    qed
  qed
qed

lemma handle_event_tied:
  assumes "lawful e reg" "server_ok s" "tied reg s w" "handle_event e ev s w = Inr (r, s', w')"
  shows "tied reg s' w'"
  using assms(4) handle_accept_tied [OF assms(1-3)] handle_websocket_tied [OF assms(1,3)] handle_http_tied [OF assms(1,3)] assms(3)
  by (auto simp: handle_event_def rbind_eq_Inr split: prod.splits if_splits)

lemma event_loop_tied:
  assumes "lawful e reg"
  shows "server_ok s \<Longrightarrow> tied reg s w \<Longrightarrow> distinct (map fst evs)
    \<Longrightarrow> \<forall>p \<in> set (map fst evs). p \<in> set (ptrs s) \<or> map_option fst (server_conn s) = Some p
    \<Longrightarrow> event_loop e evs s w = Inr (r, s', w') \<Longrightarrow> tied reg s' w'"
proof (induction evs arbitrary: s w)
  case (Cons ev evs)
  obtain p m where ev: "ev = (p, m)" by (cases ev)
  from Cons.prems(5) obtain x s1 w1 where h: "handle_event e ev s w = Inr (x, s1, w1)" by (auto simp: rbind_eq_Inr)
  have t: "tied reg s1 w1" by (rule handle_event_tied [OF assms Cons.prems(1,2) h])
  have "p \<in> set (ptrs s) \<or> map_option fst (server_conn s) = Some p" using Cons.prems(4) ev by simp
  from handle_event_ok [OF lawfulD(1) [OF assms] Cons.prems(1) this, of m w] h ev
  have s1: "server_ok s1" "set (ptrs s) - {p} \<subseteq> set (ptrs s1)" "map_option fst (server_conn s1) = map_option fst (server_conn s)"
    by simp_all
  have live: "\<forall>q \<in> set (map fst evs). q \<in> set (ptrs s1) \<or> map_option fst (server_conn s1) = Some q"
    using Cons.prems(3,4) s1(2,3) ev by auto
  show ?case using Cons.prems(3,5) h t Cons.IH [OF s1(1) t _ live] by (cases x) auto
qed simp

text \<open>Pings change no descriptor.\<close>

lemma ping_loop_quiet:
  assumes "no_other_adds os reg"
  shows "ping_loop os cs w = Inr (cs', w') \<Longrightarrow>
    map (\<lambda>(p, c). (p, c_fd c)) cs' = map (\<lambda>(p, c). (p, c_fd c)) cs \<and> adds_none reg w w'"
proof (induction cs arbitrary: w cs')
  case (Cons pc cs)
  obtain p c where pc: "pc = (p, c)" by (cases pc)
  from Cons.prems pc obtain b c1 w1 cs1 where
    ping: "(if ws_conn c \<noteq> None then ServerPing os c w else Inr (False, c, w)) = Inr (b, c1, w1)"
    and rest: "ping_loop os cs w1 = Inr (cs1, w')" "cs' = (p, c1) # cs1"
    by (auto simp: rbind_eq_Inr)
  from ping have "c_fd c1 = c_fd c \<and> adds_none reg w w1" by (auto split: if_splits dest!: ServerPing_quiet [OF assms])
  with Cons.IH [OF rest(1)] rest(2) pc show ?case by (auto intro: adds_none_trans)
qed simp

lemma fd_of_map_of:
  "fd_of s p = (case map_of (map (\<lambda>(p, c). (p, c_fd c)) (pending_conns s)) p of
     Some fd \<Rightarrow> Some fd | None \<Rightarrow> (case server_conn s of Some (q, c) \<Rightarrow> if q = p then Some (c_fd c) else None | None \<Rightarrow> None))"
proof -
  have "map_of (map (\<lambda>(p, c). (p, c_fd c)) cs) p = map_option c_fd (map_of cs p)" for cs :: "(conn_ptr \<times> 'a Connection) list"
    by (induction cs) auto
  then show ?thesis by (auto simp: fd_of_def conn_at_def split: option.split)
qed

lemma tied_ping:
  assumes "no_other_adds os reg" "tied reg s w" "ping_loop os (pending_conns s) w = Inr (cs, w')"
  shows "tied reg (s\<lparr>pending_conns := cs\<rparr>) w'"
proof (rule tied_quiet [OF assms(2)])
  note q = ping_loop_quiet [OF assms(1,3)]
  then have "fd_of (s\<lparr>pending_conns := cs\<rparr>) p = fd_of s p" for p
    unfolding fd_of_map_of by (simp split: option.split)
  with q show "quiet reg s w (s\<lparr>pending_conns := cs\<rparr>) w'" by (simp add: quiet_def map_le_def)
qed

text \<open>What \<^verbatim>\<open>epoll_wait\<close> reports is live, and no connection is reported twice.\<close>

lemma reported_live:
  assumes "interest_law os reg" "tied reg s w" "sys_epoll_wait os (poll_fd s) n t w = (Some evs, w')"
  shows "distinct (map fst evs)" "p \<in> set (map fst evs) \<Longrightarrow> p \<in> set (ptrs s) \<or> map_option fst (server_conn s) = Some p"
proof -
  from assms(1,3) obtain fds where fds: "distinct fds" "map (reg w (poll_fd s)) fds = map (Some \<circ> fst) evs"
    unfolding interest_law_def by metis
  have bck: "fd_of s q = Some fd" if "reg w (poll_fd s) fd = Some q" for fd q using assms(2) that by (simp add: tied_def)
  from bck have "inj_on (reg w (poll_fd s)) (dom (reg w (poll_fd s)))" 
    by (intro inj_onI) (metis domD option.inject)
  moreover have "set fds \<subseteq> dom (reg w (poll_fd s))"
  proof
    fix fd assume "fd \<in> set fds"
    then have "reg w (poll_fd s) fd \<in> set (map (Some \<circ> fst) evs)" using fds(2) by (metis image_eqI list.set_map)
    then show "fd \<in> dom (reg w (poll_fd s))" by auto
  qed
  ultimately have "distinct (map (reg w (poll_fd s)) fds)" using fds(1) by (simp add: distinct_map inj_on_subset)
  then show "distinct (map fst evs)" unfolding fds(2) by (metis distinct_map map_map)
  assume "p \<in> set (map fst evs)"
  then have "Some p \<in> set (map (reg w (poll_fd s)) fds)" unfolding fds(2) by auto
  then obtain fd where "reg w (poll_fd s) fd = Some p" by auto
  with bck have "fd_of s p = Some fd" by blast
  then show "p \<in> set (ptrs s) \<or> map_option fst (server_conn s) = Some p"
    by (auto simp: fd_of_def conn_at_def ptrs_def split: option.splits prod.splits if_splits dest!: map_of_SomeD intro: rev_image_eqI)
qed

lemma Poll_alive:
  assumes "lawful e reg" "server_ok s" "tied reg s w"
  shows "alive (\<lambda>(r, s', w'). server_ok s') (Poll e t s w)"
proof (rule Poll_ok [OF lawfulD(1) [OF assms(1)] assms(2)])
  fix cs w1 evs w2 p
  assume ping: "ping_loop (env_os e) (pending_conns s) w = Inr (cs, w1)"
    and wait: "sys_epoll_wait (env_os e) (poll_fd s) max_events t w1 = (Some evs, w2)"
  let ?s = "s\<lparr>pending_conns := cs\<rparr>"
  have "map fst cs = map fst (pending_conns s)"
    using ping_loop_quiet [OF lawfulD(4) [OF assms(1)] ping] by (metis (mono_tags, lifting) map_map map_eq_conv comp_apply fst_conv split_beta)
  then have p: "ptrs ?s = ptrs s" by (simp add: ptrs_def)
  have "tied reg ?s w1" by (rule tied_ping [OF lawfulD(4) [OF assms(1)] assms(3) ping])
  moreover have "sys_epoll_wait (env_os e) (poll_fd ?s) max_events t w1 = (Some evs, w2)" using wait by simp
  ultimately have "distinct (map fst evs)" "p \<in> set (map fst evs) \<Longrightarrow> p \<in> set (ptrs ?s) \<or> map_option fst (server_conn ?s) = Some p"
    using reported_live [OF lawfulD(3) [OF assms(1)]] by blast+
  with p show "distinct (map fst evs) \<and> (p \<in> set (map fst evs) \<longrightarrow> p \<in> set (ptrs s) \<or> map_option fst (server_conn s) = Some p)"
    by simp
qed

lemma Poll_tied:
  assumes "lawful e reg" "server_ok s" "tied reg s w" "Poll e t s w = Inr (r, s', w')"
  shows "tied reg s' w'"
proof -
  from assms(4) obtain cs w1 where ping: "ping_loop (env_os e) (pending_conns s) w = Inr (cs, w1)"
    by (auto simp: Poll_def rbind_eq_Inr)
  let ?s = "s\<lparr>pending_conns := cs\<rparr>"
  have t1: "tied reg ?s w1" by (rule tied_ping [OF lawfulD(4) [OF assms(1)] assms(3) ping])
  have ok: "server_ok ?s"
  proof -
    have "\<forall>(p, c) \<in> set (pending_conns s). conn_ok c" using assms(2) by (simp add: server_ok_def)
    from ping_loop_ok [OF this, of "env_os e" w] ping show ?thesis using assms(2) by (simp add: server_ok_def ptrs_def)
  qed
  obtain res w2 where wait: "sys_epoll_wait (env_os e) (poll_fd ?s) max_events t w1 = (res, w2)" by fastforce
  with lawfulD(3) [OF assms(1)] have "adds_none reg w1 w2" unfolding interest_law_def by metis
  then have t2: "tied reg ?s w2" by (intro tied_quiet [OF t1]) (simp add: quiet_def)
  show ?thesis
  proof (cases res)
    case None
    with assms(4) ping wait t2 show ?thesis by (simp add: Poll_def)
  next
    case (Some evs)
    with assms(4) ping wait obtain x where loop: "event_loop e evs ?s w2 = Inr (x, s', w')"
      by (auto simp: Poll_def rbind_eq_Inr)
    note live = reported_live [OF lawfulD(3) [OF assms(1)] t1 wait [unfolded Some]]
    from event_loop_tied [OF assms(1) ok t2 live(1) _ loop] live(2) show ?thesis by blast
  qed
qed

section \<open>The calls of a program\<close>

text \<open>
  What happens between \<open>Init\<close> and the end of a program: handlers are registered, \<open>Poll\<close> is called,
  a connection is closed outside \<open>Poll\<close> (as \<^verbatim>\<open>proxy_like.cc\<close> does when an upstream answer arrived),
  and the rest of the world moves on without registering descriptors with the server's epoll instance.
\<close>

inductive server_step :: "('h, 'w) env \<Rightarrow> 'w interest \<Rightarrow> 'h Server \<times> 'w \<Rightarrow> 'h Server \<times> 'w \<Rightarrow> bool" for e reg where
  register: "length (http_handlers h) = method_index UNKNOWN_METHOD
    \<Longrightarrow> server_step e reg (s, w) (RegisterRequestHandler u h s, w)"
| poll: "Poll e t s w = Inr (r, s', w') \<Longrightarrow> server_step e reg (s, w) (s', w')"
| close: "p \<in> set (ptrs s) \<Longrightarrow> CloseConn (env_os e) p s w = Inr (r, s', w') \<Longrightarrow> server_step e reg (s, w) (s', w')"
| world: "adds_none reg w w' \<Longrightarrow> server_step e reg (s, w) (s, w')"

inductive_cases server_stepE: "server_step e reg (s, w) x"

definition server_start :: "('h, 'w) env \<Rightarrow> 'w interest \<Rightarrow> 'h Server \<times> 'w \<Rightarrow> bool" where
  "server_start e reg x \<longleftrightarrow> lawful e reg \<and> (\<exists>addr port backlog w0. (0, x) = Init (env_os e) addr port backlog new_Server w0)"

definition server_inv :: "('h, 'w) env \<Rightarrow> 'w interest \<Rightarrow> 'h Server \<times> 'w \<Rightarrow> bool" where
  "server_inv e reg x \<longleftrightarrow> lawful e reg \<and> server_ok (fst x) \<and> tied reg (fst x) (snd x)"

text \<open>The contract of a system with an invariant, and what it gives for every run.\<close>

locale invariant_system =
  fixes i_start :: "'s \<Rightarrow> bool" and i_step :: "'s \<Rightarrow> 's \<Rightarrow> bool" and i_inv :: "'s \<Rightarrow> bool"
  assumes start_inv: "i_start x \<Longrightarrow> i_inv x"
    and step_inv: "i_inv x \<Longrightarrow> i_step x y \<Longrightarrow> i_inv y"
begin

lemma run_inv: "i_step\<^sup>*\<^sup>* x y \<Longrightarrow> i_inv x \<Longrightarrow> i_inv y"
  by (induction rule: rtranclp_induct) (auto intro: step_inv)

lemma reachable_inv: "i_start x \<Longrightarrow> i_step\<^sup>*\<^sup>* x y \<Longrightarrow> i_inv y"
  by (blast intro: run_inv start_inv)

end

lemma Init_tied:
  assumes "lawful e reg" "Init (env_os e) addr port backlog new_Server w = (0, s, w')"
  shows "server_ok s \<and> tied reg s w'"
proof -
  from assms(2) obtain ep w1 fd w2 w3 w4 w5 w6 where
    c: "sys_epoll_create (env_os e) w = (Some ep, w1)" "sys_socket (env_os e) w1 = (Some fd, w2)"
      "sys_setsockopt (env_os e) fd ''SO_REUSEADDR'' w2 = (True, w3)" "sys_setsockopt (env_os e) fd ''SO_REUSEPORT'' w3 = (True, w4)"
      "sys_bind (env_os e) fd addr (port mod 65536) w4 = (True, w5)" "sys_listen (env_os e) fd backlog w5 = (True, w6)"
      "sys_epoll_add (env_os e) ep fd (1, EPOLLIN) w6 = (True, w')"
    and s: "s = new_Server\<lparr>poll_fd := ep, server_conn := Some (1, new_Connection fd), next_ptr := 2\<rparr>"
    by (auto simp: Init_def Let_def new_Server_def split: prod.splits option.splits bool.splits if_splits)
  note law = lawfulD(3,4) [OF assms(1)]
  have "adds_none reg w1 w6"
    using no_other_adds_calls(9) [OF law(2) c(2)] no_other_adds_calls(6) [OF law(2) c(3)] no_other_adds_calls(6) [OF law(2) c(4)]
      no_other_adds_calls(10) [OF law(2) c(5)] no_other_adds_calls(11) [OF law(2) c(6)] by (metis adds_none_trans)
  moreover have "reg w1 ep = Map.empty" using c(1) law(1) unfolding interest_law_def by metis
  ultimately have "reg w6 ep = Map.empty" unfolding adds_none_def by (metis map_le_empty map_le_antisym)
  moreover have "reg w' ep \<subseteq>\<^sub>m (reg w6 ep)(fd \<mapsto> 1)" using c(7) law(1) unfolding interest_law_def by metis
  ultimately have le: "reg w' ep \<subseteq>\<^sub>m [fd \<mapsto> 1]" by simp
  have "f = fd \<and> q = 1" if "reg w' ep f = Some q" for f q
    using le [unfolded map_le_def, rule_format, of f] that by (auto simp: dom_def split: if_splits)
  then have "tied reg s w'" by (auto simp: tied_def s fd_of_def conn_at_def new_Server_def new_Connection_def)
  moreover have "server_ok s" by (simp add: s server_ok_def new_Server_def ptrs_def table_ok_def)
  ultimately show ?thesis by simp
qed

lemma server_step_inv:
  assumes "server_inv e reg x" "server_step e reg x y"
  shows "server_inv e reg y"
  using assms(2,1)
proof (cases rule: server_step.cases)
  case (register h s w u)
  have "fd_of (RegisterRequestHandler u h s) = fd_of s"
    by (rule ext) (auto simp: RegisterRequestHandler_def fd_of_map_of split: option.split)
  with register assms(1) show ?thesis
    by (auto simp: server_inv_def RegisterRequestHandler_ok tied_def) (simp add: RegisterRequestHandler_def)
next
  case (poll t s w r s' w')
  with assms(1) have i: "lawful e reg" "server_ok s" "tied reg s w" by (auto simp: server_inv_def)
  from Poll_alive [OF this, of t] Poll_tied [OF this poll(3)] poll i(1) show ?thesis by (simp add: server_inv_def)
next
  case (close p s w r s' w')
  with assms(1) have i: "lawful e reg" "server_ok s" "tied reg s w" by (auto simp: server_inv_def)
  from CloseConn_served [OF i(2) close(3), of "env_os e" w] CloseConn_tied [OF lawfulD(3,4) [OF i(1)] i(3) close(4)] close i(1)
  show ?thesis by (simp add: server_inv_def served_def)
next
  case (world w w' s)
  with assms(1) show ?thesis by (auto simp: server_inv_def quiet_def intro: tied_quiet)
qed

interpretation life: invariant_system "server_start e reg" "server_step e reg" "server_inv e reg" for e reg
proof unfold_locales
  fix x assume "server_start e reg x"
  then show "server_inv e reg x" by (cases x) (auto simp: server_start_def server_inv_def dest: Init_tied [OF _ sym])
qed (rule server_step_inv)

lemma sim_lawful: "lawful sim_env k_reg"
proof -
  have "quiet_callbacks sim_env k_reg" by (auto simp: quiet_callbacks_def sim_env_def)
  then show ?thesis by (simp add: lawful_def sim_env_law sim_interest_law sim_no_other_adds)
qed

section \<open>From the wire to the handler\<close>

text \<open>
  A request head on its way: the lines \<open>hs\<close>, which the parser turns into \<open>q\<close>, can be read in one wake-up
  with at most \<open>k\<close> reads, cut in any way, whatever follows them; each line fits the buffer.
\<close>

definition head_arrives :: "'w os \<Rightarrow> fd \<Rightarrow> 'w \<Rightarrow> nat \<Rightarrow> bytes list \<Rightarrow> HttpHeaderParser \<Rightarrow> bool" where
  "head_arrives os fd w k hs q \<longleftrightarrow> list_all one_line hs \<and> parse_head hs new_HttpHeaderParser = Some q
   \<and> (\<exists>rest m. pours os fd m k w [concat hs @ rest] \<and> (\<forall>h \<in> set hs. length h + m \<le> 1025))"

text \<open>Reading sends nothing.\<close>

definition reads_silent :: "'w os \<Rightarrow> ('w \<Rightarrow> fd \<Rightarrow> bytes) \<Rightarrow> bool" where
  "reads_silent os out \<longleftrightarrow> (\<forall>fd n w. out (snd (sys_read os fd n w)) = out w)"

text \<open>The connection when its head is complete.\<close>

definition head_done :: "fd \<Rightarrow> HttpHeaderParser \<Rightarrow> 'h Connection \<Rightarrow> bool" where
  "head_done fd q c \<longleftrightarrow> c_parser c = q \<and> c_fd c = fd \<and> ws_conn c = None \<and> PopBody c = [] \<and> conn_ok c"

lemma handle_http_head:
  fixes s :: "'h Server"
  assumes "read_law (env_os e)" "reads_silent (env_os e) out" "conn_at p s = Inr (new_Connection fd)"
    "head_arrives (env_os e) fd w k hs q" "k \<le> fuel e"
  shows "\<exists>c w'. head_done fd q c \<and> out w' = out w
    \<and> handle_http e p s w = handle_request e p (state_ret (state q)) (set_conn p c s) w'"
proof -
  obtain rest m where src: "pours (env_os e) fd m k w [concat hs @ rest]" and h: "list_all one_line hs"
    "parse_head hs new_HttpHeaderParser = Some q" "\<forall>h \<in> set hs. length h + m \<le> 1025"
    using assms(4) by (auto simp: head_arrives_def)
  let ?n = "new_Connection fd :: 'h Connection"
  have init: "c_fd ?n = fd" "ws_conn ?n = None" by (simp_all add: new_Connection_def)
  obtain c w' where c: "ProcessDataIn k (env_os e) ?n w = Some (Inr (state_ret (state q), c, w'))"
    "c_parser c = q" "PopBody c = []"
    using small.run_head_once [OF src expects_new [OF refl h]] unfolding PopBody_def new_partial_body by blast
  have "c_fd c = c_fd ?n \<and> (\<lambda>w w'. out w' = out w) w w'"
    by (rule ProcessDataIn_keeps [OF _ _ c(1)]) (use assms(2) in \<open>simp_all add: reads_silent_def\<close>)
  then have out: "out w' = out w" by blast
  from ProcessDataIn_ok [OF assms(1) new_Connection_ok c(1)] init c have hdone: "head_done fd q c"
    by (simp add: head_done_def)
  from parse_head_state [OF h(2)] have "state_ret (state q) = 0 \<or> state_ret (state q) = 1" by auto
  then have "handle_http e p s w = handle_request e p (state_ret (state q)) (set_conn p c s) w'"
    using assms(3) ProcessDataIn_mono [OF c(1) assms(5)] by (auto simp: handle_http_def Let_def)
  with hdone out show ?thesis by blast
qed

text \<open>A request for a path with a handler of its method, which is not an upgrade.\<close>

lemma handle_request_calls:
  assumes "conn_at p s = Inr c" "FindRequestHandler e (uri (c_parser c)) s = Inr (Some k)" "handler_at k s = Inr hs"
    "\<not> ShouldUpgradeWebsocket c" "method_index (http_method (c_parser c)) < length (http_handlers hs)"
    "http_handlers hs ! method_index (http_method (c_parser c)) = Some h"
  shows "handle_request e p ret s w = rbind (run_handler e h p (uri (c_parser c)) (PopBody c) (ret = 1) s w)
    (\<lambda>(handler_ret, s1, w1). if handler_ret = -1 then close_and_go e p s1 w1 else Inr (s1, w1))"
  using assms by (simp add: handle_request_def Let_def)

section \<open>Properties\<close>

text \<open>
  C1. The event loop never follows a dangling pointer and keeps the kernel's interest list in step.
  Assume the kernel treats the interest list as documented, the callbacks keep the library's rule
  neither to close connections nor to register descriptors, and every registered pointer is that of
  a live connection under the descriptor it was registered with. Then \<open>Poll\<close> - pings, accepting,
  reading, dispatching, upgrading and closing included - never uses a connection after it was
  destroyed; afterwards the registered pointers are again live, and the server's invariant holds:
  different pointers, all below the next one to be handed out, the listening connection apart from
  the others, every buffer within 1024 bytes, and a sorted handler table of full rows.
\<close>

theorem poll_no_dangling_pointer:
  assumes "lawful e reg" "server_ok s" "tied reg s w"
  shows "Poll e t s w \<noteq> Inl UseAfterFree
    \<and> (\<forall>r s' w'. Poll e t s w = Inr (r, s', w') \<longrightarrow> server_ok s' \<and> tied reg s' w')"
  using Poll_alive [OF assms, of t] Poll_tied [OF assms, of t] by (cases "Poll e t s w") auto

theorem poll_no_dangling_pointer_witness:
  "\<exists>s w. s = sim_server (new_Connection 7) ''*'' \<and> w = k0\<lparr>k_reg := \<lambda>_. [5 \<mapsto> 1, 7 \<mapsto> 2], k_ready := [7, 5], k_accepts := [8]\<rparr>
    \<and> tied k_reg s w \<and> Poll sim_env 30 s w \<noteq> Inl UseAfterFree"
proof -
  let ?s = "sim_server (new_Connection 7) ''*''"
  let ?w = "k0\<lparr>k_reg := \<lambda>_. [5 \<mapsto> 1, 7 \<mapsto> 2], k_ready := [7, 5], k_accepts := [8]\<rparr>"
  have t: "tied k_reg ?s ?w" by (auto simp: tied_def fd_of_def conn_at_def new_Connection_def)
  from poll_no_dangling_pointer [OF sim_lawful sim_server_ok [OF new_Connection_ok] t, of 30] t show ?thesis by blast
qed

text \<open>
  C2. A program that starts a server and then registers handlers, polls, closes connections between
  polls and lets the world move on, in any order and any number of times, only ever reaches states
  that satisfy the server's invariant, in which every pointer registered with the kernel is live and
  from which the next \<open>Poll\<close> uses no destroyed connection.
\<close>

theorem reachable_servers_safe:
  assumes "lawful e reg" "Init (env_os e) addr port backlog new_Server w0 = (0, s1, w1)"
    "(server_step e reg)\<^sup>*\<^sup>* (s1, w1) (s, w)"
  shows "server_ok s \<and> tied reg s w \<and> Poll e t s w \<noteq> Inl UseAfterFree"
proof -
  have "server_start e reg (s1, w1)" unfolding server_start_def using assms(1) assms(2) [symmetric] by blast
  from life.reachable_inv [OF this assms(3)] have i: "server_ok s" "tied reg s w" by (simp_all add: server_inv_def)
  from Poll_alive [OF assms(1) i, of t] i show ?thesis by (cases "Poll e t s w") auto
qed

theorem reachable_servers_safe_witness:
  "\<exists>s w. (server_step sim_env k_reg)\<^sup>*\<^sup>* (snd (Init sim_os None 2999 5 new_Server k0)) (s, w) \<and> ptrs s = [2]
    \<and> k_reg w (poll_fd s) 7 = Some 2 \<and> Poll sim_env 30 s w \<noteq> Inl UseAfterFree"
proof -
  let ?i = "Init sim_os None 2999 5 (new_Server :: unit Server) k0"
  obtain s1 w1 where i: "?i = (0, s1, w1)" "s1 = new_Server\<lparr>poll_fd := 3, server_conn := Some (1, new_Connection 4), next_ptr := 2\<rparr>"
    "w1 = k0\<lparr>k_next_fd := 5, k_reg := (\<lambda>_. Map.empty)(3 := [4 \<mapsto> 1])\<rparr>"
    by (simp add: Init_def sim_os_def new_Server_def k0_def Let_def)
  let ?w = "w1\<lparr>k_ready := [4], k_accepts := [7]\<rparr>"
  have "\<exists>s w. Poll sim_env 30 s1 ?w = Inr (1, s, w) \<and> ptrs s = [2] \<and> k_reg w (poll_fd s) 7 = Some 2"
    by (simp add: i(2,3) Poll_def new_Server_def k0_def sim_env_def sim_os_def max_events_def handle_event_def handle_accept_def
        AcceptNewConnection_def setnonblocking_def new_Connection_def O_NONBLOCK_def ptrs_def Let_def)
  then obtain s w where p: "Poll sim_env 30 s1 ?w = Inr (1, s, w)" "ptrs s = [2]" "k_reg w (poll_fd s) 7 = Some 2" by blast
  have "server_step sim_env k_reg (s1, w1) (s1, ?w)" by (rule world) (simp add: adds_none_def)
  moreover have "server_step sim_env k_reg (s1, ?w) (s, w)" by (rule poll [OF p(1)])
  ultimately have run: "(server_step sim_env k_reg)\<^sup>*\<^sup>* (s1, w1) (s, w)" by (meson converse_rtranclp_into_rtranclp r_into_rtranclp)
  have "Init (env_os sim_env) None 2999 5 new_Server k0 = (0, s1, w1)" using i(1) by simp
  from reachable_servers_safe [OF sim_lawful this run, of 30] run p i(1) show ?thesis by auto
qed

end
