(* ===== verification/Hpl_Examples.thy ===== *)
theory Hpl_Examples
  imports Hpl_Life
begin

text \<open>
  The three example programs under \<^verbatim>\<open>src/examples/\<close>: \<^verbatim>\<open>basic\<close> answers requests with a page, at once or
  when a WebSocket gets ready; \<^verbatim>\<open>broadcast\<close> joins every WebSocket to a group and sends to it now and
  then; \<^verbatim>\<open>proxy_like\<close> passes requests on with libcurl. Their callbacks are instances of the callback
  arguments of \<open>Poll\<close>; the state of a program is part of the world. libcurl is not part of the
  sources: its calls are fields of the record \<open>curl_api\<close>.
\<close>

section \<open>Programs with state of their own\<close>

definition with_app :: "('w \<Rightarrow> 'r \<times> 'w) \<Rightarrow> 'a \<times> 'w \<Rightarrow> 'r \<times> 'a \<times> 'w" where
  "with_app f x = (let (r, w') = f (snd x) in (r, fst x, w'))"

definition app_os :: "'w os \<Rightarrow> ('a \<times> 'w) os" where
  "app_os os =
     \<lparr>sys_read = (\<lambda>fd n. with_app (sys_read os fd n)), sys_write = (\<lambda>fd d. with_app (sys_write os fd d)),
      sys_close = (\<lambda>fd (a, w). (a, sys_close os fd w)), sys_getfl = (\<lambda>fd. with_app (sys_getfl os fd)),
      sys_setfl = (\<lambda>fd f. with_app (sys_setfl os fd f)), sys_pipe = with_app (sys_pipe os),
      sys_tee = (\<lambda>r s n. with_app (sys_tee os r s n)), sys_splice = (\<lambda>r s n. with_app (sys_splice os r s n)),
      sys_setsockopt = (\<lambda>fd x. with_app (sys_setsockopt os fd x)), sys_socket = with_app (sys_socket os),
      sys_bind = (\<lambda>fd a n. with_app (sys_bind os fd a n)), sys_listen = (\<lambda>fd n. with_app (sys_listen os fd n)),
      sys_accept = (\<lambda>fd. with_app (sys_accept os fd)), sys_epoll_create = with_app (sys_epoll_create os),
      sys_epoll_add = (\<lambda>ep fd e. with_app (sys_epoll_add os ep fd e)),
      sys_epoll_del = (\<lambda>ep fd. with_app (sys_epoll_del os ep fd)),
      sys_epoll_wait = (\<lambda>ep n t. with_app (sys_epoll_wait os ep n t)), sys_now = with_app (sys_now os)\<rparr>"

text \<open>\<^verbatim>\<open>Connection::Close\<close>\<close>

definition Connection_Close :: "'w os \<Rightarrow> conn_ptr \<Rightarrow> 'h Server \<Rightarrow> 'w \<Rightarrow> ('h Server \<times> 'w) res" where
  "Connection_Close os p s w = rbind (CloseConn os p s w) (\<lambda>(_, s1, w1). Inr (s1, w1))"

section \<open>basic.cc\<close>

datatype basic_cb = GetHandler | DummyHandler | DumpHandler | WebsocketReady | WsClose

record AsyncHttpContext =
  pending_get_conn :: "conn_ptr option"

definition kGetTemplate :: bytes where
  "kGetTemplate = [LF] @ ''  <html>'' @ [LF] @ ''  <head>this is my site</head>'' @ [LF]
     @ ''  <body><b>hello world</b></body>'' @ [LF] @ ''  </html>'' @ [LF] @ ''  ''"

definition kDumpTemplate :: bytes where
  "kDumpTemplate = [LF] @ ''<html><title>premium king</title>'' @ [LF]
     @ ''<head>this is my site</head><body><b>hello world</b></body></html>''"

text \<open>\<^verbatim>\<open>MakeResponse(200, conn->GetParser().GetVersion(), {}, page)\<close>, then \<^verbatim>\<open>conn->Write\<close>.\<close>

definition respond :: "'w os \<Rightarrow> (nat \<Rightarrow> bytes) \<Rightarrow> bytes \<Rightarrow> conn_ptr \<Rightarrow> 'h Server \<Rightarrow> 'w \<Rightarrow> 'w res" where
  "respond os fmt page p s w =
     rbind (conn_at p s) (\<lambda>c.
     rbind (MakeResponse fmt 200 (version (c_parser c)) [] page) (\<lambda>response.
       Inr (snd (Connection_Write os response c w))))"

definition get_handler :: "conn_ptr \<Rightarrow> AsyncHttpContext \<Rightarrow> int \<times> AsyncHttpContext" where
  "get_handler p ctx = (0, ctx\<lparr>pending_get_conn := Some p\<rparr>)"

definition websocket_ready ::
    "'w os \<Rightarrow> (nat \<Rightarrow> bytes) \<Rightarrow> AsyncHttpContext \<Rightarrow> 'h Server \<Rightarrow> 'w \<Rightarrow> (int \<times> AsyncHttpContext \<times> 'h Server \<times> 'w) res" where
  "websocket_ready os fmt ctx s w =
     (case pending_get_conn ctx of
        None \<Rightarrow> Inr (0, ctx, s, w)
      | Some q \<Rightarrow>
          rbind (respond os fmt kGetTemplate q s w) (\<lambda>w1.
          rbind (Connection_Close os q s w1) (\<lambda>(s1, w2).
            Inr (0, ctx\<lparr>pending_get_conn := None\<rparr>, s1, w2))))"

definition ws_close :: int where "ws_close = 0"

definition dummy_handler ::
    "'w os \<Rightarrow> (nat \<Rightarrow> bytes) \<Rightarrow> conn_ptr \<Rightarrow> bool \<Rightarrow> 'h Server \<Rightarrow> 'w \<Rightarrow> (int \<times> 'w) res" where
  "dummy_handler os fmt p is_final s w =
     (if \<not> is_final then Inr (0, w)
      else rbind (respond os fmt kGetTemplate p s w) (\<lambda>w1. Inr (-1, w1)))"

text \<open>
  This handler takes the piece of body by value, so that it is moved out of the connection, which is left
  with an empty one (a moved-from string is empty in the usual libraries); the others take a reference.
\<close>

definition body_taken :: "conn_ptr \<Rightarrow> 'h Server \<Rightarrow> 'h Server" where
  "body_taken p s = (case conn_at p s of Inr c \<Rightarrow> set_conn p (c\<lparr>partial_body := []\<rparr>) s | Inl f \<Rightarrow> s)"

definition dump_handler :: "'w os \<Rightarrow> (nat \<Rightarrow> bytes) \<Rightarrow> conn_ptr \<Rightarrow> 'h Server \<Rightarrow> 'w \<Rightarrow> (int \<times> 'h Server \<times> 'w) res" where
  "dump_handler os fmt p s w =
     rbind (respond os fmt kDumpTemplate p (body_taken p s) w) (\<lambda>w1. Inr (0, body_taken p s, w1))"

text \<open>The callbacks behind their names; a name of the other kind is an empty \<^verbatim>\<open>std::function\<close>.\<close>

definition basic_handler ::
    "'w os \<Rightarrow> (nat \<Rightarrow> bytes) \<Rightarrow> basic_cb \<Rightarrow> conn_ptr \<Rightarrow> bytes \<Rightarrow> bytes \<Rightarrow> bool \<Rightarrow> basic_cb Server \<Rightarrow> AsyncHttpContext \<times> 'w
      \<Rightarrow> (int \<times> basic_cb Server \<times> AsyncHttpContext \<times> 'w) res" where
  "basic_handler os fmt h p u partial is_final s x =
     (let (ctx, w) = x in
      case h of
        GetHandler \<Rightarrow> (let (r, ctx') = get_handler p ctx in Inr (r, s, ctx', w))
      | DummyHandler \<Rightarrow> rbind (dummy_handler os fmt p is_final s w) (\<lambda>(r, w1). Inr (r, s, ctx, w1))
      | DumpHandler \<Rightarrow> rbind (dump_handler os fmt p s w) (\<lambda>(r, s1, w1). Inr (r, s1, ctx, w1))
      | _ \<Rightarrow> Inl NullDeref)"

definition basic_hook ::
    "'w os \<Rightarrow> (nat \<Rightarrow> bytes) \<Rightarrow> basic_cb \<Rightarrow> conn_ptr \<Rightarrow> bytes \<Rightarrow> basic_cb Server \<Rightarrow> AsyncHttpContext \<times> 'w
      \<Rightarrow> (int \<times> basic_cb Server \<times> AsyncHttpContext \<times> 'w) res" where
  "basic_hook os fmt h p u s x =
     (let (ctx, w) = x in
      case h of
        WebsocketReady \<Rightarrow> rbind (websocket_ready os fmt ctx s w) (\<lambda>(r, ctx', s1, w1). Inr (r, s1, ctx', w1))
      | WsClose \<Rightarrow> Inr (ws_close, s, ctx, w)
      | _ \<Rightarrow> Inl NullDeref)"

text \<open>The program around an environment that gives it its system calls and libraries.\<close>

definition basic_env :: "(basic_cb, 'w) env \<Rightarrow> (basic_cb, AsyncHttpContext \<times> 'w) env" where
  "basic_env e =
     \<lparr>env_os = app_os (env_os e), run_handler = basic_handler (env_os e) (fmt_nat e), run_hook = basic_hook (env_os e) (fmt_nat e),
      run_ws = (\<lambda>_ _ _ _ _ _. Inl NullDeref), regex_match = regex_match e, sha1_of = sha1_of e, hash_array = hash_array e,
      fmt_nat = fmt_nat e, fuel = fuel e\<rparr>"

definition basic_handlers :: "basic_cb RequestHandler" where
  "basic_handlers =
     new_RequestHandler\<lparr>ws_ready_hook := Some WebsocketReady, ws_will_close_hook := Some WsClose,
       http_handlers := fold (\<lambda>m hs. hs[method_index m := Some DummyHandler]) [GET, POST, PUT, DELETE, HEAD, CONNECT]
         (http_handlers new_RequestHandler)\<rparr>"

definition dump_handlers :: "basic_cb RequestHandler" where
  "dump_handlers = new_RequestHandler\<lparr>http_handlers := (http_handlers new_RequestHandler)[method_index GET := Some DumpHandler]\<rparr>"

definition basic_setup :: "basic_cb Server \<Rightarrow> basic_cb Server" where
  "basic_setup s = RegisterRequestHandler ''/abc'' dump_handlers (RegisterRequestHandler ''/'' basic_handlers s)"

section \<open>broadcast.cc\<close>

datatype broadcast_cb = OnWsConnected

record BroadcastContext =
  bg :: BroadcastGroup

definition on_ws_connected ::
    "'w os \<Rightarrow> conn_ptr \<Rightarrow> BroadcastContext \<Rightarrow> broadcast_cb Server \<Rightarrow> 'w \<Rightarrow> (int \<times> BroadcastContext \<times> 'w) res" where
  "on_ws_connected os p ctx s w =
     rbind (Join os (fd_of s) (Some p) (bg ctx) w) (\<lambda>(_, g, w1). Inr (0, ctx\<lparr>bg := g\<rparr>, w1))"

definition broadcast_now :: "'w os \<Rightarrow> bytes \<Rightarrow> broadcast_cb Server \<Rightarrow> BroadcastContext \<Rightarrow> 'w \<Rightarrow> (int \<times> 'w) res" where
  "broadcast_now os data s ctx w = Broadcast os (fd_of s) data kTypeText (bg ctx) w"

definition broadcast_handlers :: "broadcast_cb RequestHandler" where
  "broadcast_handlers = new_RequestHandler\<lparr>ws_connect_hook := Some OnWsConnected\<rparr>"

definition broadcast_setup :: "broadcast_cb Server \<Rightarrow> broadcast_cb Server" where
  "broadcast_setup s = RegisterRequestHandler ''/broadcast'' broadcast_handlers s"

definition broadcast_env :: "(broadcast_cb, 'w) env \<Rightarrow> (broadcast_cb, BroadcastContext \<times> 'w) env" where
  "broadcast_env e =
     \<lparr>env_os = app_os (env_os e), run_handler = (\<lambda>_ _ _ _ _ _ _. Inl NullDeref),
      run_hook = (\<lambda>_ p u s (ctx, w). rbind (on_ws_connected (env_os e) p ctx s w) (\<lambda>(r, ctx', w1). Inr (r, s, ctx', w1))),
      run_ws = (\<lambda>_ _ _ _ _ _. Inl NullDeref), regex_match = regex_match e, sha1_of = sha1_of e, hash_array = hash_array e,
      fmt_nat = fmt_nat e, fuel = fuel e\<rparr>"

text \<open>The rest of the main loop's body after \<open>Poll\<close>: every ten seconds (in nanoseconds) a broadcast.\<close>

definition broadcast_tick ::
    "'w os \<Rightarrow> broadcast_cb Server \<Rightarrow> BroadcastContext \<Rightarrow> int \<Rightarrow> 'w \<Rightarrow> (int \<times> 'w) res" where
  "broadcast_tick os s ctx time w =
     (let (now, w1) = sys_now os w
      in if now - time > 10 * 1000000000
         then rbind (broadcast_now os ''hello world at '' s ctx w1) (\<lambda>(_, w2). Inr (now, w2))
         else Inr (time, w1))"

section \<open>proxy\<open>_\<close>like.cc\<close>

text \<open>The calls of libcurl, on a handle that may be null, and the option values they are given.\<close>

datatype curl_value = Url bytes | This nat | WriteBody | WriteHeaders

text \<open>A callback that \<^verbatim>\<open>curl_multi_perform\<close> makes: the user pointer and the data.\<close>

datatype curl_event = BodyData nat bytes | HeaderData nat bytes

record 'w curl_api =
  curl_multi_init :: "'w \<Rightarrow> 'w"
  curl_multi_perform :: "'w \<Rightarrow> curl_event list \<times> 'w"
  curl_easy_init :: "'w \<Rightarrow> nat option \<times> 'w"
  curl_easy_setopt :: "nat option \<Rightarrow> string \<Rightarrow> curl_value \<Rightarrow> 'w \<Rightarrow> 'w"
  curl_multi_add_handle :: "nat option \<Rightarrow> 'w \<Rightarrow> 'w"
  curl_multi_remove_handle :: "nat \<Rightarrow> 'w \<Rightarrow> 'w"
  curl_easy_cleanup :: "nat \<Rightarrow> 'w \<Rightarrow> 'w"

record request_pipe_t =
  pipe_conn :: conn_ptr
  pipe_curl :: "nat option"

text \<open>The objects of \<open>req_pipes_\<close> by their addresses, in order.\<close>

record ServerContext =
  req_pipes :: "(nat \<times> request_pipe_t) list"
  next_pipe :: nat

definition new_request_pipe :: "'w curl_api \<Rightarrow> nat \<Rightarrow> conn_ptr \<Rightarrow> bytes \<Rightarrow> 'w \<Rightarrow> request_pipe_t \<times> 'w" where
  "new_request_pipe api this conn u w =
     (let (curl, w1) = curl_easy_init api w;
          w2 = curl_easy_setopt api curl ''CURLOPT_URL'' (Url (''https://qq.com'' @ u)) w1;
          w3 = curl_easy_setopt api curl ''CURLOPT_WRITEDATA'' (This this) w2;
          w4 = curl_easy_setopt api curl ''CURLOPT_WRITEFUNCTION'' WriteBody w3;
          w5 = curl_easy_setopt api curl ''CURLOPT_HEADERFUNCTION'' WriteHeaders w4;
          w6 = curl_easy_setopt api curl ''CURLOPT_HEADERDATA'' (This this) w5
      in (\<lparr>pipe_conn = conn, pipe_curl = curl\<rparr>, curl_multi_add_handle api curl w6))"

definition delete_request_pipe :: "'w curl_api \<Rightarrow> request_pipe_t \<Rightarrow> 'w \<Rightarrow> 'w" where
  "delete_request_pipe api rp w =
     (case pipe_curl rp of
        None \<Rightarrow> w
      | Some curl \<Rightarrow> curl_easy_cleanup api curl (curl_multi_remove_handle api curl w))"

text \<open>The handler for GET; the path reaches it as the C string of the view's data.\<close>

definition getter :: "'w curl_api \<Rightarrow> conn_ptr \<Rightarrow> bytes \<Rightarrow> ServerContext \<Rightarrow> 'w \<Rightarrow> int \<times> ServerContext \<times> 'w" where
  "getter api conn u ctx w =
     (let (rp, w1) = new_request_pipe api (next_pipe ctx) conn (c_str u 0) w
      in (0, \<lparr>req_pipes = req_pipes ctx @ [(next_pipe ctx, rp)], next_pipe = next_pipe ctx + 1\<rparr>, w1))"

definition curl_write_body ::
    "'w os \<Rightarrow> bytes \<Rightarrow> request_pipe_t \<Rightarrow> 'h Server \<Rightarrow> 'w \<Rightarrow> (size_t \<times> 'h Server \<times> 'w) res" where
  "curl_write_body os ptr rp s w =
     rbind (conn_at (pipe_conn rp) s) (\<lambda>c.
     let (_, w1) = Connection_Write os ptr c w
     in rbind (Connection_Close os (pipe_conn rp) s w1) (\<lambda>(s1, w2). Inr (of_nat (length ptr), s1, w2)))"

definition curl_write_headers :: "'w os \<Rightarrow> bytes \<Rightarrow> request_pipe_t \<Rightarrow> 'h Server \<Rightarrow> 'w \<Rightarrow> (size_t \<times> 'w) res" where
  "curl_write_headers os ptr rp s w =
     rbind (conn_at (pipe_conn rp) s) (\<lambda>c.
     let (_, w1) = Connection_Write os ptr c w in Inr (of_nat (length ptr), w1))"

text \<open>What libcurl calls when data of the upstream answer arrived.\<close>

definition curl_pipe_to_conn_body ::
    "'w os \<Rightarrow> 'w curl_api \<Rightarrow> bytes \<Rightarrow> nat \<Rightarrow> ServerContext \<Rightarrow> 'h Server \<Rightarrow> 'w
      \<Rightarrow> (size_t \<times> ServerContext \<times> 'h Server \<times> 'w) res" where
  "curl_pipe_to_conn_body os api ptr req_pipe ctx s w =
     (case map_of (req_pipes ctx) req_pipe of
        None \<Rightarrow> Inr (of_nat (length ptr), ctx, s, w)
      | Some rp \<Rightarrow>
          rbind (curl_write_body os ptr rp s w) (\<lambda>(ret, s1, w1).
            Inr (ret, ctx\<lparr>req_pipes := filter (\<lambda>(a, _). a \<noteq> req_pipe) (req_pipes ctx)\<rparr>, s1, delete_request_pipe api rp w1)))"

definition curl_pipe_to_conn_headers ::
    "'w os \<Rightarrow> bytes \<Rightarrow> nat \<Rightarrow> ServerContext \<Rightarrow> 'h Server \<Rightarrow> 'w \<Rightarrow> (size_t \<times> 'w) res" where
  "curl_pipe_to_conn_headers os ptr req_pipe ctx s w =
     (case map_of (req_pipes ctx) req_pipe of
        None \<Rightarrow> Inr (of_nat (length ptr), w)
      | Some rp \<Rightarrow> curl_write_headers os ptr rp s w)"

text \<open>The program's callbacks and its table: GET goes to the getter, POST only prints.\<close>

datatype proxy_cb = Getter | Poster

definition proxy_handlers :: "proxy_cb RequestHandler" where
  "proxy_handlers = new_RequestHandler\<lparr>http_handlers := (http_handlers new_RequestHandler)
     [method_index GET := Some Getter, method_index POST := Some Poster]\<rparr>"

definition proxy_setup :: "proxy_cb Server \<Rightarrow> proxy_cb Server" where
  "proxy_setup s = RegisterRequestHandler ''*'' proxy_handlers s"

definition proxy_env :: "(proxy_cb, 'w) env \<Rightarrow> 'w curl_api \<Rightarrow> (proxy_cb, ServerContext \<times> 'w) env" where
  "proxy_env e api =
     \<lparr>env_os = app_os (env_os e),
      run_handler = (\<lambda>h p u partial is_final s (ctx, w).
        case h of
          Getter \<Rightarrow> (let (r, ctx', w1) = getter api p u ctx w in Inr (r, s, ctx', w1))
        | Poster \<Rightarrow> Inr (0, s, ctx, w)),
      run_hook = (\<lambda>_ _ _ _ _. Inl NullDeref), run_ws = (\<lambda>_ _ _ _ _ _. Inl NullDeref), regex_match = regex_match e,
      sha1_of = sha1_of e, hash_array = hash_array e, fmt_nat = fmt_nat e, fuel = fuel e\<rparr>"

section \<open>The laws of the system calls carry over\<close>

lemma app_os_calls [simp]:
  "sys_read (app_os os) fd n x = with_app (sys_read os fd n) x" "sys_write (app_os os) fd d x = with_app (sys_write os fd d) x"
  "sys_close (app_os os) fd x = (fst x, sys_close os fd (snd x))"
  "sys_epoll_del (app_os os) ep fd x = with_app (sys_epoll_del os ep fd) x"
  by (simp_all add: app_os_def split_beta)

lemma with_app_simps [simp]:
  "fst (with_app f x) = fst (f (snd x))" "snd (with_app f x) = (fst x, snd (f (snd x)))"
  by (simp_all add: with_app_def split_beta)

lemma with_app_eq: "with_app f x = (r, y) \<longleftrightarrow> f (snd x) = (r, snd y) \<and> fst y = fst x"
  by (cases y) (auto simp: with_app_def split_beta)

lemma read_law_app: "read_law os \<Longrightarrow> read_law (app_os os)"
  by (auto simp: read_law_def with_app_eq)

lemma wire_law_app: "wire_law os out \<Longrightarrow> wire_law (app_os os) (out \<circ> snd)"
  unfolding wire_law_def by (fastforce simp: with_app_eq)

lemma pours_app: "pours os fd m k w ss \<Longrightarrow> pours (app_os os) fd m k (a, w) ss"
proof (induction os fd m k w ss rule: pours.induct)
  case (3 os fd m k w s ss)
  show ?case
  proof (cases "s = []")
    case True
    then have "\<exists>x. sys_read (app_os os) fd n (a, w) = (ReadErr EAGAIN, x) \<and> pours (app_os os) fd m k x ss" if "m \<le> n" for n
      using "3.prems" "3.IH"(1) [OF that] that by (fastforce simp: with_app_eq)
    with True show ?thesis by simp
  next
    case False
    have "(\<exists>j x. 1 \<le> j \<and> j \<le> min n (length s) \<and> sys_read (app_os os) fd n (a, w) = (Data (take j s), x)
          \<and> pours (app_os os) fd m k x (drop j s # ss))
        \<or> (\<exists>x. sys_read (app_os os) fd n (a, w) = (ReadErr EINTR, x) \<and> pours (app_os os) fd m k x (s # ss))"
      if n: "m \<le> n" for n
    proof -
      from "3.prems" False n have "(\<exists>j v. 1 \<le> j \<and> j \<le> min n (length s) \<and> sys_read os fd n w = (Data (take j s), v)
            \<and> pours os fd m k v (drop j s # ss))
          \<or> (\<exists>v. sys_read os fd n w = (ReadErr EINTR, v) \<and> pours os fd m k v (s # ss))" by simp
      then show ?thesis
      proof (elim disjE exE conjE)
        fix j v assume "1 \<le> j" "j \<le> min n (length s)" "sys_read os fd n w = (Data (take j s), v)" "pours os fd m k v (drop j s # ss)"
        moreover from this have "pours (app_os os) fd m k (a, v) (drop j s # ss)" using "3.IH"(2) n False by blast
        ultimately show ?thesis by (intro disjI1 exI [of _ j] exI [of _ "(a, v)"]) (simp add: with_app_eq)
      next
        fix v assume "sys_read os fd n w = (ReadErr EINTR, v)" "pours os fd m k v (s # ss)"
        moreover from this have "pours (app_os os) fd m k (a, v) (s # ss)" using "3.IH"(3) n False by blast
        ultimately show ?thesis by (intro disjI2 exI [of _ "(a, v)"]) (simp add: with_app_eq)
      qed
    qed
    with False show ?thesis by simp
  qed
qed simp_all

lemma head_arrives_app: "head_arrives os fd w k hs q \<Longrightarrow> head_arrives (app_os os) fd (a, w) k hs q"
  unfolding head_arrives_def by (metis pours_app)

lemma adds_none_app [simp]: "adds_none (reg \<circ> snd) x y = adds_none reg (snd x) (snd y)"
  by (simp add: adds_none_def)

lemma interest_law_app: "interest_law os reg \<Longrightarrow> interest_law (app_os os) (reg \<circ> snd)"
  unfolding interest_law_def app_os_def by (simp add: with_app_eq)

lemma no_other_adds_app: "no_other_adds os reg \<Longrightarrow> no_other_adds (app_os os) (reg \<circ> snd)"
  unfolding no_other_adds_def by (simp add: app_os_def split_beta)

text \<open>A wire that carries what is written and a kernel that deregisters on request; closing sends nothing.\<close>

definition closing_law :: "'w os \<Rightarrow> ('w \<Rightarrow> fd \<Rightarrow> bytes) \<Rightarrow> bool" where
  "closing_law os out \<longleftrightarrow>
     (\<forall>ep fd w. fst (sys_epoll_del os ep fd w) \<and> out (snd (sys_epoll_del os ep fd w)) = out w)
   \<and> (\<forall>fd w. out (sys_close os fd w) = out w)"

lemma closing_law_app: "closing_law os out \<Longrightarrow> closing_law (app_os os) (out \<circ> snd)"
  by (simp add: closing_law_def)

lemma CloseConn_done:
  assumes "closing_law os out" "conn_at p s = Inr c"
  shows "\<exists>s' w'. CloseConn os p s w = Inr (0, s', w') \<and> out w' = out w
    \<and> pending_conns s' = filter (\<lambda>(q, _). q \<noteq> p) (pending_conns s) \<and> poll_fd s' = poll_fd s
    \<and> map_option fst (server_conn s') = map_option fst (server_conn s)"
proof -
  obtain w1 where w1: "sys_epoll_del os (poll_fd s) (c_fd c) w = (True, w1)" "out w1 = out w"
    using assms(1) unfolding closing_law_def by (metis (full_types) prod.collapse)
  have cl: "out (sys_close os fd x) = out x" for fd x using assms(1) by (simp add: closing_law_def)
  show ?thesis using assms(2) w1 cl
    by (auto simp: CloseConn_def Let_def set_conn_def option.map_comp comp_def split_beta)
qed

section \<open>Answers\<close>

definition page_response :: "(nat \<Rightarrow> bytes) \<Rightarrow> HttpVersion \<Rightarrow> bytes \<Rightarrow> bytes" where
  "page_response fmt v page =
     HttpVersionToString v @ '' 200 OK'' @ CRLF @ ''Content-Length: '' @ fmt (length page) @ CRLF @ CRLF @ page"

lemma respond_done:
  assumes "wire_law os out" "conn_at p s = Inr c" "c_fd c \<noteq> -1" "fmt 200 = ''200''" "page \<noteq> []"
  shows "\<exists>w'. respond os fmt page p s w = Inr w'
    \<and> out w' = (out w)(c_fd c := out w (c_fd c) @ page_response fmt (version (c_parser c)) page)"
proof -
  have "status_pair 200 = (200, ''OK'')" by code_simp
  then have rsp: "MakeResponse fmt 200 (version (c_parser c)) [] page = Inr (page_response fmt (version (c_parser c)) page)"
    using assms(4,5) by (simp add: MakeResponse_spec header_lines_def page_response_def)
  obtain w' where "Connection_Write os (page_response fmt (version (c_parser c)) page) c w = (1, w')"
    "out w' = (out w)(c_fd c := out w (c_fd c) @ page_response fmt (version (c_parser c)) page)"
    using Connection_Write_wire [OF assms(1,3)] by blast
  with assms(2) rsp show ?thesis by (simp add: respond_def)
qed

lemma basic_setup_at:
  assumes "request_handlers s = []" "regex_match e ''/'' ''/'' = Some True"
  shows "FindRequestHandler (basic_env e) ''/'' (basic_setup s) = Inr (Some ''/'')"
    "handler_at ''/'' (basic_setup s) = Inr basic_handlers"
  using assms
  by (simp_all add: FindRequestHandler_def basic_setup_def RegisterRequestHandler_def basic_env_def c_str_def handler_at_def)

lemma basic_table:
  "length (http_handlers basic_handlers) = 9" "m \<in> {GET, POST, PUT} \<Longrightarrow> http_handlers basic_handlers ! method_index m = Some DummyHandler"
  by (auto simp: basic_handlers_def new_RequestHandler_def)

text \<open>The handler of the page answers and asks for the connection to be closed.\<close>

lemma dummy_then_close:
  assumes "wire_law (env_os e) out" "closing_law (env_os e) out" "fmt_nat e 200 = ''200''" "conn_at p s = Inr c" "c_fd c \<noteq> -1"
  shows "\<exists>s' x'. rbind (run_handler (basic_env e) DummyHandler p u b True s x)
      (\<lambda>(r, s1, w1). if r = -1 then close_and_go (basic_env e) p s1 w1 else Inr (s1, w1)) = Inr (s', x')
    \<and> pending_conns s' = filter (\<lambda>(q, _). q \<noteq> p) (pending_conns s)
    \<and> out (snd x') = (out (snd x))(c_fd c := out (snd x) (c_fd c) @ page_response (fmt_nat e) (version (c_parser c)) kGetTemplate)"
proof -
  obtain ctx w where x: "x = (ctx, w)" by (cases x)
  obtain w1 where w1: "respond (env_os e) (fmt_nat e) kGetTemplate p s w = Inr w1"
    "out w1 = (out w)(c_fd c := out w (c_fd c) @ page_response (fmt_nat e) (version (c_parser c)) kGetTemplate)"
    using respond_done [OF assms(1,4,5), of "fmt_nat e" kGetTemplate] assms(3) by (auto simp: kGetTemplate_def)
  have run: "run_handler (basic_env e) DummyHandler p u b True s x = Inr (-1, s, ctx, w1)"
    by (simp add: basic_env_def basic_handler_def dummy_handler_def x w1(1))
  obtain s' x' where "CloseConn (app_os (env_os e)) p s (ctx, w1) = Inr (0, s', x')" "out (snd x') = out w1"
    "pending_conns s' = filter (\<lambda>(q, _). q \<noteq> p) (pending_conns s)"
    using CloseConn_done [OF closing_law_app [OF assms(2)] assms(4), of "(ctx, w1)"] by auto
  moreover have "env_os (basic_env e) = app_os (env_os e)" by (simp add: basic_env_def)
  ultimately show ?thesis using run w1(2) x by (simp add: close_and_go_def)
qed

lemma conn_at_setup [simp]: "conn_at p (basic_setup s) = conn_at p s"
  by (auto simp: conn_at_def basic_setup_def RegisterRequestHandler_def split: option.split)

section \<open>Callbacks that leave the server alone\<close>

text \<open>
  A callback that returns the server as it got it, but for a piece of body it takes, registers no
  descriptor and touches no dead connection keeps the library's rule.
\<close>

definition hands_off :: "'w interest \<Rightarrow> ('h Server \<Rightarrow> 'w \<Rightarrow> (int \<times> 'h Server \<times> 'w) res) \<Rightarrow> 'h Server \<Rightarrow> conn_ptr \<Rightarrow> bool" where
  "hands_off reg f s p \<longleftrightarrow>
     (\<forall>w. (fd_of s p \<noteq> None \<longrightarrow> f s w \<noteq> Inl UseAfterFree)
        \<and> (\<forall>r s' w'. f s w = Inr (r, s', w') \<longrightarrow> s' \<in> {s, body_taken p s} \<and> adds_none reg w w'))"

lemma body_taken_simps [simp]:
  "fd_of (body_taken p s) = fd_of s" "poll_fd (body_taken p s) = poll_fd s" "request_handlers (body_taken p s) = request_handlers s"
  by (auto simp: body_taken_def split: sum.split) (rule fd_of_set_conn; simp)+

lemma body_taken_calm: "server_ok s \<Longrightarrow> p \<in> set (ptrs s) \<Longrightarrow> calm s (body_taken p s)"
  using conn_at_live [of s p] by (cases "conn_at p s") (auto simp: body_taken_def conn_ok_def calm_refl intro!: set_conn_calm)

lemma fd_of_live: "p \<in> set (ptrs s) \<Longrightarrow> fd_of s p \<noteq> None"
  by (auto simp: fd_of_def conn_at_def ptrs_def dest!: weak_map_of_SomeI)

lemma hands_offD:
  assumes "hands_off reg f s p"
  shows "fd_of s p \<noteq> None \<Longrightarrow> f s w \<noteq> Inl UseAfterFree" "f s w = Inr (r, s', w') \<Longrightarrow> s' \<in> {s, body_taken p s} \<and> adds_none reg w w'"
  using assms unfolding hands_off_def by blast+

lemma hands_off_alive:
  assumes "hands_off reg f s p" "server_ok s \<and> p \<in> set (ptrs s)"
  shows "alive (\<lambda>(_, s', _). calm s s') (f s w)"
  using fd_of_live [of p s] assms(2) hands_offD [OF assms(1), of w] by (cases "f s w") (auto simp: calm_refl body_taken_calm)

lemma hands_off_quiet: "hands_off reg f s p \<Longrightarrow> f s w = Inr (r, s', w') \<Longrightarrow> quiet reg s w s' w'"
  using hands_offD(2) [of reg f s p w r s' w'] by (auto simp: quiet_def)

definition base_law :: "('h, 'w) env \<Rightarrow> 'w interest \<Rightarrow> bool" where
  "base_law e reg \<longleftrightarrow> read_law (env_os e) \<and> interest_law (env_os e) reg \<and> no_other_adds (env_os e) reg
     \<and> (\<forall>w. adds_none reg w (snd (sys_pipe (env_os e) w)))
     \<and> (\<forall>m. length (sha1_of e m) = SHA_DIGEST_LENGTH) \<and> length (hash_array e) = SHA_DIGEST_LENGTH * 2"

lemma hands_off_lawful:
  assumes "base_law e reg" "env_os e' = app_os (env_os e)" "sha1_of e' = sha1_of e" "hash_array e' = hash_array e"
    and "\<And>h p u b f s. hands_off (reg \<circ> snd) (run_handler e' h p u b f) s p"
    and "\<And>h p u s. hands_off (reg \<circ> snd) (run_hook e' h p u) s p"
    and "\<And>h p ty d s. hands_off (reg \<circ> snd) (run_ws e' h p ty d) s p"
  shows "lawful e' (reg \<circ> snd)"
proof -
  have "callbacks_law e'"
    unfolding callbacks_law_def
    by (intro conjI allI impI hands_off_alive [OF assms(5)] hands_off_alive [OF assms(6)] hands_off_alive [OF assms(7)])
      simp_all
  moreover have "quiet_callbacks e' (reg \<circ> snd)"
    unfolding quiet_callbacks_def
    by (intro conjI allI impI) (erule hands_off_quiet [OF assms(5)] hands_off_quiet [OF assms(6)] hands_off_quiet [OF assms(7)])+
  ultimately show ?thesis using assms(1-4)
    by (simp add: lawful_def env_law_def base_law_def read_law_app interest_law_app no_other_adds_app)
qed

lemma empty_callback [simp]: "hands_off reg (\<lambda>s w. Inl NullDeref) s p"
  by (simp add: hands_off_def)

lemma Join_quiet:
  assumes "base_law e reg" "Join (env_os e) desc (Some p) g w = Inr (r, g', w')"
  shows "adds_none reg w w'"
proof -
  have no: "no_other_adds (env_os e) reg" and pipe: "\<And>w x w'. sys_pipe (env_os e) w = (x, w') \<Longrightarrow> adds_none reg w w'"
    using assms(1) unfolding base_law_def by (blast, metis snd_conv)
  show ?thesis using assms(2)
    by (auto simp: Join_def Let_def split: option.splits prod.splits
        dest!: no_other_adds_calls(6,8) [OF no] pipe) (metis adds_none_trans)+
qed

lemma broadcast_lawful:
  assumes "base_law e reg"
  shows "lawful (broadcast_env e) (reg \<circ> snd)"
proof (rule hands_off_lawful [OF assms])
  fix h p u and s :: "broadcast_cb Server"
  have "Join os (fd_of s) (Some p) g w \<noteq> Inl UseAfterFree" if "fd_of s p \<noteq> None" for os g and w :: 'a
    using that by (auto simp: Join_def Let_def split: prod.split option.split)
  moreover have "run_hook (broadcast_env e) h p u s x = rbind (Join (env_os e) (fd_of s) (Some p) (bg (fst x)) (snd x))
      (\<lambda>(_, g, w1). Inr (0, s, (fst x)\<lparr>bg := g\<rparr>, w1))" for x
    by (cases "Join (env_os e) (fd_of s) (Some p) (bg (fst x)) (snd x)")
      (auto simp: broadcast_env_def on_ws_connected_def split_beta)
  ultimately show "hands_off (reg \<circ> snd) (run_hook (broadcast_env e) h p u) s p"
    unfolding hands_off_def by (auto simp: rbind_def split: sum.split sum.split_asm dest!: Join_quiet [OF assms])
qed (simp_all add: broadcast_env_def)

definition curl_law :: "'w curl_api \<Rightarrow> 'w interest \<Rightarrow> bool" where
  "curl_law api reg \<longleftrightarrow>
     (\<forall>w. adds_none reg w (snd (curl_easy_init api w))) \<and> (\<forall>c x v w. adds_none reg w (curl_easy_setopt api c x v w))
   \<and> (\<forall>c w. adds_none reg w (curl_multi_add_handle api c w))"

lemma getter_quiet:
  assumes "curl_law api reg" "getter api p u ctx w = (r, ctx', w')"
  shows "adds_none reg w w'"
proof -
  obtain c w1 where c: "curl_easy_init api w = (c, w1)" by (cases "curl_easy_init api w")
  then have "adds_none reg w w1" using assms(1) unfolding curl_law_def by (metis snd_conv)
  moreover have "adds_none reg x y \<Longrightarrow> adds_none reg x (curl_easy_setopt api c opt v y)"
    "adds_none reg x y \<Longrightarrow> adds_none reg x (curl_multi_add_handle api c y)" for x y opt v
    using assms(1) adds_none_trans unfolding curl_law_def by metis+
  ultimately show ?thesis
    using assms(2) c by (auto simp: getter_def new_request_pipe_def Let_def)
qed

lemma proxy_lawful:
  assumes "base_law e reg" "curl_law api reg"
  shows "lawful (proxy_env e api) (reg \<circ> snd)"
proof (rule hands_off_lawful [OF assms(1)])
  fix h p u b f and s :: "proxy_cb Server"
  show "hands_off (reg \<circ> snd) (run_handler (proxy_env e api) h p u b f) s p"
    by (cases h) (auto simp: hands_off_def proxy_env_def Let_def split: prod.splits dest: getter_quiet [OF assms(2)])
qed (simp_all add: proxy_env_def)

text \<open>Concrete instances to try the properties on.\<close>

definition basic_server0 :: "basic_cb Server" where
  "basic_server0 = new_Server\<lparr>poll_fd := 4, server_conn := Some (1, new_Connection 5), pending_conns := [(2, new_Connection 7)], next_ptr := 3\<rparr>"

definition broadcast_server0 :: "broadcast_cb Server" where
  "broadcast_server0 = new_Server\<lparr>poll_fd := 4, server_conn := Some (1, new_Connection 5), pending_conns := [(2, new_Connection 7)], next_ptr := 3\<rparr>"

definition proxy_ctx0 :: ServerContext where
  "proxy_ctx0 = \<lparr>req_pipes = [(5, \<lparr>pipe_conn = 2, pipe_curl = Some 1\<rparr>)], next_pipe = 6\<rparr>"

definition no_curl :: "kernel curl_api" where
  "no_curl = \<lparr>curl_multi_init = (\<lambda>k. k), curl_multi_perform = (\<lambda>k. ([], k)), curl_easy_init = (\<lambda>k. (Some 1, k)), curl_easy_setopt = (\<lambda>_ _ _ k. k), curl_multi_add_handle = (\<lambda>_ k. k),
     curl_multi_remove_handle = (\<lambda>_ k. k), curl_easy_cleanup = (\<lambda>_ k. k)\<rparr>"

lemma sim_closing_law: "closing_law sim_os k_output"
  by (simp add: closing_law_def sim_os_def)

definition sim_env_for :: "('h, kernel) env" where
  "sim_env_for = \<lparr>env_os = sim_os, run_handler = (\<lambda>_ _ _ _ _ _ _. Inl NullDeref), run_hook = (\<lambda>_ _ _ _ _. Inl NullDeref),
     run_ws = (\<lambda>_ _ _ _ _ _. Inl NullDeref), regex_match = (\<lambda>k u. Some (k = ''.*'' \<or> k = u)),
     sha1_of = (\<lambda>m. replicate 20 SP), hash_array = replicate 40 NUL, fmt_nat = dec, fuel = 100\<rparr>"

lemma sim_env_for_fields [simp]: "env_os sim_env_for = sim_os" "fmt_nat sim_env_for = dec" "fuel sim_env_for = 100"
  "regex_match sim_env_for k u = Some (k = ''.*'' \<or> k = u)"
  by (simp_all add: sim_env_for_def)

lemma sim_base_law: "base_law sim_env_for k_reg"
  by (simp add: base_law_def sim_env_for_def sim_read_law sim_interest_law sim_no_other_adds SHA_DIGEST_LENGTH_def)
    (simp add: sim_os_def adds_none_def)

lemma lawful_run_safe:
  assumes "lawful e reg" "Init (env_os e) addr port backlog new_Server w0 = (0, s1, w1)" "(server_step e reg)\<^sup>*\<^sup>* (s1, w1) (s, w)"
  shows "Poll e t s w \<noteq> Inl UseAfterFree"
proof -
  have "server_start e reg (s1, w1)" unfolding server_start_def using assms(1) assms(2) [symmetric] by blast
  from life.reachable_inv [OF this assms(3)] Poll_alive [OF assms(1), of s w t] show ?thesis
    by (cases "Poll e t s w") (auto simp: server_inv_def)
qed

lemma fd_of_closed:
  assumes "CloseConn os p s w = Inr (0, s', w')" "map_option fst (server_conn s) \<noteq> Some p"
  shows "fd_of s' p = None"
proof -
  have "pending_conns s' = filter (\<lambda>(q, _). q \<noteq> p) (pending_conns s)" "map_option fst (server_conn s') \<noteq> Some p"
    using assms by (auto simp: CloseConn_def rbind_eq_Inr Let_def set_conn_def option.map_comp comp_def split_beta split: prod.splits bool.splits if_splits)
  moreover have "map_of (filter (\<lambda>(q, _). q \<noteq> p) cs) p = None" for cs :: "(conn_ptr \<times> 'a Connection) list"
    by (induction cs) auto
  ultimately show ?thesis by (auto simp: fd_of_def conn_at_def split: option.splits)
qed

lemma curl_body_done:
  assumes "wire_law os out" "closing_law os out" "map_of (req_pipes ctx) a = Some rp"
    "conn_at (pipe_conn rp) s = Inr c" "c_fd c \<noteq> -1" "\<And>rp w. out (delete_request_pipe api rp w) = out w"
  shows "\<exists>ctx' s' w'. curl_pipe_to_conn_body os api d a ctx s w = Inr (of_nat (length d), ctx', s', w')
    \<and> map_of (req_pipes ctx') a = None \<and> pending_conns s' = filter (\<lambda>(p, _). p \<noteq> pipe_conn rp) (pending_conns s)
    \<and> out w' = (out w)(c_fd c := out w (c_fd c) @ d)"
proof -
  obtain w1 where w1: "Connection_Write os d c w = (1, w1)" "out w1 = (out w)(c_fd c := out w (c_fd c) @ d)"
    using Connection_Write_wire [OF assms(1,5)] by blast
  obtain s' w2 where w2: "CloseConn os (pipe_conn rp) s w1 = Inr (0, s', w2)" "out w2 = out w1"
    "pending_conns s' = filter (\<lambda>(p, _). p \<noteq> pipe_conn rp) (pending_conns s)"
    using CloseConn_done [OF assms(2,4), of w1] by blast
  have "map_of (filter (\<lambda>(b, _). b \<noteq> a) xs) a = None" for xs :: "(nat \<times> request_pipe_t) list"
    by (induction xs) auto
  with w1 w2 assms(3,4,6) show ?thesis
    by (simp add: curl_pipe_to_conn_body_def curl_write_body_def Connection_Close_def)
qed

lemma curl_headers_done:
  assumes "wire_law os out" "map_of (req_pipes ctx) a = Some rp" "conn_at (pipe_conn rp) s = Inr c" "c_fd c \<noteq> -1"
  shows "\<exists>w'. curl_pipe_to_conn_headers os d a ctx s w = Inr (of_nat (length d), w') \<and> out w' = (out w)(c_fd c := out w (c_fd c) @ d)"
  using Connection_Write_wire [OF assms(1,4), of d w] assms(2,3)
  by (auto simp: curl_pipe_to_conn_headers_def curl_write_headers_def)

section \<open>Properties\<close>

text \<open>
  C6. The basic example serves its page, from the bytes of the request to the bytes of the answer. Let the
  head of a GET, POST or PUT request for \<^verbatim>\<open>/\<close>, with any other header lines that ask for no WebSocket, come
  in on a fresh connection within one wake-up, cut into reads in any way, each line at most 1024 bytes
  long. When its event is handled and the request is complete with its head (no body announced), the client
  gets exactly the 200 response with the page, its connection is closed and removed, and nothing is sent to
  anybody else. When a body is announced, nothing is sent yet, whatever of the body came along, and the
  connection stays open with the parsed head.
\<close>

theorem basic_root_served:
  assumes "read_law (env_os e)" "wire_law (env_os e) out" "closing_law (env_os e) out" "fmt_nat e 200 = ''200''"
    "regex_match e ''/'' ''/'' = Some True" "request_handlers s = []"
    "conn_at p s = Inr (new_Connection fd)" "fd \<noteq> -1" "map_option fst (server_conn s) \<noteq> Some p"
    "head_arrives (env_os e) fd w n hs q" "n \<le> fuel e"
    "uri q = ''/''" "http_method q \<in> {GET, POST, PUT}" "upgrade_flags q AND UpgradeWebSocket = 0"
  shows "\<exists>s' x'. handle_event (basic_env e) (p, EPOLLIN) (basic_setup s) (ctx, w) = Inr (None, s', x')
    \<and> (if state q = Done
       then pending_conns s' = filter (\<lambda>(r, _). r \<noteq> p) (pending_conns s)
         \<and> out (snd x') = (out w)(fd := out w fd @ page_response (fmt_nat e) (version q) kGetTemplate)
       else map fst (pending_conns s') = map fst (pending_conns s) \<and> (\<exists>c. conn_at p s' = Inr c \<and> c_parser c = q)
         \<and> out (snd x') = out w)"
proof -
  let ?e = "basic_env e" and ?s = "basic_setup s"
  have env: "env_os ?e = app_os (env_os e)" "fuel ?e = fuel e" by (simp_all add: basic_env_def)
  have arr: "head_arrives (env_os ?e) fd (ctx, w) n hs q" unfolding env by (rule head_arrives_app [OF assms(10)])
  have sil: "reads_silent (env_os ?e) (out \<circ> snd)"
    using assms(2) by (simp add: reads_silent_def env wire_law_def)
  have rl: "read_law (env_os ?e)" by (simp add: env read_law_app [OF assms(1)])
  have at: "conn_at p ?s = Inr (new_Connection fd)" using assms(7) by simp
  obtain c x where c: "head_done fd q c" "out (snd x) = out w"
    "handle_http ?e p ?s (ctx, w) = handle_request ?e p (state_ret (state q)) (set_conn p c ?s) x"
    using handle_http_head [OF rl sil at arr] assms(11) by (auto simp: env)
  then have f: "c_parser c = q" "c_fd c = fd" "ws_conn c = None" by (simp_all add: head_done_def)
  let ?s1 = "set_conn p c ?s"
  have at1: "conn_at p ?s1 = Inr c" by (rule conn_at_set [OF at])
  have find: "FindRequestHandler ?e (uri (c_parser c)) ?s1 = Inr (Some ''/'')" "handler_at ''/'' ?s1 = Inr basic_handlers"
    using basic_setup_at [OF assms(6,5)] assms(12) f by (simp_all add: FindRequestHandler_def)
  have up: "\<not> ShouldUpgradeWebsocket c" using assms(14) f by (simp add: ShouldUpgradeWebsocket_def)
  have m: "method_index (http_method (c_parser c)) < length (http_handlers basic_handlers)"
    "http_handlers basic_handlers ! method_index (http_method (c_parser c)) = Some DummyHandler"
    using basic_table(2) [OF assms(13)] f by (simp_all add: basic_table(1)) (use assms(13) in \<open>elim insertE; simp\<close>)
  note call = handle_request_calls [OF at1 find up m, of "state_ret (state q)" x]
  have pend: "filter (\<lambda>(r, _). r \<noteq> p) (pending_conns ?s1) = filter (\<lambda>(r, _). r \<noteq> p) (pending_conns s)"
    "map fst (pending_conns ?s1) = map fst (pending_conns s)"
    by (simp_all add: basic_setup_def RegisterRequestHandler_def) (simp add: set_conn_def comp_def split_beta)
  have "map_option fst (server_conn ?s) \<noteq> Some p" using assms(9) by (simp add: basic_setup_def RegisterRequestHandler_def)
  then have ev: "handle_event ?e (p, EPOLLIN) ?s (ctx, w)
      = rbind (handle_request ?e p (state_ret (state q)) ?s1 x) (\<lambda>(s1, w1). Inr (None, s1, w1))"
    using at c(3) by (simp add: handle_event_def EPOLLIN_def new_Connection_def)
  show ?thesis
  proof (cases "state q = Done")
    case True
    then obtain s' x' where "handle_request ?e p (state_ret (state q)) ?s1 x = Inr (s', x')"
      "pending_conns s' = filter (\<lambda>(r, _). r \<noteq> p) (pending_conns s)"
      "out (snd x') = (out w)(fd := out w fd @ page_response (fmt_nat e) (version q) kGetTemplate)"
      using dummy_then_close [OF assms(2-4) at1, of "uri (c_parser c)" "PopBody c" x] assms(8) f c(2) call pend(1) by auto
    with ev True show ?thesis by simp
  next
    case False
    then have "state_ret (state q) \<noteq> 1" by (cases "state q") simp_all
    then have "handle_request ?e p (state_ret (state q)) ?s1 x = Inr (?s1, x)"
      using call by (cases x) (simp add: basic_env_def basic_handler_def dummy_handler_def)
    with ev False f at1 pend(2) c(2) show ?thesis by simp
  qed
qed

theorem basic_root_served_witness:
  "\<exists>s' x'. handle_event (basic_env sim_env_for) (2, EPOLLIN) (basic_setup basic_server0)
      (\<lparr>pending_get_conn = None\<rparr>, k0\<lparr>k_input := (\<lambda>_. [])(7 := map Data [''GET / HT'', ''TP/1.1'' @ CRLF @ ''Accept: a'' @ CRLF, CRLF])\<rparr>)
        = Inr (None, s', x')
    \<and> pending_conns s' = []
    \<and> k_output (snd x') 7 = ''HTTP/1.1 200 OK'' @ CRLF @ ''Content-Length: 87'' @ CRLF @ CRLF @ kGetTemplate"
proof -
  let ?cs = "[''GET / HT'', ''TP/1.1'' @ CRLF @ ''Accept: a'' @ CRLF, CRLF]"
  let ?hs = "[''GET / HTTP/1.1'' @ CRLF, ''Accept: a'' @ CRLF, CRLF]"
  let ?k = "k0\<lparr>k_input := (\<lambda>_. [])(7 := map Data ?cs)\<rparr>"
  let ?q = "new_HttpHeaderParser\<lparr>http_method := GET, uri := ''/'', version := HTTP_1_1, headers := [(''Accept'', ''a'')], state := Done\<rparr>"
  have q: "parse_head ?hs new_HttpHeaderParser = Some ?q" by code_simp
  have "list_all one_line ?hs" by code_simp
  moreover have "delivers sim_os 7 ?k ?cs" by (rule sim_delivers) simp_all
  then have "pours sim_os 7 100 (length ?cs) ?k [concat ?hs @ []]" using delivers_pours [of sim_os 7 ?k ?cs 100] by simp
  ultimately have arr: "head_arrives (env_os sim_env_for) 7 ?k (length ?cs) ?hs ?q"
    unfolding head_arrives_def sim_env_for_fields using q by (intro conjI exI [of _ "[]"] exI [of _ 100]) (assumption | simp)+
  have len: "dec (length kGetTemplate) = ''87''" by code_simp
  have env: "read_law (env_os sim_env_for)" "wire_law (env_os sim_env_for) k_output" "closing_law (env_os sim_env_for) k_output"
    "fmt_nat sim_env_for 200 = ''200''" "regex_match sim_env_for ''/'' ''/'' = Some True"
    by (simp_all add: sim_read_law sim_wire_law sim_closing_law len) code_simp+
  have srv: "request_handlers basic_server0 = []" "conn_at 2 basic_server0 = Inr (new_Connection 7)" "(7 :: fd) \<noteq> -1"
    "map_option fst (server_conn basic_server0) \<noteq> Some 2" "pending_conns basic_server0 = [(2, new_Connection 7)]"
    by (simp_all add: basic_server0_def conn_at_def new_Server_def)
  have "length ?cs \<le> fuel sim_env_for" "http_method ?q \<in> {GET, POST, PUT}" "upgrade_flags ?q AND UpgradeWebSocket = 0"
    by (simp_all add: new_HttpHeaderParser_def)
  from basic_root_served [OF env(1-5) srv(1-4) arr this(1) _ this(2,3), of "\<lparr>pending_get_conn = None\<rparr>"]
  obtain s' x' where "handle_event (basic_env sim_env_for) (2, EPOLLIN) (basic_setup basic_server0) (\<lparr>pending_get_conn = None\<rparr>, ?k) = Inr (None, s', x')"
    "pending_conns s' = []"
    "k_output (snd x') = (k_output ?k)(7 := k_output ?k 7 @ page_response dec HTTP_1_1 kGetTemplate)"
    unfolding srv(5) by auto
  then show ?thesis
    by (intro exI [of _ s'] exI [of _ x']) (simp add: page_response_def len k0_def)
qed

text \<open>
  A GET that waits: when a WebSocket gets ready, the remembered connection is sent the 200 response
  with the page, closed and forgotten - provided it is still alive. If it was closed in the meantime
  (the peer hung up, say), the ready hook uses the destroyed connection, because nothing clears the
  remembered pointer.
\<close>

theorem pending_get_answered:
  assumes "wire_law os out" "closing_law os out" "fmt 200 = ''200''" "get_handler q ctx = (r, ctx1)"
    "\<And>c. conn_at q s = Inr c \<Longrightarrow> c_fd c \<noteq> -1"
  shows "case conn_at q s of
      Inr c \<Rightarrow> (\<exists>s' w'. websocket_ready os fmt ctx1 s w = Inr (0, ctx1\<lparr>pending_get_conn := None\<rparr>, s', w')
        \<and> pending_conns s' = filter (\<lambda>(p, _). p \<noteq> q) (pending_conns s)
        \<and> out w' = (out w)(c_fd c := out w (c_fd c) @ page_response fmt (version (c_parser c)) kGetTemplate))
    | Inl _ \<Rightarrow> websocket_ready os fmt ctx1 s w = Inl UseAfterFree"
proof (cases "conn_at q s")
  case (Inl f)
  then have "f = UseAfterFree" by (auto simp: conn_at_def split: option.splits if_splits)
  with Inl assms(4) show ?thesis by (auto simp: websocket_ready_def get_handler_def respond_def)
next
  case (Inr c)
  have "kGetTemplate \<noteq> []" by (simp add: kGetTemplate_def)
  from respond_done [OF assms(1) Inr assms(5) [OF Inr], of fmt, OF assms(3) this]
  obtain w1 where w1: "respond os fmt kGetTemplate q s w = Inr w1"
    "out w1 = (out w)(c_fd c := out w (c_fd c) @ page_response fmt (version (c_parser c)) kGetTemplate)" by blast
  obtain s' w' where "CloseConn os q s w1 = Inr (0, s', w')" "out w' = out w1"
    "pending_conns s' = filter (\<lambda>(p, _). p \<noteq> q) (pending_conns s)"
    using CloseConn_done [OF assms(2) Inr, of w1] by blast
  with w1 Inr assms(4) show ?thesis
    by (auto simp: websocket_ready_def get_handler_def Connection_Close_def)
qed

theorem pending_get_answered_witness:
  "(\<exists>s' w'. websocket_ready sim_os dec \<lparr>pending_get_conn = Some 2\<rparr> basic_server0 k0 = Inr (0, \<lparr>pending_get_conn = None\<rparr>, s', w')
      \<and> pending_conns s' = [])
   \<and> websocket_ready sim_os dec \<lparr>pending_get_conn = Some 9\<rparr> basic_server0 k0 = Inl UseAfterFree"
proof -
  have fmt: "dec 200 = ''200''" by code_simp
  have get: "get_handler q \<lparr>pending_get_conn = None\<rparr> = (0, \<lparr>pending_get_conn = Some q\<rparr>)" for q by (simp add: get_handler_def)
  have at: "conn_at 2 basic_server0 = Inr (new_Connection 7)" "conn_at 9 basic_server0 = Inl UseAfterFree"
    by (simp_all add: basic_server0_def conn_at_def new_Server_def)
  show ?thesis
    using pending_get_answered [where fmt = dec, OF sim_wire_law sim_closing_law fmt get, of 2 basic_server0 k0]
      pending_get_answered [where fmt = dec, OF sim_wire_law sim_closing_law fmt get, of 9 basic_server0 k0]
    by (auto simp: at new_Connection_def) (simp add: basic_server0_def new_Server_def)
qed

text \<open>
  The broadcast example polls safely: its connect hook joins the group and leaves the server alone,
  so whatever clients do, no \<open>Poll\<close> of the program - started by \<open>Init\<close>, after any calls in any order -
  uses a destroyed connection.
\<close>

theorem broadcast_example_polls_safe:
  assumes "base_law e reg" "Init (env_os (broadcast_env e)) addr port backlog new_Server x0 = (0, s1, x1)"
    "(server_step (broadcast_env e) (reg \<circ> snd))\<^sup>*\<^sup>* (s1, x1) (s, x)"
  shows "Poll (broadcast_env e) t s x \<noteq> Inl UseAfterFree"
  by (rule lawful_run_safe [OF broadcast_lawful [OF assms(1)] assms(2,3)])

theorem broadcast_example_polls_safe_witness:
  "\<exists>s x. (server_step (broadcast_env sim_env_for) (k_reg \<circ> snd))\<^sup>*\<^sup>*
      (snd (Init (env_os (broadcast_env sim_env_for)) None 2999 5 new_Server (\<lparr>bg = sim_group\<rparr>, k0))) (broadcast_setup s, x)
    \<and> Poll (broadcast_env sim_env_for) 1000 (broadcast_setup s) x \<noteq> Inl UseAfterFree"
proof -
  let ?e = "broadcast_env sim_env_for"
  obtain x1 and s1 :: "broadcast_cb Server" where i: "Init (env_os ?e) None 2999 5 new_Server (\<lparr>bg = sim_group\<rparr>, k0) = (0, s1, x1)"
    by (simp add: Init_def broadcast_env_def app_os_def with_app_def sim_os_def Let_def)
  have "server_step ?e (k_reg \<circ> snd) (s1, x1) (broadcast_setup s1, x1)"
    unfolding broadcast_setup_def by (rule register) (simp add: broadcast_handlers_def new_RequestHandler_def)
  then have run: "(server_step ?e (k_reg \<circ> snd))\<^sup>*\<^sup>* (s1, x1) (broadcast_setup s1, x1)" by (rule r_into_rtranclp)
  from broadcast_example_polls_safe [OF sim_base_law i run, of 1000] run show ?thesis
    unfolding i snd_conv by blast
qed

text \<open>
  C34. Its broadcasts are not safe: once a client that joined has been disconnected, the next broadcast
  uses the destroyed connection - nothing takes a closed connection out of the group.
\<close>

theorem broadcast_after_disconnect:
  assumes "Join os (fd_of s) (Some p) (bg ctx) w = Inr (0, g, w1)" "on_ws_connected os p ctx s w = Inr (r, ctx1, w1)"
    "CloseConn os p s w2 = Inr (0, s', w3)" "map_option fst (server_conn s) \<noteq> Some p"
    "pipe_law os peer cap view" "fst (pipefd (bg ctx)) \<noteq> -1" "snd (pipefd (bg ctx)) \<noteq> -1"
    "peer (snd (pipefd (bg ctx))) = Some (fst (pipefd (bg ctx)))" "fst (view w4) (fst (pipefd (bg ctx))) = []"
    "length (ws_header (of_nat (length data)) kTypeText) + length data \<le> cap"
  shows "broadcast_now os data s' ctx1 w4 = Inl UseAfterFree"
proof -
  have ctx1: "ctx1 = ctx\<lparr>bg := g\<rparr>" using assms(1,2) by (simp add: on_ws_connected_def)
  have g: "\<exists>m \<in> set (connections g). snd m = p" "pipefd g = pipefd (bg ctx)"
    using assms(1) by (auto simp: Join_def Let_def split: option.splits prod.splits)
  then obtain m where m: "m \<in> set (connections g)" "snd m = p" by blast
  have "fd_of s' (snd m) = None" using fd_of_closed [OF assms(3,4)] m(2) by simp
  with assms(6-10) m(1) g(2) have "Broadcast os (fd_of s') data kTypeText g w4 = Inl UseAfterFree"
    by (intro Broadcast_stale [OF assms(5), of g "fst (pipefd g)" "snd (pipefd g)"]) simp_all
  then show ?thesis by (simp add: broadcast_now_def ctx1)
qed

theorem broadcast_after_disconnect_witness:
  "\<exists>ctx1 w1 s' w3. on_ws_connected pipe_os 2 \<lparr>bg = sim_group\<rparr> broadcast_server0 (k0\<lparr>k_next_fd := 1006\<rparr>) = Inr (0, ctx1, w1)
    \<and> CloseConn pipe_os 2 broadcast_server0 w1 = Inr (0, s', w3) \<and> broadcast_now pipe_os ''hi'' s' ctx1 w3 = Inl UseAfterFree"
proof -
  let ?s = broadcast_server0 and ?w = "k0\<lparr>k_next_fd := 1006\<rparr>"
  have at: "conn_at 2 ?s = Inr (new_Connection 7)" "map_option fst (server_conn ?s) \<noteq> Some 2"
    by (simp_all add: broadcast_server0_def conn_at_def new_Server_def)
  obtain g w1 where j: "Join pipe_os (fd_of ?s) (Some 2) (bg \<lparr>bg = sim_group\<rparr>) ?w = Inr (0, g, w1)" "k_pipe w1 = k_pipe k0"
    by (simp add: Join_def fd_of_def at new_Connection_def pipe_os_def sim_os_def)
  then have on: "on_ws_connected pipe_os 2 \<lparr>bg = sim_group\<rparr> ?s ?w = Inr (0, \<lparr>bg = g\<rparr>, w1)" by (simp add: on_ws_connected_def)
  have "closing_law pipe_os k_pipe" by (simp add: closing_law_def pipe_os_def sim_os_def)
  from CloseConn_done [OF this at(1), of w1] obtain s' w3 where c: "CloseConn pipe_os 2 ?s w1 = Inr (0, s', w3)" "k_pipe w3 = k_pipe w1"
    by blast
  have "broadcast_now pipe_os ''hi'' s' \<lparr>bg = g\<rparr> w3 = Inl UseAfterFree"
    by (rule broadcast_after_disconnect [OF j(1) on c(1) at(2) sim_pipe_law [of 100]])
      (simp_all add: sim_group_def sim_peer_def k_view_def c(2) j(2) k0_def ws_header_def MakeWebsocketHeader_def)
  with on c show ?thesis by blast
qed

text \<open>
  C36. The proxy passes on the head of an upstream answer and the first piece of its body, and no more:
  the header data and the first piece go to the client in order, which closes the client's connection
  and drops the request; every further piece of the body is reported to libcurl as written but
  goes nowhere, so a body that arrives in several pieces is cut off.
\<close>

theorem proxy_cuts_body:
  assumes "wire_law os out" "closing_law os out" "\<And>rp w. out (delete_request_pipe api rp w) = out w"
    "map_of (req_pipes ctx) a = Some rp" "conn_at (pipe_conn rp) s = Inr c" "c_fd c \<noteq> -1"
  shows "\<exists>w1 ctx' s' w2. curl_pipe_to_conn_headers os hdr a ctx s w = Inr (of_nat (length hdr), w1)
    \<and> curl_pipe_to_conn_body os api d a ctx s w1 = Inr (of_nat (length d), ctx', s', w2)
    \<and> pending_conns s' = filter (\<lambda>(p, _). p \<noteq> pipe_conn rp) (pending_conns s)
    \<and> curl_pipe_to_conn_body os api d' a ctx' s' w2 = Inr (of_nat (length d'), ctx', s', w2)
    \<and> out w2 = (out w)(c_fd c := out w (c_fd c) @ hdr @ d)"
proof -
  obtain w1 where w1: "curl_pipe_to_conn_headers os hdr a ctx s w = Inr (of_nat (length hdr), w1)"
    "out w1 = (out w)(c_fd c := out w (c_fd c) @ hdr)"
    using curl_headers_done [OF assms(1,4,5,6)] by blast
  from curl_body_done [OF assms(1,2,4,5,6), of api d w1, OF assms(3)] obtain ctx' s' w2 where
    "curl_pipe_to_conn_body os api d a ctx s w1 = Inr (of_nat (length d), ctx', s', w2)" "map_of (req_pipes ctx') a = None"
    "pending_conns s' = filter (\<lambda>(p, _). p \<noteq> pipe_conn rp) (pending_conns s)" "out w2 = (out w1)(c_fd c := out w1 (c_fd c) @ d)"
    by blast
  with w1 show ?thesis
    by (intro exI [of _ w1] exI [of _ ctx'] exI [of _ s'] exI [of _ w2]) (simp add: curl_pipe_to_conn_body_def)
qed

theorem proxy_cuts_body_witness:
  "\<exists>w1 ctx' s' w2. curl_pipe_to_conn_headers sim_os ''HTTP/1.1 200 OK'' 5 proxy_ctx0 basic_server0 k0 = Inr (15, w1)
    \<and> curl_pipe_to_conn_body sim_os no_curl ''one'' 5 proxy_ctx0 basic_server0 w1 = Inr (3, ctx', s', w2)
    \<and> curl_pipe_to_conn_body sim_os no_curl ''two!'' 5 ctx' s' w2 = Inr (4, ctx', s', w2)
    \<and> k_output w2 7 = ''HTTP/1.1 200 OKone''"
proof -
  have at: "map_of (req_pipes proxy_ctx0) 5 = Some \<lparr>pipe_conn = 2, pipe_curl = Some 1\<rparr>"
    "conn_at (pipe_conn \<lparr>pipe_conn = 2, pipe_curl = Some 1\<rparr>) basic_server0 = Inr (new_Connection 7)"
    "c_fd (new_Connection 7 :: basic_cb Connection) \<noteq> -1"
    by (simp_all add: proxy_ctx0_def basic_server0_def conn_at_def new_Server_def new_Connection_def)
  have del: "k_output (delete_request_pipe no_curl rp w) = k_output w" for rp w
    by (simp add: delete_request_pipe_def no_curl_def split: option.split)
  obtain w1 ctx' s' w2 where
    "curl_pipe_to_conn_headers sim_os ''HTTP/1.1 200 OK'' 5 proxy_ctx0 basic_server0 k0 = Inr (of_nat (length ''HTTP/1.1 200 OK''), w1)"
    "curl_pipe_to_conn_body sim_os no_curl ''one'' 5 proxy_ctx0 basic_server0 w1 = Inr (of_nat (length ''one''), ctx', s', w2)"
    "curl_pipe_to_conn_body sim_os no_curl ''two!'' 5 ctx' s' w2 = Inr (of_nat (length ''two!''), ctx', s', w2)"
    "k_output w2 = (k_output k0)(7 := k_output k0 7 @ ''HTTP/1.1 200 OK'' @ ''one'')"
    using proxy_cuts_body [OF sim_wire_law sim_closing_law, of no_curl, OF del at, of "''HTTP/1.1 200 OK''" k0 "''one''" "''two!''"]
    by (auto simp: new_Connection_def simp del: list.size)
  then show ?thesis
    by (intro exI [of _ w1] exI [of _ ctx'] exI [of _ s'] exI [of _ w2]) (simp add: k0_def)
qed

end
