(* ===== verification/Hpl_Requests.thy ===== *)
theory Hpl_Requests
  imports Hpl_Examples
begin

text \<open>
  Requests over several wake-ups of one connection: a body that comes after its head, a body that
  comes in the same read as its head, and a second request on a connection that was kept open. The
  operations are those of \<^verbatim>\<open>src/src/hpl_connection.cc\<close>, \<^verbatim>\<open>hpl_header_parser.cc\<close> and \<^verbatim>\<open>hpl_server.cc\<close>; here are
  the runs of \<open>handle_event\<close> over them, seen from the handler.
\<close>

section \<open>Wake-ups of one connection\<close>

fun wakeups :: "('h, 'w) env \<Rightarrow> conn_ptr \<Rightarrow> nat \<Rightarrow> 'h Server \<Rightarrow> 'w \<Rightarrow> ('h Server \<times> 'w) res" where
  "wakeups e p 0 s w = Inr (s, w)"
| "wakeups e p (Suc k) s w = rbind (handle_event e (p, EPOLLIN) s w) (\<lambda>(_, s1, w1). wakeups e p k s1 w1)"

text \<open>
  What the next reads of a descriptor find: some bytes, for which the reader offers room, or nothing
  yet.
\<close>

fun reads :: "'w os \<Rightarrow> fd \<Rightarrow> 'w \<Rightarrow> bytes option list \<Rightarrow> bool" where
  "reads os fd w [] = True"
| "reads os fd w (Some d # rs) = (d \<noteq> [] \<and> (\<exists>w'. (\<forall>n \<ge> length d. sys_read os fd n w = (Data d, w')) \<and> reads os fd w' rs))"
| "reads os fd w (None # rs) = (\<forall>n. fst (sys_read os fd n w) = ReadErr EAGAIN \<and> reads os fd (snd (sys_read os fd n w)) rs)"

text \<open>
  A handler that keeps the connection open and leaves the server alone; \<open>log\<close> is what it was called
  with so far. It does not touch the stream, and reading calls no handler.
\<close>

definition collects :: "('h, 'w) env \<Rightarrow> 'h \<Rightarrow> fd \<Rightarrow> ('w \<Rightarrow> (bytes \<times> bytes \<times> bool) list) \<Rightarrow> bool" where
  "collects e h fd log \<longleftrightarrow>
     (\<forall>p u d fin s w. \<exists>w'. run_handler e h p u d fin s w = Inr (0, s, w') \<and> log w' = log w @ [(u, d, fin)]
        \<and> (\<forall>rs. reads (env_os e) fd w rs \<longrightarrow> reads (env_os e) fd w' rs))
   \<and> (\<forall>x n w. log (snd (sys_read (env_os e) x n w)) = log w)"

lemma collects_call:
  assumes "collects e h fd log"
  obtains w' where "run_handler e h p u d fin s w = Inr (0, s, w')" "log w' = log w @ [(u, d, fin)]"
    "\<And>rs. reads (env_os e) fd w rs \<Longrightarrow> reads (env_os e) fd w' rs"
  using assms unfolding collects_def by metis

lemma collects_read: "collects e h fd log \<Longrightarrow> log (snd (sys_read (env_os e) x n w)) = log w"
  unfolding collects_def by blast

text \<open>The request of the connection at \<open>p\<close>, parsed as \<open>q\<close>, belongs to the handler \<open>h\<close>.\<close>

definition routed :: "('h, 'w) env \<Rightarrow> conn_ptr \<Rightarrow> HttpHeaderParser \<Rightarrow> 'h \<Rightarrow> 'h Server \<Rightarrow> bool" where
  "routed e p q h s \<longleftrightarrow>
     map_option fst (server_conn s) \<noteq> Some p \<and> upgrade_flags q AND UpgradeWebSocket = 0
   \<and> (\<exists>k table. FindRequestHandler e (uri q) s = Inr (Some k) \<and> handler_at k s = Inr table
        \<and> method_index (http_method q) < length (http_handlers table)
        \<and> http_handlers table ! method_index (http_method q) = Some h)"

lemma server_conn_set_conn: "map_option fst (server_conn (set_conn p c s)) = map_option fst (server_conn s)"
  by (cases "server_conn s") (auto simp: set_conn_def)

lemma routed_set_conn [simp]: "routed e p q h (set_conn p c s) = routed e p q h s"
  by (simp add: routed_def FindRequestHandler_def server_conn_set_conn)

lemma handle_event_http:
  assumes "conn_at p s = Inr c" "ws_conn c = None" "map_option fst (server_conn s) \<noteq> Some p"
  shows "handle_event e (p, EPOLLIN) s w = rbind (handle_http e p s w) (\<lambda>(s1, w1). Inr (None, s1, w1))"
  using assms by (simp add: handle_event_def EPOLLIN_def)

text \<open>One wake-up whose data lead to a call of the handler.\<close>

lemma wakeup_calls:
  assumes "collects e h fd log" "conn_at p s = Inr c" "ws_conn c = None" "routed e p q h s"
    "ProcessDataIn (fuel e) (env_os e) c w = Some (Inr (ret, c', w1))" "ret = 0 \<or> ret = 1"
    "uri (c_parser c') = uri q" "http_method (c_parser c') = http_method q" "upgrade_flags (c_parser c') = upgrade_flags q"
  obtains w2 where "handle_event e (p, EPOLLIN) s w = Inr (None, set_conn p c' s, w2)"
    "log w2 = log w1 @ [(uri q, PopBody c', ret = 1)]"
    "\<And>rs. reads (env_os e) fd w1 rs \<Longrightarrow> reads (env_os e) fd w2 rs"
proof -
  let ?s = "set_conn p c' s"
  from assms(4) obtain k table where r: "map_option fst (server_conn s) \<noteq> Some p" "upgrade_flags q AND UpgradeWebSocket = 0"
    "FindRequestHandler e (uri q) s = Inr (Some k)" "handler_at k s = Inr table"
    "method_index (http_method q) < length (http_handlers table)" "http_handlers table ! method_index (http_method q) = Some h"
    by (auto simp: routed_def)
  have at: "conn_at p ?s = Inr c'" using conn_at_set [OF assms(2)] .
  have find: "FindRequestHandler e (uri (c_parser c')) ?s = Inr (Some k)" "handler_at k ?s = Inr table"
    using r(3,4) assms(7) by (simp_all add: FindRequestHandler_def)
  have up: "\<not> ShouldUpgradeWebsocket c'" using r(2) assms(9) by (simp add: ShouldUpgradeWebsocket_def)
  note call = handle_request_calls [OF at find up, unfolded assms(7,8), OF r(5,6), of ret w1]
  obtain w2 where h: "run_handler e h p (uri q) (PopBody c') (ret = 1) ?s w1 = Inr (0, ?s, w2)"
    "log w2 = log w1 @ [(uri q, PopBody c', ret = 1)]"
    "\<And>rs. reads (env_os e) fd w1 rs \<Longrightarrow> reads (env_os e) fd w2 rs"
    using collects_call [OF assms(1)] by blast
  have "handle_http e p s w = handle_request e p ret ?s w1"
    using assms(2,5,6) by (auto simp: handle_http_def Let_def)
  then have "handle_event e (p, EPOLLIN) s w = Inr (None, ?s, w2)"
    using handle_event_http [OF assms(2,3) r(1), of e w] call h(1) by simp
  with h(2,3) that show thesis by blast
qed

section \<open>What one wake-up reads\<close>

text \<open>A piece of a body: not empty, within the buffer, without a line end.\<close>

definition plain_piece :: "bytes \<Rightarrow> bool" where
  "plain_piece d \<longleftrightarrow> d \<noteq> [] \<and> length d \<le> 1024 \<and> (\<forall>k. \<not> crlf_at d k)"

definition count_body :: "bytes \<Rightarrow> HttpHeaderParser \<Rightarrow> HttpHeaderParser" where
  "count_body d q =
     (let q' = q\<lparr>body_length := body_length q + of_nat (length d)\<rparr>
      in if the (content_length q) \<le> body_length q' then q'\<lparr>state := Done\<rparr> else q')"

lemma PushLine_body: "state q = Body \<Longrightarrow> content_length q \<noteq> None \<Longrightarrow> PushLine d q = Inr (count_body d q)"
  by (auto simp: PushLine_def count_body_def Let_def)

lemma count_body_fields [simp]:
  "uri (count_body d q) = uri q" "http_method (count_body d q) = http_method q" "upgrade_flags (count_body d q) = upgrade_flags q"
  "content_length (count_body d q) = content_length q"
  "body_length (count_body d q) = body_length q + of_nat (length d)"
  by (simp_all add: count_body_def Let_def)

lemma count_body_state:
  "state q = Body \<Longrightarrow> state (count_body d q) = (if the (content_length q) \<le> body_length q + of_nat (length d) then Done else Body)"
  by (simp add: count_body_def Let_def)

lemma ProcessDataIn_body:
  assumes "state (c_parser c) = Body" "content_length (c_parser c) \<noteq> None" "c_buffer c = []" "plain_piece d"
    "\<forall>n \<ge> length d. sys_read os (c_fd c) n w = (Data d, w')"
  shows "ProcessDataIn (Suc f) os c w =
    Some (Inr (state_ret (state (count_body d (c_parser c))), c\<lparr>partial_body := d, c_parser := count_body d (c_parser c)\<rparr>, w'))"
proof -
  let ?c = "c\<lparr>c_buffer := d\<rparr>"
  have d: "d \<noteq> []" "length d \<le> 1024" "PopLine d = (None, d)" using assms(4) by (auto simp: plain_piece_def PopLine_None_iff)
  have rd: "Connection_Read os c w = Inr (1, ?c, w')"
    using Connection_Read_data [OF assms(5) d(1)] assms(3) d(2) by simp
  have tp: "take_piece ?c = Some (d, c\<lparr>partial_body := d\<rparr>)"
    using d assms(1,3) by (cases c) (simp add: take_piece_def Let_def)
  have st: "state (count_body d (c_parser c)) = Done \<or> state (count_body d (c_parser c)) = Body"
    using count_body_state [OF assms(1)] by simp
  have "line_loop ?c = Inr (Some (state_ret (state (count_body d (c_parser c)))),
      c\<lparr>partial_body := d, c_parser := count_body d (c_parser c)\<rparr>)"
    using st by (simp add: line_loop.simps [of ?c] tp PushLine_body [OF assms(1,2)])
  with rd show ?thesis by simp
qed

text \<open>A wake-up that finds nothing to read; whatever is still in the buffer is not looked at.\<close>

lemma ProcessDataIn_drained:
  assumes "reads os (c_fd c) w (None # rs)"
  shows "\<exists>n. ProcessDataIn (Suc f) os c w = Some (Inr (state_ret (state (c_parser c)), c, snd (sys_read os (c_fd c) n w)))"
proof -
  let ?n = "unat (SMALL_MEMORY - of_nat (length (c_buffer c)))"
  have "fst (sys_read os (c_fd c) ?n w) = ReadErr EAGAIN" using assms by simp
  then show ?thesis by (intro exI [of _ ?n]) (auto simp: Connection_Read_def split_beta)
qed

text \<open>A head that comes in one read with what follows it: the rest stays in the buffer.\<close>

lemma ProcessDataIn_at_once:
  fixes fd :: fd
  defines "c \<equiv> new_Connection fd :: 'h Connection"
  assumes "read_law os" "reads os fd w (Some (concat hs @ rest) # rs)" "list_all one_line hs" "parse_head hs new_HttpHeaderParser = Some q"
    "length (concat hs @ rest) \<le> 1024"
  obtains c' w' where "ProcessDataIn (Suc f) os c w = Some (Inr (state_ret (state q), c', w'))" "c_parser c' = q"
    "c_buffer c' = rest" "PopBody c' = []" "c_fd c' = fd" "ws_conn c' = None" "reads os fd w' rs"
    "\<exists>n. w' = snd (sys_read os fd n w)"
proof -
  have c: "c_parser c = new_HttpHeaderParser" "c_buffer c = []" "partial_body c = []" "c_fd c = fd" "ws_conn c = None"
    by (simp_all add: c_def new_Connection_def)
  let ?d = "concat hs @ rest"
  obtain w' where w': "\<forall>n \<ge> length ?d. sys_read os (c_fd c) n w = (Data ?d, w')" "?d \<noteq> []" "reads os fd w' rs"
    using assms(3) c by auto
  let ?c = "c\<lparr>c_buffer := ?d\<rparr>"
  have rd: "Connection_Read os c w = Inr (1, ?c, w')"
    using Connection_Read_data [OF w'(1,2)] c assms(6) by simp
  have "parse_head hs (c_parser ?c) = Some q" "state (c_parser ?c) \<noteq> Body" "c_buffer ?c @ [] = concat hs @ rest"
    using assms(5) c by (simp_all add: new_HttpHeaderParser_def)
  from line_loop_head [OF this(1) assms(4) this(2,3)]
  obtain c' where l: "line_loop ?c = Inr (Some (state_ret (state q)), c')" "c_parser c' = q" "c_buffer c' = rest"
    "c_fd c' = c_fd c" "partial_body c' = partial_body c"
  proof (elim disjE exE conjE)
    fix c' hs' x
    assume a: "c_buffer c' @ [] = concat hs' @ rest" "x \<noteq> []" "hd hs' = c_buffer c' @ x" "parse_head hs' (c_parser c') = Some q"
    then obtain h' hs'' where "hs' = h' # hs''" by (cases hs') auto
    with a have False by auto
    then show thesis ..
  qed (use that in simp)
  have pd: "ProcessDataIn (Suc f) os c w = Some (Inr (state_ret (state q), c', w'))" using rd l(1) by simp
  have "conn_ok c" unfolding c_def by (rule new_Connection_ok)
  then have "ws_conn c' = None" using ProcessDataIn_ok [OF assms(2) _ pd] c(5) by simp
  moreover have "w' = snd (sys_read os fd (length ?d) w)" using w'(1) c(4) by simp
  ultimately show thesis using that [OF pd] l c w'(3) by (auto simp: PopBody_def)
qed

section \<open>Runs\<close>

lemma wakeup_body:
  assumes "collects e h fd log" "fuel e \<noteq> 0" "conn_at p s = Inr c" "c_fd c = fd" "ws_conn c = None" "c_buffer c = []"
    "state (c_parser c) = Body" "content_length (c_parser c) \<noteq> None" "routed e p (c_parser c) h s"
    "plain_piece d" "reads (env_os e) fd w (Some d # rs)"
  obtains c' w' where "handle_event e (p, EPOLLIN) s w = Inr (None, set_conn p c' s, w')" "reads (env_os e) fd w' rs"
    "log w' = log w @ [(uri (c_parser c), d, state (count_body d (c_parser c)) = Done)]"
    "c' = c\<lparr>partial_body := d, c_parser := count_body d (c_parser c)\<rparr>"
proof -
  let ?q = "c_parser c" and ?c = "c\<lparr>partial_body := d, c_parser := count_body d (c_parser c)\<rparr>"
  let ?r = "state_ret (state (count_body d (c_parser c)))"
  obtain w1 where w1: "\<forall>n \<ge> length d. sys_read (env_os e) (c_fd c) n w = (Data d, w1)" "reads (env_os e) fd w1 rs"
    using assms(4,11) by auto
  obtain f where f: "fuel e = Suc f" using assms(2) by (cases "fuel e") auto
  note pd = ProcessDataIn_body [OF assms(7,8,6,10) w1(1), of f, folded f]
  have r: "?r = 0 \<or> ?r = 1" "(?r = 1) = (state (count_body d (c_parser c)) = Done)" using count_body_state [OF assms(7)] by auto
  obtain w2 where "handle_event e (p, EPOLLIN) s w = Inr (None, set_conn p ?c s, w2)"
    "log w2 = log w1 @ [(uri ?q, PopBody ?c, ?r = 1)]" "\<And>rs. reads (env_os e) fd w1 rs \<Longrightarrow> reads (env_os e) fd w2 rs"
    using wakeup_calls [OF assms(1,3,5,9) pd r(1)] by auto
  moreover have "log w1 = log w" using collects_read [OF assms(1), of "c_fd c" "length d" w] w1(1) by simp
  ultimately show thesis using that w1(2) r(2) by (simp add: PopBody_def)
qed

lemma wakeups_body:
  assumes "collects e h fd log" "fuel e \<noteq> 0"
  shows "ds \<noteq> [] \<Longrightarrow> conn_at p s = Inr c \<Longrightarrow> c_fd c = fd \<Longrightarrow> ws_conn c = None \<Longrightarrow> c_buffer c = [] \<Longrightarrow>
    state (c_parser c) = Body \<Longrightarrow> content_length (c_parser c) = Some n \<Longrightarrow> routed e p (c_parser c) h s \<Longrightarrow>
    list_all plain_piece ds \<Longrightarrow> unat (body_length (c_parser c)) + length (concat ds) = unat n \<Longrightarrow>
    reads (env_os e) fd w (map Some ds) \<Longrightarrow>
    \<exists>s' w' c'. wakeups e p (length ds) s w = Inr (s', w') \<and> conn_at p s' = Inr c' \<and> state (c_parser c') = Done
      \<and> log w' = log w @ map (\<lambda>d. (uri (c_parser c), d, False)) (butlast ds) @ [(uri (c_parser c), last ds, True)]"
proof (induction ds arbitrary: s c w)
  case (Cons d ds)
  let ?q = "c_parser c" and ?b = "body_length (c_parser c) + of_nat (length d)"
  obtain c' w' where st: "handle_event e (p, EPOLLIN) s w = Inr (None, set_conn p c' s, w')" "reads (env_os e) fd w' (map Some ds)"
    "log w' = log w @ [(uri ?q, d, state (count_body d ?q) = Done)]" "c' = c\<lparr>partial_body := d, c_parser := count_body d ?q\<rparr>"
    using wakeup_body [OF assms Cons.prems(2-6) _ Cons.prems(8) _ Cons.prems(11) [unfolded list.map]] Cons.prems(7,9) by (metis list.pred_inject(2) option.distinct(1))
  have at: "conn_at p (set_conn p c' s) = Inr c'" using conn_at_set [OF Cons.prems(2)] .
  have lt: "unat (body_length ?q) + length d \<le> unat n" using Cons.prems(10) by simp
  have b: "unat ?b = unat (body_length ?q) + length d"
    using lt unsigned_less [where ?'a = nat, of n] by (simp add: unat_word_ariths unat_of_nat)
  show ?case
  proof (cases "ds = []")
    case True
    then have "n \<le> ?b" using b Cons.prems(10) by (simp add: word_le_nat_alt)
    then have "state (count_body d ?q) = Done" using count_body_state [OF Cons.prems(6), of d] Cons.prems(7) by simp
    with True st at show ?thesis by simp
  next
    case False
    then have "0 < length (concat ds)" using Cons.prems(9) by (cases ds) (auto simp: plain_piece_def)
    then have "\<not> n \<le> ?b" using Cons.prems(10) unfolding word_le_nat_alt b concat.simps length_append by linarith
    then have body: "state (count_body d ?q) = Body" using count_body_state [OF Cons.prems(6), of d] Cons.prems(7) by simp
    have "\<exists>s' w'' c''. wakeups e p (length ds) (set_conn p c' s) w' = Inr (s', w'') \<and> conn_at p s' = Inr c'' \<and> state (c_parser c'') = Done
      \<and> log w'' = log w' @ map (\<lambda>d. (uri (c_parser c'), d, False)) (butlast ds) @ [(uri (c_parser c'), last ds, True)]"
    proof (rule Cons.IH [OF False at])
      show "routed e p (c_parser c') h (set_conn p c' s)" using Cons.prems(8) st(4) by (simp add: routed_def FindRequestHandler_def server_conn_set_conn)
      show "unat (body_length (c_parser c')) + length (concat ds) = unat n" using b Cons.prems(10) st(4) by simp
    qed (use Cons.prems st body in simp_all)
    with st body False show ?thesis by simp
  qed
qed simp

text \<open>The first wake-up of a fresh connection, when the whole head comes in one read.\<close>

lemma wakeup_head:
  fixes s :: "'h Server"
  assumes "read_law (env_os e)" "collects e h fd log" "fuel e \<noteq> 0" "conn_at p s = Inr (new_Connection fd)" "routed e p q h s"
    "parse_head hs new_HttpHeaderParser = Some q" "list_all one_line hs" "length (concat hs @ rest) \<le> 1024"
    "reads (env_os e) fd w (Some (concat hs @ rest) # rs)"
  obtains c w' where "handle_event e (p, EPOLLIN) s w = Inr (None, set_conn p c s, w')" "conn_at p (set_conn p c s) = Inr c"
    "log w' = log w @ [(uri q, [], state q = Done)]" "reads (env_os e) fd w' rs" "c_parser c = q" "c_buffer c = rest"
    "c_fd c = fd" "ws_conn c = None" "PopBody c = []"
proof -
  obtain f where f: "fuel e = Suc f" using assms(3) by (cases "fuel e") auto
  obtain w1 and c :: "'h Connection" where c: "ProcessDataIn (fuel e) (env_os e) (new_Connection fd) w = Some (Inr (state_ret (state q), c, w1))"
    "c_parser c = q" "c_buffer c = rest" "PopBody c = []" "c_fd c = fd" "ws_conn c = None" "reads (env_os e) fd w1 rs"
    "\<exists>n. w1 = snd (sys_read (env_os e) fd n w)"
    using ProcessDataIn_at_once [OF assms(1,9,7,6,8), of f] unfolding f by metis
  have r: "state_ret (state q) = 0 \<or> state_ret (state q) = 1" "(state_ret (state q) = 1) = (state q = Done)"
    using parse_head_state [OF assms(6)] by auto
  have ws: "ws_conn (new_Connection fd :: 'h Connection) = None" by (simp add: new_Connection_def)
  obtain w2 where w2: "handle_event e (p, EPOLLIN) s w = Inr (None, set_conn p c s, w2)"
    "log w2 = log w1 @ [(uri q, PopBody c, state_ret (state q) = 1)]" "reads (env_os e) fd w2 rs"
    using wakeup_calls [OF assms(2,4) ws assms(5) c(1) r(1)] c(2,7) by metis
  have "log w1 = log w" using c(8) collects_read [OF assms(2)] by auto
  with w2 c r(2) conn_at_set [OF assms(4), of c] that show thesis by simp
qed

lemma parse_head_body_length:
  "parse_head hs p = Some q \<Longrightarrow> state p \<in> {FirstLine, Headers} \<Longrightarrow> body_length q = body_length p"
proof (induction hs arbitrary: p)
  case (Cons l hs)
  obtain p1 where p1: "PushLine l p = Inr p1" using Cons.prems(1) by (auto split: sum.splits)
  have b: "body_length p1 = body_length p"
    using p1 Cons.prems(2) by (auto simp: PushLine_def rbind_eq_Inr dest: ParseHeaderLine_frame split: if_splits)
  show ?case
  proof (cases "state p1 = Done \<or> state p1 = Body")
    case True
    with Cons.prems(1) p1 b show ?thesis by (auto split: if_splits)
  next
    case False
    with Cons.prems(1) p1 have "parse_head hs p1 = Some q" "state p1 \<in> {FirstLine, Headers}"
      by (cases "state p1"; simp)+
    from Cons.IH [OF this] b show ?thesis by simp
  qed
qed simp

text \<open>Wake-ups without data: the handler is called again and again, the buffer stays.\<close>

lemma wakeups_drained:
  assumes "collects e h fd log" "fuel e \<noteq> 0"
  shows "conn_at p s = Inr c \<Longrightarrow> c_fd c = fd \<Longrightarrow> ws_conn c = None \<Longrightarrow> state (c_parser c) = Body \<Longrightarrow>
    routed e p (c_parser c) h s \<Longrightarrow> reads (env_os e) fd w (replicate k None) \<Longrightarrow>
    \<exists>s' w'. wakeups e p k s w = Inr (s', w') \<and> conn_at p s' = Inr c
      \<and> log w' = log w @ replicate k (uri (c_parser c), PopBody c, False)"
proof (induction k arbitrary: s w)
  case (Suc k)
  obtain f where f: "fuel e = Suc f" using assms(2) by (cases "fuel e") auto
  obtain n where pd: "ProcessDataIn (fuel e) (env_os e) c w = Some (Inr (0, c, snd (sys_read (env_os e) fd n w)))"
    using ProcessDataIn_drained [of "env_os e" c w "replicate k None" f] Suc.prems(2,4,6) f by auto
  let ?w = "snd (sys_read (env_os e) fd n w)"
  obtain w2 where w2: "handle_event e (p, EPOLLIN) s w = Inr (None, set_conn p c s, w2)"
    "log w2 = log ?w @ [(uri (c_parser c), PopBody c, False)]"
    "\<And>rs. reads (env_os e) fd ?w rs \<Longrightarrow> reads (env_os e) fd w2 rs"
    using wakeup_calls [OF assms(1) Suc.prems(1,3,5) pd] by auto
  have "reads (env_os e) fd w2 (replicate k None)" using Suc.prems(6) by (intro w2(3)) simp
  from Suc.IH [OF conn_at_set [OF Suc.prems(1)] Suc.prems(2-4) _ this] Suc.prems(5)
  obtain s' w' where "wakeups e p k (set_conn p c s) w2 = Inr (s', w')" "conn_at p s' = Inr c"
    "log w' = log w2 @ replicate k (uri (c_parser c), PopBody c, False)" by auto
  with w2(1,2) collects_read [OF assms(1), of fd n w] show ?case by simp
qed simp

lemma ProcessDataIn_finished:
  assumes "state (c_parser c) = Done" "c_buffer c = []" "one_line l" "length (l @ rest) \<le> 1024"
    "\<forall>n \<ge> length (l @ rest). sys_read os (c_fd c) n w = (Data (l @ rest), w')"
  shows "ProcessDataIn (Suc f) os c w = Some (Inr (1, c\<lparr>c_buffer := rest\<rparr>, w'))"
proof -
  let ?c = "c\<lparr>c_buffer := l @ rest\<rparr>"
  have "l \<noteq> []" using assms(3) by (auto simp: one_line_def)
  then have rd: "Connection_Read os c w = Inr (1, ?c, w')"
    using Connection_Read_data [OF assms(5)] assms(2,4) by simp
  have "take_piece ?c = Some (l, c\<lparr>c_buffer := rest\<rparr>)"
    using PopLine_one_line [OF assms(3), of rest] by (simp add: take_piece_def)
  moreover have "PushLine l (c_parser c) = Inr (c_parser c)" using assms(1) by (simp add: PushLine_def)
  ultimately have "line_loop ?c = Inr (Some 1, c\<lparr>c_buffer := rest, c_parser := c_parser c\<rparr>)"
    using assms(1) by (simp add: line_loop.simps [of ?c])
  with rd show ?thesis by simp
qed

text \<open>A server with a handler for PUT that writes down its calls, to try the properties on.\<close>

definition put_table :: "unit RequestHandler" where
  "put_table = new_RequestHandler\<lparr>http_handlers := (http_handlers new_RequestHandler)[method_index PUT := Some ()]\<rparr>"

definition put_server :: "unit Server" where
  "put_server = RegisterRequestHandler ''/a'' put_table (sim_server (new_Connection 7) ''/z'')"

definition collect_env :: "(unit, (bytes \<times> bytes \<times> bool) list \<times> kernel) env" where
  "collect_env =
     \<lparr>env_os = app_os sim_os, run_handler = (\<lambda>_ p u d fin s (l, k). Inr (0, s, l @ [(u, d, fin)], k)),
      run_hook = (\<lambda>_ _ _ s w. Inr (0, s, w)), run_ws = (\<lambda>_ _ _ _ s w. Inr (0, s, w)), regex_match = (\<lambda>k u. Some (k = ''.*'' \<or> k = u)),
      sha1_of = (\<lambda>m. replicate 20 SP), hash_array = replicate 40 NUL, fmt_nat = dec, fuel = 100\<rparr>"

lemma reads_app: "reads (app_os os) fd x rs \<longleftrightarrow> reads os fd (snd x) rs"
proof (induction rs arbitrary: x)
  case (Cons r rs)
  then show ?case by (cases r) (fastforce simp: with_app_eq)+
qed simp

lemma collect_env_collects: "collects collect_env () fd fst"
proof -
  have "\<exists>w'. run_handler collect_env () p u d fin s w = Inr (0, s, w') \<and> fst w' = fst w @ [(u, d, fin)]
      \<and> (\<forall>rs. reads (env_os collect_env) fd w rs \<longrightarrow> reads (env_os collect_env) fd w' rs)" for p u d fin s w
    by (cases w) (simp add: collect_env_def reads_app)
  then show ?thesis unfolding collects_def by (simp add: collect_env_def)
qed

lemma collect_read_law: "read_law (env_os collect_env)"
  using read_law_app [OF sim_read_law] by (simp add: collect_env_def)

lemma put_server_routed:
  "uri q = ''/a'' \<Longrightarrow> http_method q = PUT \<Longrightarrow> upgrade_flags q = 0 \<Longrightarrow> routed collect_env 2 q () put_server"
  by (simp add: routed_def put_server_def put_table_def sim_server_def collect_env_def handler_at_def FindRequestHandler_def
    RegisterRequestHandler_def new_Server_def new_RequestHandler_def c_str_def)

lemma put_server_at: "conn_at 2 put_server = Inr (new_Connection 7)"
  by (simp add: put_server_def sim_server_def conn_at_def RegisterRequestHandler_def new_Server_def)

definition body_lines :: "bytes list" where
  "body_lines = [''PUT /a HTTP/1.0'' @ CRLF, ''Content-Length: 5'' @ CRLF, CRLF]"

definition body_parser :: HttpHeaderParser where
  "body_parser = new_HttpHeaderParser\<lparr>http_method := PUT, uri := ''/a'', version := HTTP_1_0, content_length := Some 5, state := Body\<rparr>"

lemma body_lines_parsed: "parse_head body_lines new_HttpHeaderParser = Some body_parser" "list_all one_line body_lines"
  by code_simp+

lemma body_parser_fields [simp]:
  "uri body_parser = ''/a''" "http_method body_parser = PUT" "upgrade_flags body_parser = 0" "state body_parser = Body"
  "content_length body_parser = Some 5"
  by (simp_all add: body_parser_def new_HttpHeaderParser_def)

lemma sim_reads:
  "k_input k fd = map Data ds \<Longrightarrow> list_all (\<lambda>d. d \<noteq> []) ds \<Longrightarrow> reads sim_os fd k (map Some ds @ replicate n None)"
proof (induction ds arbitrary: k)
  case Nil
  then have "sys_read sim_os fd m k = (ReadErr EAGAIN, k)" for m by (simp add: sim_os_def)
  then show ?case by (induction n) simp_all
next
  case (Cons d ds)
  let ?k = "k\<lparr>k_input := (k_input k)(fd := map Data ds)\<rparr>"
  have "sys_read sim_os fd m k = (Data d, ?k)" if "length d \<le> m" for m using Cons.prems that by (simp add: sim_os_def)
  moreover have "reads sim_os fd ?k (map Some ds @ replicate n None)" using Cons by simp
  ultimately show ?case using Cons.prems(2) by auto
qed

lemma collect_reads:
  "k_input k 7 = map Data ds \<Longrightarrow> list_all (\<lambda>d. d \<noteq> []) ds \<Longrightarrow>
    reads (env_os collect_env) 7 (l, k) (map Some ds @ replicate n None)"
  using sim_reads [of k 7 ds] by (simp add: collect_env_def reads_app)

section \<open>Properties\<close>

text \<open>
  C20. A body that follows its head reaches the handler. Let the head of a request with a content length come
  in one read of a fresh connection, and the body in later reads, one per wake-up, in any
  non-empty pieces of at most 1024 bytes without line ends that add up to the announced length. Then the handler of the
  path and method is called for the head with no data, then for every piece, in order, with exactly its
  bytes; the last call and no other is marked final.
\<close>

theorem body_reaches_handler:
  assumes "read_law (env_os e)" "collects e h fd log" "fuel e \<noteq> 0" "conn_at p s = Inr (new_Connection fd)" "routed e p q h s"
    "parse_head hs new_HttpHeaderParser = Some q" "list_all one_line hs" "length (concat hs) \<le> 1024"
    "state q = Body" "content_length q = Some n" "ds \<noteq> []" "list_all plain_piece ds" "length (concat ds) = unat n"
    "reads (env_os e) fd w (map Some (concat hs # ds))"
  shows "\<exists>s' w'. wakeups e p (Suc (length ds)) s w = Inr (s', w')
    \<and> log w' = log w @ [(uri q, [], False)] @ map (\<lambda>d. (uri q, d, False)) (butlast ds) @ [(uri q, last ds, True)]"
proof -
  have nd: "(state q = Done) = False" using assms(9) by simp
  obtain c w1 where c: "handle_event e (p, EPOLLIN) s w = Inr (None, set_conn p c s, w1)" "conn_at p (set_conn p c s) = Inr c"
    "log w1 = log w @ [(uri q, [], False)]" "reads (env_os e) fd w1 (map Some ds)" "c_parser c = q" "c_buffer c = []" "c_fd c = fd" "ws_conn c = None"
    using wakeup_head [OF assms(1-7), of "[]" w "map Some ds", unfolded append_Nil2 nd, OF assms(8) assms(14) [unfolded list.map]] by blast
  have "body_length q = 0" using parse_head_body_length [OF assms(6)] by (simp add: new_HttpHeaderParser_def)
  then have "\<exists>s' w' c'. wakeups e p (length ds) (set_conn p c s) w1 = Inr (s', w') \<and> conn_at p s' = Inr c' \<and> state (c_parser c') = Done
      \<and> log w' = log w1 @ map (\<lambda>d. (uri (c_parser c), d, False)) (butlast ds) @ [(uri (c_parser c), last ds, True)]"
    using assms c by (intro wakeups_body [OF assms(2,3,11) c(2,7,8,6)]) simp_all
  with c show ?thesis by auto
qed

theorem body_reaches_handler_witness:
  "\<exists>s' w'. wakeups collect_env 2 3 put_server ([], k0\<lparr>k_input := (\<lambda>_. [])(7 := map Data [concat body_lines, ''ab'', ''cde''])\<rparr>) = Inr (s', w')
    \<and> fst w' = [(''/a'', [], False), (''/a'', ''ab'', False), (''/a'', ''cde'', True)]"
proof -
  let ?w = "([], k0\<lparr>k_input := (\<lambda>_. [])(7 := map Data [concat body_lines, ''ab'', ''cde''])\<rparr>) :: (bytes \<times> bytes \<times> bool) list \<times> kernel"
  have d: "reads (env_os collect_env) 7 ?w (map Some [concat body_lines, ''ab'', ''cde''])"
    using collect_reads [of "snd ?w" "[concat body_lines, ''ab'', ''cde'']" "fst ?w" 0] by (simp add: body_lines_def)
  have pl: "list_all plain_piece [''ab'', ''cde'']" by (auto simp: plain_piece_def crlf_at_def nth_Cons' split: if_splits)
  have f: "fuel collect_env \<noteq> 0" by (simp add: collect_env_def)
  have len: "length (concat body_lines) \<le> 1024" "length (concat [''ab'', ''cde'']) = unat (5 :: 32 word)" by (simp_all add: body_lines_def)
  note r = put_server_routed [of body_parser]
  from body_reaches_handler [OF collect_read_law collect_env_collects f put_server_at r body_lines_parsed len(1) _ _ _ pl len(2) d]
  show ?thesis by (simp add: numeral_3_eq_3)
qed

text \<open>
  C28. A body that comes in the same read as its head never reaches the handler: handling the event stops at
  the end of the head, and a wake-up that finds nothing to read does not look at the buffer. So
  although the whole request has arrived, the handler is called with no data and "not final", at this
  wake-up and at any number of later ones, and the body stays in the buffer.
\<close>

theorem body_with_head_stalls:
  assumes "read_law (env_os e)" "collects e h fd log" "fuel e \<noteq> 0" "conn_at p s = Inr (new_Connection fd)" "routed e p q h s"
    "parse_head hs new_HttpHeaderParser = Some q" "list_all one_line hs" "length (concat hs @ body) \<le> 1024"
    "state q = Body" "content_length q = Some n" "length body = unat n"
    "reads (env_os e) fd w (Some (concat hs @ body) # replicate k None)"
  shows "\<exists>s' w' c. wakeups e p (Suc k) s w = Inr (s', w') \<and> log w' = log w @ replicate (Suc k) (uri q, [], False)
    \<and> conn_at p s' = Inr c \<and> c_buffer c = body \<and> state (c_parser c) = Body"
proof -
  have nd: "(state q = Done) = False" using assms(9) by simp
  obtain c w1 where c: "handle_event e (p, EPOLLIN) s w = Inr (None, set_conn p c s, w1)" "conn_at p (set_conn p c s) = Inr c"
    "log w1 = log w @ [(uri q, [], False)]" "reads (env_os e) fd w1 (replicate k None)" "c_parser c = q" "c_buffer c = body" "c_fd c = fd" "ws_conn c = None"
    "PopBody c = []"
    using wakeup_head [OF assms(1-8,12), unfolded nd] by blast
  have "\<exists>s' w'. wakeups e p k (set_conn p c s) w1 = Inr (s', w') \<and> conn_at p s' = Inr c
      \<and> log w' = log w1 @ replicate k (uri (c_parser c), PopBody c, False)"
    using assms(5,9) c by (intro wakeups_drained [OF assms(2,3) c(2,7,8)]) simp_all
  with c assms(9) show ?thesis by auto
qed

theorem body_with_head_stalls_witness:
  "\<exists>s' w' c. wakeups collect_env 2 4 put_server ([], k0\<lparr>k_input := (\<lambda>_. [])(7 := map Data [concat body_lines @ ''abcde''])\<rparr>) = Inr (s', w')
    \<and> fst w' = replicate 4 (''/a'', [], False) \<and> conn_at 2 s' = Inr c \<and> c_buffer c = ''abcde''"
proof -
  let ?w = "([], k0\<lparr>k_input := (\<lambda>_. [])(7 := map Data [concat body_lines @ ''abcde''])\<rparr>) :: (bytes \<times> bytes \<times> bool) list \<times> kernel"
  have d: "reads (env_os collect_env) 7 ?w (Some (concat body_lines @ ''abcde'') # replicate 3 None)"
    using collect_reads [of "snd ?w" "[concat body_lines @ ''abcde'']" "fst ?w" 3] by simp
  have f: "fuel collect_env \<noteq> 0" by (simp add: collect_env_def)
  have len: "length (concat body_lines @ ''abcde'') \<le> 1024" "length ''abcde'' = unat (5 :: 32 word)" by (simp_all add: body_lines_def)
  note r = put_server_routed [of body_parser]
  from body_with_head_stalls [OF collect_read_law collect_env_collects f put_server_at r body_lines_parsed len(1) _ _ len(2) d]
  show ?thesis by (auto simp: eval_nat_numeral)
qed

text \<open>
  C38. A second request on the same connection is not parsed: once a request is complete the parser absorbs
  every line. Let a request without a body be answered by a handler that keeps the connection open, and
  let the client send another request, whatever its request line. Then the handler of the first
  request is called a second time, with the path of the first request.
\<close>

theorem second_request_not_parsed:
  assumes "read_law (env_os e)" "collects e h fd log" "fuel e \<noteq> 0" "conn_at p s = Inr (new_Connection fd)" "routed e p q h s"
    "parse_head hs new_HttpHeaderParser = Some q" "list_all one_line hs" "length (concat hs) \<le> 1024" "state q = Done"
    "one_line l" "length (l @ rest) \<le> 1024" "reads (env_os e) fd w [Some (concat hs), Some (l @ rest)]"
  shows "\<exists>s' w' c. wakeups e p 2 s w = Inr (s', w') \<and> log w' = log w @ [(uri q, [], True), (uri q, [], True)]
    \<and> conn_at p s' = Inr c \<and> c_parser c = q \<and> c_buffer c = rest"
proof -
  have nd: "(state q = Done) = True" using assms(9) by simp
  obtain c w1 where c: "handle_event e (p, EPOLLIN) s w = Inr (None, set_conn p c s, w1)" "conn_at p (set_conn p c s) = Inr c"
    "log w1 = log w @ [(uri q, [], True)]" "reads (env_os e) fd w1 [Some (l @ rest)]" "c_parser c = q" "c_buffer c = []" "c_fd c = fd" "ws_conn c = None"
    "PopBody c = []"
    using wakeup_head [OF assms(1-7), of "[]" w "[Some (l @ rest)]", unfolded append_Nil2 nd, OF assms(8,12)] by blast
  let ?s = "set_conn p c s" and ?c = "c\<lparr>c_buffer := rest\<rparr>"
  obtain w2 where w2: "\<forall>n \<ge> length (l @ rest). sys_read (env_os e) (c_fd c) n w1 = (Data (l @ rest), w2)" using c(4,7) by auto
  obtain f where f: "fuel e = Suc f" using assms(3) by (cases "fuel e") auto
  have st: "state (c_parser c) = Done" using c(5) assms(9) by simp
  note pd = ProcessDataIn_finished [OF st c(6) assms(10,11) w2, of f, folded f]
  have rt: "routed e p q h ?s" using assms(5) by simp
  obtain w3 where "handle_event e (p, EPOLLIN) ?s w1 = Inr (None, set_conn p ?c ?s, w3)" "log w3 = log w2 @ [(uri q, PopBody ?c, True)]"
    using wakeup_calls [OF assms(2) c(2,8) rt pd] c(5) by auto
  moreover have "log w2 = log w1" using collects_read [OF assms(2), of "c_fd c" "length (l @ rest)" w1] w2 by simp
  ultimately have "wakeups e p 2 s w = Inr (set_conn p ?c s, w3)" "log w3 = log w @ [(uri q, [], True), (uri q, [], True)]"
    using c(1,3,9) by (simp_all add: numeral_2_eq_2 PopBody_def)
  moreover have "conn_at p (set_conn p ?c s) = Inr ?c" using conn_at_set [OF assms(4)] .
  ultimately show ?thesis using c(5) by (intro exI [of _ "set_conn p ?c s"] exI [of _ w3] exI [of _ ?c]) simp
qed

theorem second_request_not_parsed_witness:
  "\<exists>s' w'. wakeups collect_env 2 2 put_server
      ([], k0\<lparr>k_input := (\<lambda>_. [])(7 := map Data [''PUT /a HTTP/1.0'' @ CRLF @ CRLF, ''PUT /b HTTP/1.0'' @ CRLF @ CRLF])\<rparr>) = Inr (s', w')
    \<and> fst w' = [(''/a'', [], True), (''/a'', [], True)]"
proof -
  let ?hs = "[''PUT /a HTTP/1.0'' @ CRLF, CRLF]" and ?l = "''PUT /b HTTP/1.0'' @ CRLF"
  let ?q = "new_HttpHeaderParser\<lparr>http_method := PUT, uri := ''/a'', version := HTTP_1_0, state := Done\<rparr>"
  let ?w = "([], k0\<lparr>k_input := (\<lambda>_. [])(7 := map Data [''PUT /a HTTP/1.0'' @ CRLF @ CRLF, ''PUT /b HTTP/1.0'' @ CRLF @ CRLF])\<rparr>)
    :: (bytes \<times> bytes \<times> bool) list \<times> kernel"
  have h: "parse_head ?hs new_HttpHeaderParser = Some ?q" "list_all one_line ?hs" "one_line ?l" by code_simp+
  have d: "reads (env_os collect_env) 7 ?w [Some (concat ?hs), Some (?l @ CRLF)]"
    using collect_reads [of "snd ?w" "[concat ?hs, ?l @ CRLF]" "fst ?w" 0] by simp
  have f: "fuel collect_env \<noteq> 0" by (simp add: collect_env_def)
  have r: "routed collect_env 2 ?q () put_server" by (rule put_server_routed) (simp_all add: new_HttpHeaderParser_def)
  have len: "length (concat ?hs) \<le> 1024" "length (?l @ CRLF) \<le> 1024" by simp_all
  from second_request_not_parsed [OF collect_read_law collect_env_collects f put_server_at r h(1,2) len(1) _ h(3) len(2) d]
  show ?thesis by (auto simp: new_HttpHeaderParser_def)
qed

end
