(* ===== verification/Hpl_Parsed_Fields.thy ===== *)
theory Hpl_Parsed_Fields
  imports Hpl_Header_Parser
begin

text \<open>
  What the fields of \<open>HttpHeaderParser\<close> (\<^verbatim>\<open>src/src/hpl_header_parser.h\<close>) can hold after any run: only
  declared flags, a path without blanks, values without line ends, names without colons. And the
  unit test \<^verbatim>\<open>src/src/http_header_parser_test.cc\<close>, run on the model.
\<close>

section \<open>Well-typed parsers\<close>

definition known_options :: "32 word" where
  "known_options = ConnectionUpgrade OR ConnectionKeepAlive OR ConnectionClose"

definition no_line_end :: "bytes \<Rightarrow> bool" where
  "no_line_end v \<longleftrightarrow> CR \<notin> set v \<and> LF \<notin> set v"

definition parser_typed :: "HttpHeaderParser \<Rightarrow> bool" where
  "parser_typed p \<longleftrightarrow>
     connection_flags p AND known_options = connection_flags p \<and> upgrade_flags p AND UpgradeWebSocket = upgrade_flags p
   \<and> SP \<notin> set (uri p) \<and> no_line_end (host p) \<and> no_line_end (user_agent p)
   \<and> (\<forall>(k, v) \<in> set (headers p). CHR '':'' \<notin> set k \<and> no_line_end v)"

lemma next_char_from_skips:
  "i \<le> j \<Longrightarrow> j < next_char_from s i pred \<Longrightarrow> \<not> pred (s ! j)"
proof (induction s i pred rule: next_char_from.induct)
  case (1 s i pred)
  show ?case
  proof (cases "i < length s \<and> \<not> pred (s ! i)")
    case True
    then have "next_char_from s i pred = next_char_from s (i + 1) pred" by (simp add: next_char_from.simps [of s i])
    with 1 True show ?thesis by (cases "i = j") auto
  next
    case False
    then have "next_char_from s i pred = i" by (auto simp: next_char_from.simps [of s i])
    with "1.prems" show ?thesis by simp
  qed
qed

lemma next_char_skips: "i \<le> j \<Longrightarrow> j < next_char s i pred \<Longrightarrow> j < length s \<Longrightarrow> \<not> pred (s ! j)"
  by (auto simp: next_char_def next_char_from_skips split: if_splits)

lemma slice_skips: "c \<in> set (slice s i (next_char s i pred)) \<Longrightarrow> \<not> pred c"
proof -
  assume "c \<in> set (slice s i (next_char s i pred))"
  then obtain n where "n < next_char s i pred - i" "n < length s - i" "c = s ! (i + n)"
    by (auto simp: slice_def in_set_conv_nth)
  then show ?thesis using next_char_skips [of i "i + n" s pred] by simp
qed

lemma header_value_no_line_end: "no_line_end (header_value line off)"
proof -
  let ?v = "slice line (next_char line off (\<lambda>c. c \<noteq> SP)) (next_char line (next_char line off (\<lambda>c. c \<noteq> SP)) (\<lambda>c. c = CR \<or> c = LF))"
  have "c \<noteq> CR \<and> c \<noteq> LF" if "c \<in> set ?v" for c using slice_skips [OF that] by simp
  then have "no_line_end ?v" unfolding no_line_end_def by blast
  then show ?thesis unfolding header_value_def Let_def .
qed

lemma flags_or:
  fixes f :: "32 word"
  assumes "f AND m = f" "b AND m = b"
  shows "(f OR b) AND m = f OR b"
proof -
  have "(f OR b) AND m = (f AND m) OR (b AND m)" by (rule bit_word_eqI) (auto simp: bit_simps)
  then show ?thesis unfolding assms .
qed

lemma known_bits:
  "ConnectionUpgrade AND known_options = ConnectionUpgrade" "ConnectionKeepAlive AND known_options = ConnectionKeepAlive"
  "ConnectionClose AND known_options = ConnectionClose" "UpgradeWebSocket AND UpgradeWebSocket = UpgradeWebSocket"
  by (simp_all add: known_options_def ConnectionUpgrade_def ConnectionKeepAlive_def ConnectionClose_def)

lemma conn_round_flags:
  assumes "conn_round line it f = Some (it', f')" "f AND known_options = f"
  shows "f' AND known_options = f'"
proof -
  have "f' \<in> {f, f OR ConnectionUpgrade, f OR ConnectionKeepAlive, f OR ConnectionClose}"
    using assms(1) by (auto simp: conn_round_def Let_def simp del: list.size split: if_splits)
  with assms(2) known_bits flags_or show ?thesis by blast
qed

lemma conn_loop_flags:
  "conn_loop n line it f = Some f' \<Longrightarrow> f AND known_options = f \<Longrightarrow> f' AND known_options = f'"
proof (induction n arbitrary: it f)
  case (Suc n)
  then show ?case using conn_round_flags by (auto split: option.splits)
qed simp

lemma upgrade_loop_flags: "f AND UpgradeWebSocket = f \<Longrightarrow> upgrade_loop line it f AND UpgradeWebSocket = upgrade_loop line it f"
proof (induction line it f rule: upgrade_loop.induct)
  case (1 line it f)
  have "(f OR UpgradeWebSocket) AND UpgradeWebSocket = f OR UpgradeWebSocket" using "1.prems" known_bits(4) by (rule flags_or)
  with 1 show ?case by (subst (1 2) upgrade_loop.simps) (simp add: Let_def)
qed

lemma map_assign_set: "(k, v) \<in> set (map_assign k' v' m) \<Longrightarrow> (k = k' \<and> v = v') \<or> (k, v) \<in> set m"
  by (induction k' v' m rule: map_assign.induct) (auto split: if_splits)

lemma map_emplace_set: "(k, v) \<in> set (map_emplace k' v' m) \<Longrightarrow> (k = k' \<and> v = v') \<or> (k, v) \<in> set m"
  by (auto simp: map_emplace_def dest: map_assign_set split: option.splits)

lemma ParseHeaderLine_typed:
  assumes "parser_typed p" "ParseHeaderLine line p = Inr p'"
  shows "parser_typed p'"
proof -
  have row: "CHR '':'' \<notin> set k \<and> no_line_end v"
    if mem: "(k, v) \<in> set (map_emplace (slice line 0 (next_char line i (\<lambda>c. c = CHR '':''))) (header_value line j) (headers p))"
      and i: "i = next_char line 0 (\<lambda>c. c \<noteq> SP)" for k v i j
    using map_emplace_set [OF mem]
  proof
    assume kv: "k = slice line 0 (next_char line i (\<lambda>c. c = CHR '':'')) \<and> v = header_value line j"
    have "CHR '':'' \<noteq> c" if ck: "c \<in> set k" for c
    proof -
      obtain n where n: "n < next_char line i (\<lambda>c. c = CHR '':'')" "n < length line" "c = line ! n"
        using ck kv by (auto simp: slice_def in_set_conv_nth)
      then show ?thesis
        using next_char_skips [of i n line "\<lambda>c. c = CHR '':''"] next_char_skips [of 0 n line "\<lambda>c. c \<noteq> SP"] i
        by (cases "i \<le> n") auto
    qed
    with kv show ?thesis using header_value_no_line_end by blast
  next
    assume "(k, v) \<in> set (headers p)"
    then show ?thesis using assms(1) by (auto simp: parser_typed_def)
  qed
  show ?thesis using assms
    by (auto simp: ParseHeaderLine_def Let_def rbind_eq_Inr parser_typed_def header_value_no_line_end simp del: conn_loop.simps
        dest: conn_loop_flags split: if_splits option.splits intro: upgrade_loop_flags dest!: row)
qed

lemma find_space_first: "find_space line pos = Some k \<Longrightarrow> SP \<notin> set (take (k - pos) (drop pos line))"
proof -
  assume "find_space line pos = Some k"
  then have "k - pos = length (takeWhile (\<lambda>c. c \<noteq> SP) (drop pos line))" by (auto simp: find_space_def Let_def split: if_splits)
  then have "take (k - pos) (drop pos line) = takeWhile (\<lambda>c. c \<noteq> SP) (drop pos line)" by (metis takeWhile_eq_take)
  then show ?thesis by (auto dest: set_takeWhileD)
qed

lemma takeWhile_shorter: "c \<in> set xs \<Longrightarrow> length (takeWhile (\<lambda>x. x \<noteq> c) xs) < length xs"
  by (induction xs) auto

lemma find_space_none: "find_space line pos = None \<Longrightarrow> SP \<notin> set (drop pos line)"
  using takeWhile_shorter [of SP "drop pos line"] by (auto simp: find_space_def Let_def split: if_splits)

lemma ParseFirstLine_unknown: "ParseFirstLine line = Inr (UNKNOWN_METHOD, u, v) \<Longrightarrow> u = []"
  by (cases "ParseHttpMethod line 0 0") (auto simp: ParseFirstLine_def rbind_eq_Inr split: if_splits option.splits)

lemma ParseFirstLine_uri:
  assumes "ParseFirstLine line = Inr (m, u, v)"
  shows "SP \<notin> set u"
proof (cases "m = UNKNOWN_METHOD")
  case True
  with assms have "u = []" using ParseFirstLine_unknown by blast
  then show ?thesis by simp
next
  case False
  with assms obtain a b pos where p: "ParseHttpMethod line 0 0 = Inr (a, b)" "skip_spaces line b = Inr pos" "a \<noteq> UNKNOWN_METHOD"
    by (auto simp: ParseFirstLine_def rbind_eq_Inr split: if_splits)
  show ?thesis
  proof (cases "find_space line pos")
    case None
    with assms p have "u = drop pos line" by (auto simp: ParseFirstLine_def rbind_eq_Inr)
    with find_space_none [OF None] show ?thesis by simp
  next
    case (Some k)
    with assms p have "u = take (k - pos) (drop pos line)" by (auto simp: ParseFirstLine_def rbind_eq_Inr)
    with find_space_first [OF Some] show ?thesis by simp
  qed
qed

lemma PushLine_typed:
  assumes "parser_typed p" "PushLine line p = Inr p'"
  shows "parser_typed p'"
proof (cases "state p")
  case FirstLine
  with assms(2) obtain m u v where "ParseFirstLine line = Inr (m, u, v)"
    "p' = p\<lparr>http_method := m, version := v, state := Headers, uri := u\<rparr>"
    by (auto simp: PushLine_def rbind_eq_Inr)
  with ParseFirstLine_uri assms(1) show ?thesis by (simp add: parser_typed_def)
next
  case Headers
  show ?thesis
  proof (cases "line = CRLF")
    case True
    with assms Headers have "p' = p\<lparr>state := (if content_length p \<noteq> None then Body else Done)\<rparr>" by (simp add: PushLine_def)
    with assms(1) show ?thesis by (simp add: parser_typed_def)
  next
    case False
    with assms Headers have "ParseHeaderLine line p = Inr p'" by (simp add: PushLine_def)
    with assms(1) show ?thesis by (rule ParseHeaderLine_typed)
  qed
qed (use assms in \<open>auto simp: PushLine_def parser_typed_def Let_def split: option.splits if_splits\<close>)

interpretation typed: ranked_machine PushLine parser_rank parser_typed
  by unfold_locales (auto intro: PushLine_rank PushLine_typed)

section \<open>The unit test\<close>

definition test_lines :: "bytes list" where
  "test_lines = map (\<lambda>l. l @ CRLF)
     [''GET / HTTP/1.1'', ''Host: myserver.com'', ''Connection: Upgrade, keep-alive'', ''Content-Length:13'', ''Upgrade: websocket'',
      ''User-Agent: Mozilla/5.0'', ''Extra-Header: some data'', [], ''ddddsome dataoverflowed'']"

text \<open>
  The test's expectations, but for those on the body, which the parser does not keep (the test calls
  a member \<^verbatim>\<open>GetBody\<close> that does not exist).
\<close>

definition test_expectations :: "HttpHeaderParser \<Rightarrow> bool" where
  "test_expectations p \<longleftrightarrow>
     state p = Done \<and> http_method p = GET \<and> uri p = ''/'' \<and> host p = ''myserver.com'' \<and> user_agent p = ''Mozilla/5.0''
   \<and> version p = HTTP_1_1 \<and> content_length p = Some 13 \<and> upgrade_flags p = UpgradeWebSocket
   \<and> connection_flags p = ConnectionUpgrade OR ConnectionKeepAlive
   \<and> length (headers p) = 1 \<and> map_of (headers p) ''Extra-Header'' = Some ''some data''"

lemma unit_test_passes: "(case run_machine PushLine test_lines new_HttpHeaderParser of Inl e \<Rightarrow> False | Inr p \<Rightarrow> test_expectations p)"
  by code_simp

section \<open>Properties\<close>

text \<open>
  C31. Whatever lines a client sends, the parsed fields are well-typed: the flag words have no bits but the
  declared ones, the path has no blank, the host, the user agent and every header value have no CR
  and no LF (so none of them can smuggle a line into a header that is built from it), and no header
  name has a colon.
\<close>

theorem parsed_fields_typed:
  assumes "run_machine PushLine ls new_HttpHeaderParser = Inr p"
  shows "connection_flags p AND known_options = connection_flags p \<and> upgrade_flags p AND UpgradeWebSocket = upgrade_flags p
    \<and> SP \<notin> set (uri p) \<and> no_line_end (host p) \<and> no_line_end (user_agent p)
    \<and> (\<forall>(k, v) \<in> set (headers p). CHR '':'' \<notin> set k \<and> no_line_end v)"
proof -
  have "parser_typed new_HttpHeaderParser" by (simp add: parser_typed_def new_HttpHeaderParser_def no_line_end_def)
  from typed.run_inv [OF this assms] show ?thesis by (simp add: parser_typed_def)
qed

theorem parsed_fields_typed_witness:
  "\<exists>p. run_machine PushLine test_lines new_HttpHeaderParser = Inr p \<and> connection_flags p AND known_options = 6
    \<and> upgrade_flags p = 1 \<and> no_line_end (host p) \<and> host p = ''myserver.com''"
proof -
  obtain p where p: "run_machine PushLine test_lines new_HttpHeaderParser = Inr p" "test_expectations p"
    using unit_test_passes by (cases "run_machine PushLine test_lines new_HttpHeaderParser") auto
  from parsed_fields_typed [OF p(1)] p show ?thesis
    by (auto simp: test_expectations_def ConnectionUpgrade_def ConnectionKeepAlive_def UpgradeWebSocket_def)
qed

end
