(* ===== verification/Hpl_Large_Memory.thy ===== *)
theory Hpl_Large_Memory
  imports Hpl_Connection
begin

text \<open>
  \<^verbatim>\<open>Connection::Read\<close> and \<^verbatim>\<open>Connection::ProcessDataIn\<close> in the configuration without \<^verbatim>\<open>SMALL_MEMORY\<close> (the
  \<^verbatim>\<open>#else\<close> branch of \<^verbatim>\<open>hpl_connection.cc\<close>): every read asks for 1024 bytes however much is buffered. Lines of
  any length get through, and nothing limits what a client can make the server buffer.
\<close>

section \<open>Reading\<close>

definition kLocalBufferLen :: size_t where "kLocalBufferLen = 1024"

definition Connection_Read_large :: "'w os \<Rightarrow> 'h Connection \<Rightarrow> 'w \<Rightarrow> (int \<times> 'h Connection \<times> 'w) res" where
  "Connection_Read_large os c w =
     (let read_len = kLocalBufferLen
      in case sys_read os (c_fd c) (unat read_len) w of
           (Data d, w') \<Rightarrow>
             if length d > unat kLocalBufferLen then Inl Oob
             else if d \<noteq> [] then Inr (1, c\<lparr>c_buffer := c_buffer c @ d\<rparr>, w')
             else Inr (-1, c, w')
         | (ReadErr EAGAIN, w') \<Rightarrow> Inr (0, c, w')
         | (ReadErr EINTR, w') \<Rightarrow> Inr (1, c, w')
         | (ReadErr EOTHER, w') \<Rightarrow> Inr (-1, c, w'))"

fun ProcessDataIn_large ::
    "nat \<Rightarrow> 'w os \<Rightarrow> 'h Connection \<Rightarrow> 'w \<Rightarrow> (int \<times> 'h Connection \<times> 'w) res option" where
  "ProcessDataIn_large 0 os c w = None"
| "ProcessDataIn_large (Suc fuel) os c w =
     (case Connection_Read_large os c w of
        Inl e \<Rightarrow> Some (Inl e)
      | Inr (ret, c1, w1) \<Rightarrow>
          if ret = -1 then Some (Inr (-2, c1, w1))
          else if ret = 0 then Some (Inr (state_ret (state (c_parser c1)), c1, w1))
          else case line_loop c1 of
                 Inl e \<Rightarrow> Some (Inl e)
               | Inr (Some r, c2) \<Rightarrow> Some (Inr (r, c2, w1))
               | Inr (None, c2) \<Rightarrow> ProcessDataIn_large fuel os c2 w1)"

lemma Connection_Read_large_data:
  "\<forall>n \<ge> length d. sys_read os (c_fd c) n w = (Data d, w') \<Longrightarrow> d \<noteq> [] \<Longrightarrow> length d \<le> 1024 \<Longrightarrow>
    Connection_Read_large os c w = Inr (1, c\<lparr>c_buffer := c_buffer c @ d\<rparr>, w')"
  by (simp add: Connection_Read_large_def kLocalBufferLen_def)

lemma ProcessDataIn_large_mono:
  "ProcessDataIn_large n os c w = Some r \<Longrightarrow> n \<le> m \<Longrightarrow> ProcessDataIn_large m os c w = Some r"
proof (induction n arbitrary: c w m)
  case (Suc n)
  then obtain m' where m: "m = Suc m'" "n \<le> m'" by (cases m) auto
  show ?case using Suc.prems(1) Suc.IH m
    by (auto split: sum.splits prod.splits option.splits if_splits)
qed simp

text \<open>The source of bytes: one segment, in pieces of at most 1024 bytes.\<close>

definition delivers_all :: "'w os \<Rightarrow> fd \<Rightarrow> nat \<Rightarrow> 'w \<Rightarrow> bytes list \<Rightarrow> bool" where
  "delivers_all os fd k w ss \<longleftrightarrow> (\<exists>cs. ss = [concat cs] \<and> length cs = k \<and> delivers os fd w cs \<and> (\<forall>d \<in> set cs. length d \<le> 1024))"

lemma delivers_all_part:
  assumes "delivers_all os fd k w (s # ss)" "s \<noteq> []" "c_fd c = fd"
  shows "\<exists>k' d s' w'. k = Suc k' \<and> s = d @ s' \<and> Connection_Read_large os c w = Inr (1, c\<lparr>c_buffer := c_buffer c @ d\<rparr>, w')
    \<and> delivers_all os fd k' w' (s' # ss)"
proof -
  from assms(1,2) obtain d cs where cs: "ss = []" "s = d @ concat cs" "k = Suc (length cs)" "delivers os fd w (d # cs)"
    "\<forall>d \<in> set (d # cs). length d \<le> 1024" unfolding delivers_all_def by (metis concat.simps length_Cons list.exhaust list.inject)
  then obtain w' where w': "\<forall>n \<ge> length d. sys_read os fd n w = (Data d, w')" "delivers os fd w' cs" "d \<noteq> []" by auto
  then have "Connection_Read_large os c w = Inr (1, c\<lparr>c_buffer := c_buffer c @ d\<rparr>, w')"
    using cs(5) assms(3) by (intro Connection_Read_large_data) auto
  with cs w'(2) show ?thesis by (auto simp: delivers_all_def)
qed

interpretation large: head_reader fd "\<lambda>h. True" "delivers_all os fd" "Connection_Read_large os" "\<lambda>n. ProcessDataIn_large n os"
  for fd os
  by (unfold_locales, erule (2) delivers_all_part, auto intro: ProcessDataIn_large_mono simp: delivers_all_def)

section \<open>No limit on the buffer\<close>

lemma line_loop_no_line:
  assumes "\<forall>k. \<not> crlf_at (c_buffer c) k" "state (c_parser c) \<noteq> Body"
  shows "line_loop c = Inr (None, c)"
proof -
  have "PopLine (c_buffer c) = (None, c_buffer c)" using assms(1) by (simp add: PopLine_None_iff)
  with assms(2) show ?thesis by (simp add: line_loop.simps [of c] take_piece_def)
qed

lemma no_crlf_prefix: "\<forall>k. \<not> crlf_at (a @ b) k \<Longrightarrow> \<not> crlf_at a k"
  by (metis crlf_at_append crlf_at_def)

lemma large_buffers_all:
  "delivers os fd w cs \<Longrightarrow> c_fd c = fd \<Longrightarrow> \<forall>d \<in> set cs. length d \<le> 1024 \<Longrightarrow> \<forall>k. \<not> crlf_at (c_buffer c @ concat cs) k \<Longrightarrow>
    state (c_parser c) \<noteq> Body \<Longrightarrow>
    \<exists>w'. ProcessDataIn_large (Suc (length cs)) os c w
      = Some (Inr (state_ret (state (c_parser c)), c\<lparr>c_buffer := c_buffer c @ concat cs\<rparr>, w'))"
proof (induction cs arbitrary: c w)
  case Nil
  obtain w' where "sys_read os (c_fd c) 1024 w = (ReadErr EAGAIN, w')" using Nil.prems(1,2) by (metis delivers.simps(1) prod.collapse)
  then show ?case by (simp add: Connection_Read_large_def kLocalBufferLen_def)
next
  case (Cons d cs)
  from Cons.prems(1,2) obtain w1 where w1: "\<forall>n \<ge> length d. sys_read os (c_fd c) n w = (Data d, w1)"
    "delivers os fd w1 cs" "d \<noteq> []" by auto
  let ?c = "c\<lparr>c_buffer := c_buffer c @ d\<rparr>"
  have "Connection_Read_large os c w = Inr (1, ?c, w1)"
    using w1 Cons.prems(3) by (intro Connection_Read_large_data) auto
  moreover have "line_loop ?c = Inr (None, ?c)"
    using Cons.prems(4,5) no_crlf_prefix [of "c_buffer c @ d" "concat cs"] by (intro line_loop_no_line) simp_all
  ultimately have "ProcessDataIn_large (Suc (length (d # cs))) os c w = ProcessDataIn_large (Suc (length cs)) os ?c w1"
    by simp
  with Cons.IH [OF w1(2), of ?c] Cons.prems show ?case by simp
qed

section \<open>Properties\<close>

text \<open>
  C40. Without \<^verbatim>\<open>SMALL_MEMORY\<close> a request head arrives intact with lines of any length, in any pieces: the only
  bound left is that of a single read. With \<^verbatim>\<open>SMALL_MEMORY\<close> a line has to fit 1024 bytes
  (\<open>request_head_any_chunking\<close>), and a longer line ends the connection (\<open>long_line_closes\<close>).
\<close>

theorem large_memory_head:
  assumes "delivers os fd w cs" "concat cs = concat hs @ rest" "list_all one_line hs"
    "parse_head hs new_HttpHeaderParser = Some q" "\<forall>d \<in> set cs. length d \<le> 1024"
  shows "\<exists>c' w' cs'. ProcessDataIn_large (length cs) os (new_Connection fd) w = Some (Inr (state_ret (state q), c', w'))
    \<and> c_parser c' = q \<and> c_buffer c' @ concat cs' = rest \<and> delivers os fd w' cs' \<and> PopBody c' = []"
    (is "\<exists>c' w' cs'. ?run = _ \<and> _")
proof -
  have src: "delivers_all os fd (length cs) w [concat cs]" using assms(1,5) by (auto simp: delivers_all_def)
  have new: "expects fd (\<lambda>h. True) q rest hs (concat cs) (new_Connection fd)" using assms(2-4) by (intro expects_new) auto
  from large.run_head_once [OF src new] obtain c' w' s' k' where
    "?run = Some (Inr (state_ret (state q), c', w'))"
    "c_parser c' = q" "c_buffer c' @ s' = rest" "delivers_all os fd k' w' [s']" "PopBody c' = []"
    unfolding PopBody_def new_partial_body by blast
  moreover from this(4) obtain cs' where "s' = concat cs'" "delivers os fd w' cs'" by (auto simp: delivers_all_def)
  ultimately show ?thesis
    by (intro exI [of _ c'] exI [of _ w'] exI [of _ cs']) simp
qed

theorem large_memory_head_witness:
  "\<exists>c' w' cs'. ProcessDataIn_large 2 sim_os (new_Connection 7 :: unit Connection)
        (k0\<lparr>k_input := (\<lambda>_. [])(7 := map Data [''PUT /a HT'', ''TP/1.0'' @ CRLF @ CRLF @ replicate 1000 (CHR ''x'')])\<rparr>) = Some (Inr (1, c', w'))
    \<and> uri (c_parser c') = ''/a'' \<and> c_buffer c' @ concat cs' = replicate 1000 (CHR ''x'')"
proof -
  let ?hs = "[''PUT /a HTTP/1.0'' @ CRLF, CRLF]" and ?x = "replicate 1000 (CHR ''x'')"
  let ?cs = "[''PUT /a HT'', ''TP/1.0'' @ CRLF @ CRLF @ ?x]"
  let ?k = "k0\<lparr>k_input := (\<lambda>_. [])(7 := map Data ?cs)\<rparr>"
  let ?q = "new_HttpHeaderParser\<lparr>http_method := PUT, uri := ''/a'', version := HTTP_1_0, state := Done\<rparr>"
  have h: "list_all one_line ?hs" "parse_head ?hs new_HttpHeaderParser = Some ?q" by code_simp+
  have d: "delivers sim_os 7 ?k ?cs" by (rule sim_delivers) simp_all
  have "concat ?cs = concat ?hs @ ?x" "\<forall>d \<in> set ?cs. length d \<le> 1024" by simp_all
  from large_memory_head [OF d this(1) h this(2), where ?'b = unit] show ?thesis
    by (auto simp: numeral_2_eq_2 simp del: ProcessDataIn_large.simps)
qed

text \<open>
  The price: a client that never ends its line is never disconnected and never refused. Every
  byte it sends, in any number of pieces, is kept in the buffer, and the connection stays open.
\<close>

theorem large_memory_unbounded:
  assumes "delivers os fd w cs" "\<forall>d \<in> set cs. length d \<le> 1024" "\<forall>k. \<not> crlf_at (concat cs) k"
  shows "\<exists>w'. ProcessDataIn_large (Suc (length cs)) os (new_Connection fd) w
    = Some (Inr (-1, (new_Connection fd)\<lparr>c_buffer := concat cs\<rparr>, w'))"
  using large_buffers_all [OF assms(1), of "new_Connection fd"] assms(2,3)
  by (simp add: new_Connection_def new_HttpHeaderParser_def)

theorem large_memory_unbounded_witness:
  "\<exists>w'. ProcessDataIn_large 4 sim_os (new_Connection 7 :: unit Connection)
      (k0\<lparr>k_input := (\<lambda>_. [])(7 := map Data (replicate 3 (replicate 1000 (CHR ''x''))))\<rparr>)
    = Some (Inr (-1, (new_Connection 7)\<lparr>c_buffer := replicate 3000 (CHR ''x'')\<rparr>, w'))"
proof -
  let ?cs = "replicate 3 (replicate 1000 (CHR ''x''))"
  have d: "delivers sim_os 7 (k0\<lparr>k_input := (\<lambda>_. [])(7 := map Data ?cs)\<rparr>) ?cs" by (rule sim_delivers) (simp_all add: list_all_iff)
  have c: "concat ?cs = replicate 3000 (CHR ''x'')" by (simp add: numeral_3_eq_3 flip: replicate_add)
  have "\<forall>k. \<not> crlf_at (concat ?cs) k" unfolding c by (simp add: crlf_at_def)
  from large_memory_unbounded [OF d _ this, where ?'b = unit] show ?thesis unfolding c by simp
qed

end
