(* ===== verification/Hpl_Benchmark.thy ===== *)
theory Hpl_Benchmark
  imports Hpl_Broadcast
begin

text \<open>
  The benchmark \<^verbatim>\<open>src/benchmark/broadcast/broadcast.cc\<close>: it sends the same buffer to \<^verbatim>\<open>n_conns\<close> local
  sockets through pipes (\<open>ZeroCopy\<close>) and by plain writes (\<open>DirectWrite\<close>), a hundred times each. The calls
  only the benchmark makes are fields of the record \<open>unix_api\<close>. The record \<open>Context\<close> has the fields of
  the class: \<open>buf\<close> is the first \<^verbatim>\<open>nbytes\<close> bytes of \<^verbatim>\<open>buf_\<close> (the code touches no others), so \<^verbatim>\<open>nbytes\<close> is
  its length and \<^verbatim>\<open>n_conns_\<close> the length of \<open>accepted_fds\<close>. A size of -1 passes the array
  allocation and is left to \<^verbatim>\<open>F_SETPIPE_SZ\<close> to refuse. The clock, the averages and the log are not modelled.
\<close>

section \<open>The context\<close>

record Context =
  buf :: bytes
  server_fd :: fd
  client_fds :: "fd list"
  accepted_fds :: "fd list"
  conn_pipes :: "(fd \<times> fd) list"
  pipes :: "fd \<times> fd"

text \<open>
  Calls on Unix sockets by path, the socket buffer sizes (\<^verbatim>\<open>SO_RCVBUF\<close> and \<^verbatim>\<open>SO_SNDBUF\<close>) and the pipe
  size (\<^verbatim>\<open>F_SETPIPE_SZ\<close>).
\<close>

record 'w unix_api =
  unix_socket :: "'w \<Rightarrow> fd option \<times> 'w"
  unix_unlink :: "string \<Rightarrow> 'w \<Rightarrow> 'w"
  unix_bind :: "fd \<Rightarrow> string \<Rightarrow> 'w \<Rightarrow> bool \<times> 'w"
  unix_connect :: "fd \<Rightarrow> string \<Rightarrow> 'w \<Rightarrow> bool \<times> 'w"
  set_rcvbuf :: "fd \<Rightarrow> int \<Rightarrow> 'w \<Rightarrow> bool \<times> 'w"
  set_sndbuf :: "fd \<Rightarrow> int \<Rightarrow> 'w \<Rightarrow> bool \<times> 'w"
  setpipe_sz :: "fd \<Rightarrow> int \<Rightarrow> 'w \<Rightarrow> bool \<times> 'w"

text \<open>How the program can end early: \<^verbatim>\<open>exit\<close>, a negative array size, signed overflow, or a fault.\<close>

datatype stop = Exit int | BadArrayLength | SignedOverflow | Fault fault

definition sbind :: "stop + 'a \<Rightarrow> ('a \<Rightarrow> stop + 'b) \<Rightarrow> stop + 'b" where
  "sbind m f = (case m of Inl e \<Rightarrow> Inl e | Inr x \<Rightarrow> f x)"

definition or_exit :: "bool \<times> 'w \<Rightarrow> ('w \<Rightarrow> stop + 'a) \<Rightarrow> stop + 'a" where
  "or_exit r f = (if fst r then f (snd r) else Inl (Exit 1))"

definition socket_path :: string where "socket_path = ''/tmp/broadcast_socket''"

section \<open>The constructor\<close>

text \<open>The listening socket; no result of these calls is looked at.\<close>

definition listen_socket :: "'w os \<Rightarrow> 'w unix_api \<Rightarrow> int \<Rightarrow> 'w \<Rightarrow> fd \<times> 'w" where
  "listen_socket os api n_conns w =
     (let (r, w1) = unix_socket api w;
          fd = (case r of None \<Rightarrow> -1 | Some x \<Rightarrow> x);
          w2 = snd (sys_setsockopt os fd ''SO_REUSEADDR'' w1);
          w3 = snd (sys_setsockopt os fd ''SO_REUSEPORT'' w2);
          w4 = snd (sys_setfl os fd O_NONBLOCK w3);
          w5 = unix_unlink api socket_path w4;
          w6 = snd (unix_bind api fd socket_path w5);
          w7 = snd (sys_listen os fd n_conns w6)
      in (fd, w7))"

fun connect_clients :: "'w os \<Rightarrow> 'w unix_api \<Rightarrow> int \<Rightarrow> nat \<Rightarrow> 'w \<Rightarrow> stop + fd list \<times> 'w" where
  "connect_clients os api rmem 0 w = Inr ([], w)"
| "connect_clients os api rmem (Suc n) w =
     (case unix_socket api w of
        (None, _) \<Rightarrow> Inl (Exit 1)
      | (Some fd, w1) \<Rightarrow>
          or_exit (unix_connect api fd socket_path w1) (\<lambda>w2.
          or_exit (sys_setfl os fd O_NONBLOCK w2) (\<lambda>w3.
          or_exit (set_rcvbuf api fd rmem w3) (\<lambda>w4.
          sbind (connect_clients os api rmem n w4) (\<lambda>(fds, w5). Inr (fd # fds, w5))))))"

fun accept_clients :: "'w os \<Rightarrow> 'w unix_api \<Rightarrow> fd \<Rightarrow> int \<Rightarrow> nat \<Rightarrow> 'w \<Rightarrow> stop + fd list \<times> 'w" where
  "accept_clients os api server wmem 0 w = Inr ([], w)"
| "accept_clients os api server wmem (Suc n) w =
     (case sys_accept os server w of
        (None, _) \<Rightarrow> Inl (Exit 1)
      | (Some fd, w1) \<Rightarrow>
          or_exit (sys_setfl os fd O_NONBLOCK w1) (\<lambda>w2.
          or_exit (set_sndbuf api fd wmem w2) (\<lambda>w3.
          sbind (accept_clients os api server wmem n w3) (\<lambda>(fds, w4). Inr (fd # fds, w4)))))"

text \<open>Both ends of a pipe are made non-blocking, then both are resized.\<close>

definition set_pipe :: "'w os \<Rightarrow> 'w unix_api \<Rightarrow> int \<Rightarrow> fd \<times> fd \<Rightarrow> 'w \<Rightarrow> stop + 'w" where
  "set_pipe os api nbytes p w =
     or_exit (sys_setfl os (fst p) O_NONBLOCK w) (\<lambda>w1.
     or_exit (sys_setfl os (snd p) O_NONBLOCK w1) (\<lambda>w2.
     or_exit (setpipe_sz api (fst p) nbytes w2) (\<lambda>w3.
     or_exit (setpipe_sz api (snd p) nbytes w3) Inr)))"

fun open_pipes :: "'w os \<Rightarrow> 'w unix_api \<Rightarrow> int \<Rightarrow> nat \<Rightarrow> 'w \<Rightarrow> stop + (fd \<times> fd) list \<times> 'w" where
  "open_pipes os api nbytes 0 w = Inr ([], w)"
| "open_pipes os api nbytes (Suc n) w =
     (case sys_pipe os w of
        (None, _) \<Rightarrow> Inl (Exit 1)
      | (Some p, w1) \<Rightarrow>
          sbind (set_pipe os api nbytes p w1) (\<lambda>w2.
          sbind (open_pipes os api nbytes n w2) (\<lambda>(ps, w3). Inr (p # ps, w3))))"

text \<open>
  The result of \<^verbatim>\<open>pipe(pipes)\<close> is not looked at: when it fails, \<^verbatim>\<open>pipes\<close> keeps what the memory held
  (\<open>junk\<close>). The new buffer holds what the memory held (\<open>mem\<close>); the sizes are values of \<^verbatim>\<open>int\<close>.
\<close>

definition new_Context ::
    "'w os \<Rightarrow> 'w unix_api \<Rightarrow> fd \<times> fd \<Rightarrow> (nat \<Rightarrow> char) \<Rightarrow> int \<Rightarrow> int \<Rightarrow> 'w \<Rightarrow> stop + Context \<times> 'w" where
  "new_Context os api junk mem n_conns nbytes w =
     (if nbytes + 1 \<ge> 2 ^ 31 then Inl SignedOverflow
      else if nbytes + 1 < 0 then Inl BadArrayLength
      else let (server, w1) = listen_socket os api n_conns w
           in if n_conns < 0 then Inl BadArrayLength
              else sbind (connect_clients os api nbytes (nat n_conns) w1) (\<lambda>(clients, w2).
                   sbind (accept_clients os api server nbytes (nat n_conns) w2) (\<lambda>(accepted, w3).
                   let (r, w4) = sys_pipe os w3;
                       p = (case r of None \<Rightarrow> junk | Some x \<Rightarrow> x)
                   in sbind (set_pipe os api nbytes p w4) (\<lambda>w5.
                      sbind (open_pipes os api nbytes (nat n_conns) w5) (\<lambda>(ps, w6).
                      Inr (\<lparr>buf = map mem [0..<nat nbytes], server_fd = server, client_fds = clients,
                            accepted_fds = accepted, conn_pipes = ps, pipes = p\<rparr>, w6))))))"

section \<open>Sending and draining\<close>

fun DirectWrite_loop :: "'w os \<Rightarrow> bytes \<Rightarrow> fd list \<Rightarrow> 'w \<Rightarrow> 'w" where
  "DirectWrite_loop os d [] w = w"
| "DirectWrite_loop os d (fd # fds) w = DirectWrite_loop os d fds (snd (sys_write os fd d w))"

definition DirectWrite :: "'w os \<Rightarrow> Context \<Rightarrow> 'w \<Rightarrow> 'w" where
  "DirectWrite os ctx w = DirectWrite_loop os (buf ctx) (accepted_fds ctx) w"

definition ZeroCopy :: "'w os \<Rightarrow> Context \<Rightarrow> 'w \<Rightarrow> 'w res" where
  "ZeroCopy os ctx w =
     (let n = length (buf ctx);
          (r, s) = pipes ctx;
          w1 = snd (sys_write os s (buf ctx) w);
          ends = map snd (conn_pipes ctx);
          w2 = tee_loop os r (butlast ends) n w1
      in if conn_pipes ctx = [] then Inl Oob
         else let w3 = snd (sys_splice os r (last ends) n w2)
              in Inr (ZeroCopy_splice os n (zip (conn_pipes ctx) (accepted_fds ctx)) w3))"

text \<open>
  \<^verbatim>\<open>Drain\<close> reads into the buffer that the next round sends; on an error \<^verbatim>\<open>strerror_r\<close> may write its text
  there (\<open>strerr\<close>: the buffer afterwards).
\<close>

fun Drain_loop :: "'w os \<Rightarrow> (errno \<Rightarrow> bytes \<Rightarrow> bytes) \<Rightarrow> nat \<Rightarrow> fd list \<Rightarrow> bytes \<Rightarrow> 'w \<Rightarrow> bytes \<times> 'w" where
  "Drain_loop os strerr n [] b w = (b, w)"
| "Drain_loop os strerr n (fd # fds) b w =
     (case sys_read os fd n w of
        (Data d, w1) \<Rightarrow> Drain_loop os strerr n fds (d @ drop (length d) b) w1
      | (ReadErr e, w1) \<Rightarrow> Drain_loop os strerr n fds (strerr e b) w1)"

definition Drain :: "'w os \<Rightarrow> (errno \<Rightarrow> bytes \<Rightarrow> bytes) \<Rightarrow> Context \<Rightarrow> 'w \<Rightarrow> Context \<times> 'w" where
  "Drain os strerr ctx w =
     (let (b, w1) = Drain_loop os strerr (length (buf ctx)) (client_fds ctx) (buf ctx) w
      in (ctx\<lparr>buf := b\<rparr>, w1))"

fun close_conns :: "'w os \<Rightarrow> (fd \<times> fd \<times> fd \<times> fd) list \<Rightarrow> 'w \<Rightarrow> 'w" where
  "close_conns os [] w = w"
| "close_conns os ((a, c, r, s) # xs) w =
     close_conns os xs (sys_close os s (sys_close os r (sys_close os c (sys_close os a w))))"

definition delete_Context :: "'w os \<Rightarrow> Context \<Rightarrow> 'w \<Rightarrow> 'w" where
  "delete_Context os ctx w =
     (let w1 = close_conns os (zip (accepted_fds ctx) (zip (client_fds ctx) (conn_pipes ctx))) w
      in sys_close os (server_fd ctx) (sys_close os (snd (pipes ctx)) (sys_close os (fst (pipes ctx)) w1)))"

section \<open>main\<close>

text \<open>The number of connections and the message size from the command line, with the units k and m.\<close>

definition lift_fault :: "'a res \<Rightarrow> stop + 'a" where
  "lift_fault m = (case m of Inl f \<Rightarrow> Inl (Fault f) | Inr x \<Rightarrow> Inr x)"

definition times_int :: "int \<Rightarrow> int \<Rightarrow> stop + int" where
  "times_int a b = (if - (2 ^ 31) \<le> a * b \<and> a * b < 2 ^ 31 then Inr (a * b) else Inl SignedOverflow)"

definition main_args :: "bytes list \<Rightarrow> stop + int \<times> int" where
  "main_args argv =
     sbind (if length argv > 1 then lift_fault (atoi (argv ! 1)) else Inr 5) (\<lambda>n_conns.
     sbind (if length argv > 2
            then sbind (lift_fault (atoi (argv ! 2))) (\<lambda>n.
                 if argv ! 2 = [] then Inl (Fault Oob)
                 else let unit = last (argv ! 2)
                      in if unit = CHR ''k'' \<or> unit = CHR ''K'' then times_int n 1024
                         else if unit = CHR ''m'' \<or> unit = CHR ''M'' then times_int n (1024 * 1024)
                         else Inr n)
            else Inr (1024 * 10)) (\<lambda>nbytes.
     Inr (n_conns, nbytes)))"

definition bench_round :: "'w os \<Rightarrow> (errno \<Rightarrow> bytes \<Rightarrow> bytes) \<Rightarrow> Context \<Rightarrow> 'w \<Rightarrow> (Context \<times> 'w) res" where
  "bench_round os strerr ctx w =
     rbind (ZeroCopy os ctx w) (\<lambda>w1.
     let (ctx1, w2) = Drain os strerr ctx w1;
         w3 = DirectWrite os ctx1 w2
     in Inr (Drain os strerr ctx1 w3))"

fun bench_loop :: "'w os \<Rightarrow> (errno \<Rightarrow> bytes \<Rightarrow> bytes) \<Rightarrow> nat \<Rightarrow> Context \<Rightarrow> 'w \<Rightarrow> (Context \<times> 'w) res" where
  "bench_loop os strerr 0 ctx w = Inr (ctx, w)"
| "bench_loop os strerr (Suc k) ctx w = rbind (bench_round os strerr ctx w) (\<lambda>(ctx1, w1). bench_loop os strerr k ctx1 w1)"

definition bench_main ::
    "'w os \<Rightarrow> 'w unix_api \<Rightarrow> (errno \<Rightarrow> bytes \<Rightarrow> bytes) \<Rightarrow> fd \<times> fd \<Rightarrow> (nat \<Rightarrow> char) \<Rightarrow> bytes list \<Rightarrow> 'w \<Rightarrow> stop + int \<times> 'w" where
  "bench_main os api strerr junk mem argv w =
     sbind (main_args argv) (\<lambda>(n_conns, nbytes).
     sbind (new_Context os api junk mem n_conns nbytes w) (\<lambda>(ctx, w1).
     sbind (lift_fault (bench_loop os strerr 100 ctx w1)) (\<lambda>(ctx1, w2).
     Inr (0, delete_Context os ctx1 w2))))"

section \<open>Zero copy equals direct writing\<close>

lemma DirectWrite_view:
  assumes "pipe_law os peer cap view"
  shows "\<forall>fd \<in> set fds. peer fd = None \<Longrightarrow>
    view (DirectWrite_loop os d fds w) = (fst (view w), fan_out d fds (snd (view w)))"
proof (induction fds arbitrary: w)
  case (Cons fd fds)
  then have "room peer cap (view w) fd (length d)" by (simp add: room_def)
  from pipe_law_write [OF assms this] obtain w' where "sys_write os fd d w = (Wrote (length d), w')"
    "view w' = put peer (view w) fd d" .
  with Cons show ?case by (simp add: put_socket)
qed simp

lemma zero_copy_equals_direct_write:
  assumes "pipe_law os peer cap view" "pipes_ok peer (pipes ctx) (conn_pipes ctx)" "conn_pipes ctx \<noteq> []"
    "length (accepted_fds ctx) = length (conn_pipes ctx)" "\<forall>fd \<in> set (accepted_fds ctx). peer fd = None"
    "\<forall>p \<in> set (pipes ctx # conn_pipes ctx). fst (view w) (fst p) = []" "length (buf ctx) \<le> cap"
  shows "\<exists>w'. ZeroCopy os ctx w = Inr w' \<and> view w' = view (DirectWrite os ctx w)"
proof -
  obtain r s where rs: "pipes ctx = (r, s)" by (cases "pipes ctx")
  let ?ps = "conn_pipes ctx" and ?msg = "buf ctx" and ?zs = "zip (conn_pipes ctx) (accepted_fds ctx)"
  have ok: "peer s = Some r" "fst (view w) r = []" "pipes_ok peer (r, s) ?ps" "\<forall>x \<in> set (map fst ?ps). fst (view w) x = []"
    using assms(2,6) rs by (auto simp: pipes_ok_def)
  have "room peer cap (view w) s (length ?msg)" using ok assms(7) by (simp add: room_def)
  from pipe_law_write [OF assms(1) this] obtain w1 where w1: "sys_write os s ?msg w = (Wrote (length ?msg), w1)"
    "view w1 = put peer (view w) s ?msg" .
  then have v1: "view w1 = ((fst (view w))(r := ?msg), snd (view w))" using ok by (simp add: put_pipe)
  then have "fst (view w1) r = ?msg" "\<forall>x \<in> set (map fst ?ps). fst (view w1) x = []"
    using ok(3,4) by (auto simp: pipes_ok_def)
  note v3 = duplicate_view [OF assms(1,7) ok(3) assms(3) this]
  let ?w3 = "snd (sys_splice os r (last (map snd ?ps)) (length ?msg) (tee_loop os r (butlast (map snd ?ps)) (length ?msg) w1))"
  have fm: "\<forall>((r, s), fd) \<in> set ?zs. peer fd = None \<and> fst (view ?w3) r = ?msg"
  proof -
    have "\<forall>x \<in> set (map fst ?ps). fst (view ?w3) x = ?msg" using v3 by simp
    then show ?thesis using assms(5) by (fastforce dest: set_zip_leftD set_zip_rightD)
  qed
  have mz: "map fst ?zs = ?ps" "map snd ?zs = accepted_fds ctx" using assms(4) by simp_all
  then have mf: "map (fst \<circ> fst) ?zs = map fst ?ps" by (metis map_map)
  have "view (ZeroCopy_splice os (length ?msg) ?zs ?w3)
      = (\<lambda>x. if x \<in> set (map fst ?ps) then [] else fst (view ?w3) x, fan_out ?msg (accepted_fds ctx) (snd (view ?w3)))"
    using splice_all_view [OF assms(1) _ fm] ok(3) unfolding mf mz by (simp add: pipes_ok_def)
  then have "view (ZeroCopy_splice os (length ?msg) ?zs ?w3) = (fst (view w), fan_out ?msg (accepted_fds ctx) (snd (view w)))"
    using v3 v1 ok(2,4) by (auto simp: fun_eq_iff)
  then show ?thesis
    using DirectWrite_view [OF assms(1,5)] assms(3) rs w1(1) by (simp add: ZeroCopy_def DirectWrite_def Let_def)
qed

section \<open>A context that was set up\<close>

text \<open>
  What the set-up calls promise, on the queues of the pipes and the set of open descriptors: a new
  pipe has a new read end, its write end leads there, and it is empty; an accepted socket is not the
  write end of a pipe; the other calls add and remove no bytes in pipes and close nothing.
\<close>

definition keeps :: "('w \<Rightarrow> streams) \<Rightarrow> ('w \<Rightarrow> fd set) \<Rightarrow> 'w \<Rightarrow> 'w \<Rightarrow> bool" where
  "keeps view opened w w' \<longleftrightarrow> fst (view w') = fst (view w) \<and> opened w \<subseteq> opened w'"

definition calls_keep :: "'w os \<Rightarrow> 'w unix_api \<Rightarrow> ('w \<Rightarrow> 'w \<Rightarrow> bool) \<Rightarrow> bool" where
  "calls_keep os api R \<longleftrightarrow>
     (\<forall>w. R w (snd (unix_socket api w))) \<and> (\<forall>fd w. R w (snd (sys_accept os fd w)))
   \<and> (\<forall>fd x w. R w (snd (sys_setsockopt os fd x w))) \<and> (\<forall>fd f w. R w (snd (sys_setfl os fd f w)))
   \<and> (\<forall>x w. R w (unix_unlink api x w)) \<and> (\<forall>fd x w. R w (snd (unix_bind api fd x w)))
   \<and> (\<forall>fd n w. R w (snd (sys_listen os fd n w))) \<and> (\<forall>fd x w. R w (snd (unix_connect api fd x w)))
   \<and> (\<forall>fd n w. R w (snd (set_rcvbuf api fd n w))) \<and> (\<forall>fd n w. R w (snd (set_sndbuf api fd n w)))
   \<and> (\<forall>fd n w. R w (snd (setpipe_sz api fd n w)))"

definition pipe_opens :: "'w os \<Rightarrow> (fd \<Rightarrow> fd option) \<Rightarrow> ('w \<Rightarrow> streams) \<Rightarrow> ('w \<Rightarrow> fd set) \<Rightarrow> bool" where
  "pipe_opens os peer view opened \<longleftrightarrow>
     (\<forall>w r s w'. sys_pipe os w = (Some (r, s), w') \<longrightarrow> peer s = Some r \<and> r \<notin> opened w \<and> 0 \<le> r \<and> 0 \<le> s
        \<and> insert r (opened w) \<subseteq> opened w' \<and> view w' = ((fst (view w))(r := []), snd (view w)))"

definition setup_law ::
    "'w os \<Rightarrow> 'w unix_api \<Rightarrow> (fd \<Rightarrow> fd option) \<Rightarrow> ('w \<Rightarrow> streams) \<Rightarrow> ('w \<Rightarrow> fd set) \<Rightarrow> bool" where
  "setup_law os api peer view opened \<longleftrightarrow>
     pipe_opens os peer view opened
   \<and> (\<forall>w fd w'. unix_socket api w = (Some fd, w') \<longrightarrow> fd \<in> opened w')
   \<and> (\<forall>server w fd w'. sys_accept os server w = (Some fd, w') \<longrightarrow> peer fd = None)
   \<and> calls_keep os api (keeps view opened)"

lemma keeps_refl [simp]: "keeps view opened w w"
  by (simp add: keeps_def)

lemma keeps_trans [trans]: "keeps view opened w w1 \<Longrightarrow> keeps view opened w1 w2 \<Longrightarrow> keeps view opened w w2"
  by (auto simp: keeps_def)

lemma setup_pipe:
  "setup_law os api peer view opened \<Longrightarrow> sys_pipe os w = (Some (r, s), w') \<Longrightarrow>
    peer s = Some r \<and> r \<notin> opened w \<and> insert r (opened w) \<subseteq> opened w' \<and> fst (view w') = (fst (view w))(r := [])"
  by (simp add: setup_law_def pipe_opens_def)

lemma setup_accept:
  "setup_law os api peer view opened \<Longrightarrow> sys_accept os server w = (Some fd, w') \<Longrightarrow> peer fd = None"
  unfolding setup_law_def by metis

lemma setup_socket:
  "setup_law os api peer view opened \<Longrightarrow> unix_socket api w = (Some fd, w') \<Longrightarrow> fd \<in> opened w'"
  by (simp add: setup_law_def)

lemma setup_keeps:
  assumes "setup_law os api peer view opened"
  shows "keeps view opened w (snd (unix_socket api w))" "keeps view opened w (snd (sys_accept os fd w))"
    "keeps view opened w (snd (sys_setsockopt os fd x w))" "keeps view opened w (snd (sys_setfl os fd f w))"
    "keeps view opened w (unix_unlink api x w)" "keeps view opened w (snd (unix_bind api fd x w))"
    "keeps view opened w (snd (sys_listen os fd n w))" "keeps view opened w (snd (unix_connect api fd x w))"
    "keeps view opened w (snd (set_rcvbuf api fd n w))" "keeps view opened w (snd (set_sndbuf api fd n w))"
    "keeps view opened w (snd (setpipe_sz api fd n w))"
  using assms by (simp_all add: setup_law_def calls_keep_def)

lemma sbind_eq_Inr [simp]: "sbind m f = Inr y \<longleftrightarrow> (\<exists>x. m = Inr x \<and> f x = Inr y)"
  by (cases m) (simp_all add: sbind_def)

lemma or_exit_eq_Inr [simp]: "or_exit r f = Inr y \<longleftrightarrow> fst r \<and> f (snd r) = Inr y"
  by (simp add: or_exit_def)

lemma listen_socket_keeps:
  assumes "setup_law os api peer view opened"
  shows "keeps view opened w (snd (listen_socket os api n w))"
  unfolding listen_socket_def Let_def split_beta snd_conv
  by (rule keeps_trans, rule keeps_trans, rule keeps_trans, rule keeps_trans, rule keeps_trans, rule keeps_trans)
    (rule setup_keeps [OF assms])+

lemma connect_clients_ok:
  assumes "setup_law os api peer view opened"
  shows "connect_clients os api m n w = Inr (fds, w') \<Longrightarrow>
    keeps view opened w w' \<and> length fds = n \<and> set fds \<subseteq> opened w'"
proof (induction n arbitrary: w fds)
  case (Suc n)
  note k = setup_keeps [OF assms]
  obtain fd w1 where s: "unix_socket api w = (Some fd, w1)"
    using Suc.prems by (auto split: prod.splits option.splits)
  let ?w2 = "snd (unix_connect api fd socket_path w1)" and ?w3 = "\<lambda>w. snd (sys_setfl os fd O_NONBLOCK w)"
  let ?w4 = "snd (set_rcvbuf api fd m (?w3 ?w2))"
  obtain gs where gs: "connect_clients os api m n ?w4 = Inr (gs, w')" "fds = fd # gs"
    using Suc.prems s by auto
  have "keeps view opened w w1" using k(1) [of w] s by simp
  moreover have k4: "keeps view opened w1 ?w4" by (rule keeps_trans [OF keeps_trans [OF k(8) k(4)] k(9)])
  ultimately have "keeps view opened w ?w4" by (rule keeps_trans)
  moreover have "fd \<in> opened ?w4" using setup_socket [OF assms s] k4 by (auto simp: keeps_def)
  ultimately show ?case using Suc.IH [OF gs(1)] gs(2) by (auto simp: keeps_def)
qed simp

lemma accept_clients_ok:
  assumes "setup_law os api peer view opened"
  shows "accept_clients os api server m n w = Inr (fds, w') \<Longrightarrow>
    keeps view opened w w' \<and> length fds = n \<and> (\<forall>fd \<in> set fds. peer fd = None)"
proof (induction n arbitrary: w fds)
  case (Suc n)
  note k = setup_keeps [OF assms]
  obtain fd w1 where s: "sys_accept os server w = (Some fd, w1)"
    using Suc.prems by (auto split: prod.splits option.splits)
  let ?w3 = "snd (set_sndbuf api fd m (snd (sys_setfl os fd O_NONBLOCK w1)))"
  obtain gs where gs: "accept_clients os api server m n ?w3 = Inr (gs, w')" "fds = fd # gs"
    using Suc.prems s by auto
  have "keeps view opened w w1" using k(2) [of w server] s by simp
  also have "keeps view opened w1 ?w3" by (rule keeps_trans [OF k(4) k(10)])
  also have "keeps view opened ?w3 w'" using Suc.IH [OF gs(1)] by simp
  finally show ?case using Suc.IH [OF gs(1)] gs(2) setup_accept [OF assms s] by simp
qed simp

lemma set_pipe_keeps:
  assumes "setup_law os api peer view opened" "set_pipe os api n p w = Inr w'"
  shows "keeps view opened w w'"
proof -
  note k = setup_keeps [OF assms(1)]
  show ?thesis using assms(2) keeps_trans [OF keeps_trans [OF keeps_trans [OF k(4) k(4)] k(11)] k(11)]
    by (auto simp: set_pipe_def)
qed

text \<open>Pipes opened one after the other: new read ends, all different, all empty.\<close>

definition new_pipes :: "(fd \<Rightarrow> fd option) \<Rightarrow> ('w \<Rightarrow> streams) \<Rightarrow> ('w \<Rightarrow> fd set) \<Rightarrow> 'w \<Rightarrow> (fd \<times> fd) list \<Rightarrow> 'w \<Rightarrow> bool" where
  "new_pipes peer view opened w ps w' \<longleftrightarrow>
     (\<forall>(r, s) \<in> set ps. peer s = Some r \<and> fst (view w') r = []) \<and> distinct (map fst ps)
   \<and> set (map fst ps) \<inter> opened w = {} \<and> opened w \<union> set (map fst ps) \<subseteq> opened w'
   \<and> (\<forall>x \<in> opened w. fst (view w') x = fst (view w) x)"

lemma new_pipes_Cons:
  assumes "setup_law os api peer view opened" "sys_pipe os w = (Some p, w1)" "set_pipe os api n p w1 = Inr w2"
    "new_pipes peer view opened w2 ps w'"
  shows "new_pipes peer view opened w (p # ps) w'"
proof -
  obtain r s where p: "p = (r, s)" by (cases p)
  have "keeps view opened w1 w2" using assms(1,3) by (rule set_pipe_keeps)
  with setup_pipe [OF assms(1), of w r s w1] assms(2) p
  have h: "peer s = Some r" "r \<notin> opened w" "insert r (opened w) \<subseteq> opened w2" "fst (view w2) = (fst (view w))(r := [])"
    by (auto simp: keeps_def)
  then have "fst (view w') r = []" "r \<notin> fst ` set ps" "set (map fst ps) \<inter> opened w = {}"
    using assms(4) by (auto simp: new_pipes_def)
  moreover have "\<forall>x \<in> opened w. fst (view w') x = fst (view w) x"
    using h assms(4) by (auto simp: new_pipes_def)
  ultimately show ?thesis using h assms(4) p by (auto simp: new_pipes_def)
qed

lemma open_pipes_ok:
  assumes "setup_law os api peer view opened"
  shows "open_pipes os api m n w = Inr (ps, w') \<Longrightarrow> new_pipes peer view opened w ps w' \<and> length ps = n"
proof (induction n arbitrary: w ps)
  case 0
  then show ?case by (simp add: new_pipes_def)
next
  case (Suc n)
  from Suc.prems obtain p w1 w2 qs where h: "sys_pipe os w = (Some p, w1)" "set_pipe os api m p w1 = Inr w2"
    "open_pipes os api m n w2 = Inr (qs, w')" "ps = p # qs"
    by (auto split: prod.splits option.splits)
  show ?case using new_pipes_Cons [OF assms h(1,2)] Suc.IH [OF h(3)] h(4) by simp
qed

section \<open>The rounds\<close>

text \<open>
  The state between two rounds: the pipes are the context's own and empty, the accepted sockets are
  sockets, and no client socket is the read end of one of the pipes.
\<close>

definition bench_ok :: "(fd \<Rightarrow> fd option) \<Rightarrow> nat \<Rightarrow> (fd \<Rightarrow> bytes) \<Rightarrow> Context \<Rightarrow> bool" where
  "bench_ok peer cap q ctx \<longleftrightarrow>
     pipes_ok peer (pipes ctx) (conn_pipes ctx) \<and> length (accepted_fds ctx) = length (conn_pipes ctx)
   \<and> (\<forall>fd \<in> set (accepted_fds ctx). peer fd = None) \<and> (\<forall>p \<in> set (pipes ctx # conn_pipes ctx). q (fst p) = [])
   \<and> set (client_fds ctx) \<inter> fst ` set (pipes ctx # conn_pipes ctx) = {} \<and> length (buf ctx) \<le> cap"

definition pipes_available :: "'w os \<Rightarrow> bool" where
  "pipes_available os \<longleftrightarrow> (\<forall>w. fst (sys_pipe os w) \<noteq> None)"

lemma new_Context_ok:
  assumes "setup_law os api peer view opened" "pipes_available os" "nbytes \<le> int cap"
    "new_Context os api junk mem n_conns nbytes w = Inr (ctx, w')"
  shows "bench_ok peer cap (fst (view w')) ctx \<and> length (conn_pipes ctx) = nat n_conns \<and> 0 \<le> n_conns"
proof -
  obtain server w1 where l: "listen_socket os api n_conns w = (server, w1)" by fastforce
  from assms(4) obtain clients accepted w2 w3 where
    c: "connect_clients os api nbytes (nat n_conns) w1 = Inr (clients, w2)" and
    a: "accept_clients os api server nbytes (nat n_conns) w2 = Inr (accepted, w3)"
    by (auto simp: new_Context_def l split: if_splits)
  obtain p w4 where p: "sys_pipe os w3 = (Some p, w4)"
    using assms(2) unfolding pipes_available_def by (metis not_None_eq prod.collapse)
  from assms(4) obtain w5 ps where
    s: "set_pipe os api nbytes p w4 = Inr w5" and o: "open_pipes os api nbytes (nat n_conns) w5 = Inr (ps, w')" and
    ctx: "ctx = \<lparr>buf = map mem [0..<nat nbytes], server_fd = server, client_fds = clients,
      accepted_fds = accepted, conn_pipes = ps, pipes = p\<rparr>" and n: "0 \<le> n_conns"
    by (auto simp: new_Context_def l c a p split: if_splits)
  note co = connect_clients_ok [OF assms(1) c] and ao = accept_clients_ok [OF assms(1) a]
    and oo = open_pipes_ok [OF assms(1) o]
  have np: "new_pipes peer view opened w3 (p # ps) w'"
    using new_pipes_Cons [OF assms(1) p s] oo by blast
  moreover have "set clients \<subseteq> opened w3" using co ao by (auto simp: keeps_def)
  ultimately have "set clients \<inter> fst ` set (p # ps) = {}" by (auto simp: new_pipes_def)
  with np ao oo n assms(3) show ?thesis
    by (auto simp: bench_ok_def pipes_ok_def new_pipes_def ctx)
qed

text \<open>Reading a descriptor takes bytes from no other queue; \<^verbatim>\<open>strerror_r\<close> stays inside the buffer.\<close>

definition drain_law :: "'w os \<Rightarrow> (errno \<Rightarrow> bytes \<Rightarrow> bytes) \<Rightarrow> ('w \<Rightarrow> streams) \<Rightarrow> bool" where
  "drain_law os strerr view \<longleftrightarrow>
     (\<forall>fd n w x. x \<noteq> fd \<longrightarrow> fst (view (snd (sys_read os fd n w))) x = fst (view w) x)
   \<and> (\<forall>e b. length (strerr e b) = length b)"

lemma Drain_loop_ok:
  assumes "read_law os" "drain_law os strerr view"
  shows "Drain_loop os strerr n fds b w = (b', w') \<Longrightarrow> length b = n \<Longrightarrow>
    length b' = n \<and> (\<forall>x. x \<notin> set fds \<longrightarrow> fst (view w') x = fst (view w) x)"
proof (induction fds arbitrary: b w)
  case (Cons fd fds)
  obtain r w1 where r: "sys_read os fd n w = (r, w1)" by fastforce
  have q: "\<forall>x. x \<noteq> fd \<longrightarrow> fst (view w1) x = fst (view w) x"
    using assms(2) r unfolding drain_law_def by (metis snd_conv)
  obtain b1 where b1: "Drain_loop os strerr n fds b1 w1 = (b', w')" "length b1 = n"
  proof (cases r)
    case (Data d)
    then have "length d \<le> n" using assms(1) r unfolding read_law_def by metis
    with Data that [of "d @ drop (length d) b"] show thesis using Cons.prems r by simp
  next
    case (ReadErr e)
    with that [of "strerr e b"] show thesis using Cons.prems r assms(2) by (simp add: drain_law_def)
  qed
  from Cons.IH [OF this] q show ?case by simp
qed simp

lemma Drain_ok:
  assumes "read_law os" "drain_law os strerr view" "bench_ok peer cap (fst (view w)) ctx"
    "Drain os strerr ctx w = (ctx', w')"
  shows "bench_ok peer cap (fst (view w')) ctx' \<and> conn_pipes ctx' = conn_pipes ctx"
proof -
  obtain b where b: "Drain_loop os strerr (length (buf ctx)) (client_fds ctx) (buf ctx) w = (b, w')" "ctx' = ctx\<lparr>buf := b\<rparr>"
    using assms(4) by (auto simp: Drain_def split: prod.splits)
  from Drain_loop_ok [OF assms(1,2) b(1) refl]
  have "length b = length (buf ctx)" "\<forall>x. x \<notin> set (client_fds ctx) \<longrightarrow> fst (view w') x = fst (view w) x" by auto
  moreover have "\<forall>p \<in> set (pipes ctx # conn_pipes ctx). fst p \<notin> set (client_fds ctx)"
    using assms(3) unfolding bench_ok_def by blast
  ultimately show ?thesis using assms(3) b(2) by (auto simp: bench_ok_def)
qed

lemma DirectWrite_ok:
  assumes "pipe_law os peer cap view" "bench_ok peer cap (fst (view w)) ctx"
  shows "bench_ok peer cap (fst (view (DirectWrite os ctx w))) ctx"
proof -
  have "fst (view (DirectWrite os ctx w)) = fst (view w)"
    using assms DirectWrite_view [OF assms(1), of "accepted_fds ctx" "buf ctx" w] by (simp add: DirectWrite_def bench_ok_def)
  with assms(2) show ?thesis by simp
qed

lemma ZeroCopy_ok:
  assumes "pipe_law os peer cap view" "bench_ok peer cap (fst (view w)) ctx" "conn_pipes ctx \<noteq> []"
  obtains w' where "ZeroCopy os ctx w = Inr w'" "view w' = view (DirectWrite os ctx w)"
    "bench_ok peer cap (fst (view w')) ctx"
proof -
  obtain w' where "ZeroCopy os ctx w = Inr w'" "view w' = view (DirectWrite os ctx w)"
    using zero_copy_equals_direct_write [OF assms(1) _ assms(3), of w] assms(2) by (auto simp: bench_ok_def)
  with that DirectWrite_ok [OF assms(1,2)] show thesis by simp
qed

lemma bench_loop_ok:
  assumes "pipe_law os peer cap view" "read_law os" "drain_law os strerr view"
  shows "bench_ok peer cap (fst (view w)) ctx \<Longrightarrow> conn_pipes ctx \<noteq> [] \<Longrightarrow>
    \<exists>ctx' w'. bench_loop os strerr k ctx w = Inr (ctx', w') \<and> bench_ok peer cap (fst (view w')) ctx'
      \<and> conn_pipes ctx' = conn_pipes ctx"
proof (induction k arbitrary: ctx w)
  case (Suc k)
  note drain = Drain_ok [OF assms(2,3)]
  obtain w1 where z: "ZeroCopy os ctx w = Inr w1" "bench_ok peer cap (fst (view w1)) ctx"
    using ZeroCopy_ok [OF assms(1) Suc.prems] by metis
  obtain ctx2 w2 where d: "Drain os strerr ctx w1 = (ctx2, w2)" by fastforce
  obtain ctx3 w3 where e: "Drain os strerr ctx2 (DirectWrite os ctx2 w2) = (ctx3, w3)" by fastforce
  have ok2: "bench_ok peer cap (fst (view w2)) ctx2" "conn_pipes ctx2 = conn_pipes ctx" using drain [OF z(2) d] by auto
  have ok3: "bench_ok peer cap (fst (view w3)) ctx3" "conn_pipes ctx3 = conn_pipes ctx"
    using drain [OF DirectWrite_ok [OF assms(1) ok2(1)] e] ok2(2) by auto
  have "bench_round os strerr ctx w = Inr (ctx3, w3)" by (simp add: bench_round_def z(1) d e)
  with Suc.IH [OF ok3(1)] ok3(2) Suc.prems(2) show ?case by simp
qed simp

text \<open>The command line: a decimal number followed by k is a number of KiB.\<close>

lemma main_args_kilo:
  assumes "atoi c = Inr n" "ds \<noteq> []" "\<forall>x \<in> set ds. isdigit x" "digits_val ds * 1024 < 2 ^ 31"
  shows "main_args [prog, c, ds @ ''k''] = Inr (n, int (digits_val ds) * 1024)"
proof -
  have "atoi (ds @ ''k'') = Inr (int (digits_val ds))"
    using assms by (intro atoi_decimal) (auto simp: isdigit_def)
  then show ?thesis using assms(1,4) by (simp add: main_args_def lift_fault_def sbind_def times_int_def)
qed

lemma bench_main_returns:
  assumes "pipe_law os peer cap view" "setup_law os api peer view opened" "read_law os" "drain_law os strerr view"
    "pipes_available os" "nbytes \<le> int cap" "0 < n_conns" "main_args argv = Inr (n_conns, nbytes)"
    "new_Context os api junk mem n_conns nbytes w = Inr (ctx, w1)"
  shows "\<exists>w'. bench_main os api strerr junk mem argv w = Inr (0, w')"
proof -
  have "bench_ok peer cap (fst (view w1)) ctx" "conn_pipes ctx \<noteq> []"
    using new_Context_ok [OF assms(2,5,6,9)] assms(7) by auto
  then obtain ctx' w' where "bench_loop os strerr 100 ctx w1 = Inr (ctx', w')"
    using bench_loop_ok [OF assms(1,3,4)] by blast
  then show ?thesis by (simp add: bench_main_def assms(8,9) lift_fault_def sbind_def)
qed

section \<open>A kernel for the benchmark\<close>

text \<open>
  The kernel with pipes, with descriptors given out from 1000 on: a pipe takes an even number and the
  odd number after it, a socket takes an even number.
\<close>

definition bench_fd :: "kernel \<Rightarrow> fd" where "bench_fd k = 1000 + 2 * \<bar>k_next_fd k\<bar>"

definition next_fd :: "kernel \<Rightarrow> kernel" where "next_fd k = k\<lparr>k_next_fd := \<bar>k_next_fd k\<bar> + 1\<rparr>"

definition bench_os :: "kernel os" where
  "bench_os = pipe_os\<lparr>
     sys_pipe := \<lambda>k. (Some (bench_fd k, bench_fd k + 1), (next_fd k)\<lparr>k_pipe := (k_pipe k)(bench_fd k := [])\<rparr>),
     sys_accept := \<lambda>fd k. (Some (bench_fd k), next_fd k)\<rparr>"

definition bench_api :: "kernel unix_api" where
  "bench_api = \<lparr>unix_socket = \<lambda>k. (Some (bench_fd k), next_fd k), unix_unlink = \<lambda>x k. k, unix_bind = \<lambda>fd x k. (True, k),
     unix_connect = \<lambda>fd x k. (True, k), set_rcvbuf = \<lambda>fd n k. (True, k), set_sndbuf = \<lambda>fd n k. (True, k),
     setpipe_sz = \<lambda>fd n k. (True, k)\<rparr>"

definition k_open :: "kernel \<Rightarrow> fd set" where "k_open k = {x. x < bench_fd k}"

lemma bench_calls [simp]:
  "sys_pipe bench_os k = (Some (bench_fd k, bench_fd k + 1), (next_fd k)\<lparr>k_pipe := (k_pipe k)(bench_fd k := [])\<rparr>)"
  "sys_accept bench_os fd k = (Some (bench_fd k), next_fd k)" "sys_setsockopt bench_os fd x k = (True, k)"
  "sys_setfl bench_os fd f k = (True, k\<lparr>k_flags := (k_flags k)(fd := f)\<rparr>)" "sys_listen bench_os fd n k = (True, k)"
  "unix_socket bench_api k = (Some (bench_fd k), next_fd k)" "unix_unlink bench_api x k = k" "unix_bind bench_api fd x k = (True, k)"
  "unix_connect bench_api fd x k = (True, k)" "set_rcvbuf bench_api fd n k = (True, k)" "set_sndbuf bench_api fd n k = (True, k)"
  "setpipe_sz bench_api fd n k = (True, k)"
  by (simp_all add: bench_os_def pipe_os_def sim_os_def bench_api_def)

lemma bench_setup_law: "setup_law bench_os bench_api sim_peer k_view k_open"
  by (auto simp: setup_law_def pipe_opens_def calls_keep_def keeps_def k_view_def k_open_def bench_fd_def next_fd_def sim_peer_def)

lemma bench_pipe_law: "pipe_law bench_os sim_peer cap k_view"
  using sim_pipe_law [of cap] by (simp add: pipe_law_def bench_os_def)

lemma bench_drain_law: "drain_law bench_os (\<lambda>e b. b) k_view"
  by (auto simp: drain_law_def bench_os_def pipe_os_def sim_os_def k_view_def split: list.split read_res.split)

lemma bench_read_law: "read_law bench_os"
  using sim_read_law by (simp add: read_law_def bench_os_def pipe_os_def)

text \<open>On this kernel the constructor succeeds for all sizes.\<close>

lemma bench_set_pipe: "\<exists>k'. set_pipe bench_os bench_api m p k = Inr k'"
  by (simp add: set_pipe_def or_exit_def)

lemma bench_new_Context:
  assumes "0 \<le> m" "m + 1 < 2 ^ 31" "0 \<le> n"
  shows "\<exists>ctx k'. new_Context bench_os bench_api junk mem n m k = Inr (ctx, k')"
proof -
  have c: "\<exists>fds k'. connect_clients bench_os bench_api m i k = Inr (fds, k')" for i k
    by (induction i arbitrary: k) (simp_all add: or_exit_def, metis)
  have a: "\<exists>fds k'. accept_clients bench_os bench_api server m i k = Inr (fds, k')" for server i k
    by (induction i arbitrary: k) (simp_all add: or_exit_def, metis)
  have p: "\<exists>ps k'. open_pipes bench_os bench_api m i k = Inr (ps, k')" for i k
  proof (induction i arbitrary: k)
    case (Suc i)
    then show ?case using bench_set_pipe [of m] by (auto simp: split_paired_all) metis
  qed simp
  obtain server k1 where l: "listen_socket bench_os bench_api n k = (server, k1)" by fastforce
  obtain clients k2 where cc: "connect_clients bench_os bench_api m (nat n) k1 = Inr (clients, k2)" using c by blast
  obtain accepted k3 where aa: "accept_clients bench_os bench_api server m (nat n) k2 = Inr (accepted, k3)" using a by blast
  obtain q k4 where q: "sys_pipe bench_os k3 = (Some q, k4)" by simp
  obtain k5 where s: "set_pipe bench_os bench_api m q k4 = Inr k5" using bench_set_pipe by blast
  obtain ps k6 where o: "open_pipes bench_os bench_api m (nat n) k5 = Inr (ps, k6)" using p by blast
  show ?thesis using assms by (simp add: new_Context_def l cc aa q s o sbind_def del: bench_calls)
qed

section \<open>Properties\<close>

text \<open>
  C19. The benchmark compares like with like in every iteration: after its constructor, and after any number
  of rounds, \<open>ZeroCopy\<close> returns and leaves every pipe and every socket exactly as \<open>DirectWrite\<close> would, for
  every positive number of connections and every size that fits the pipes. With no connections the
  first round indexes \<^verbatim>\<open>conn_pipes[-1]\<close>.
\<close>

theorem benchmark_rounds_comparable:
  assumes "pipe_law os peer cap view" "setup_law os api peer view opened" "read_law os" "drain_law os strerr view"
    "pipes_available os" "0 \<le> nbytes" "nbytes \<le> int cap"
    "new_Context os api junk mem n_conns nbytes w = Inr (ctx, w1)"
  shows "if n_conns = 0 then bench_loop os strerr (Suc k) ctx w1 = Inl Oob
    else \<exists>ctx' w' w''. bench_loop os strerr k ctx w1 = Inr (ctx', w') \<and> ZeroCopy os ctx' w' = Inr w''
      \<and> view w'' = view (DirectWrite os ctx' w')"
proof (cases "n_conns = 0")
  case True
  then have "conn_pipes ctx = []" using new_Context_ok [OF assms(2,5,7,8)] by simp
  then show ?thesis using True by (simp add: bench_round_def ZeroCopy_def Let_def split_beta)
next
  case False
  then have ok: "bench_ok peer cap (fst (view w1)) ctx" "conn_pipes ctx \<noteq> []"
    using new_Context_ok [OF assms(2,5,7,8)] by auto
  obtain ctx' w' where r: "bench_loop os strerr k ctx w1 = Inr (ctx', w')" "bench_ok peer cap (fst (view w')) ctx'"
    "conn_pipes ctx' \<noteq> []"
    using bench_loop_ok [OF assms(1,3,4) ok, of k] ok(2) by metis
  from ZeroCopy_ok [OF assms(1) r(2,3)] r(1) False show ?thesis by (metis (no_types))
qed

theorem benchmark_rounds_comparable_witness:
  "\<exists>ctx w1. new_Context bench_os bench_api (0, 0) (\<lambda>i. CHR ''x'') 2 3 k0 = Inr (ctx, w1)
    \<and> (\<exists>ctx' w' w''. bench_loop bench_os (\<lambda>e b. b) 100 ctx w1 = Inr (ctx', w') \<and> ZeroCopy bench_os ctx' w' = Inr w''
      \<and> k_view w'' = k_view (DirectWrite bench_os ctx' w'))"
proof -
  obtain ctx w1 where c: "new_Context bench_os bench_api (0, 0) (\<lambda>i. CHR ''x'') 2 3 k0 = Inr (ctx, w1)"
    using bench_new_Context [of 3 2 "(0, 0)" "\<lambda>i. CHR ''x''" k0] by auto
  have "pipes_available bench_os" by (simp add: pipes_available_def)
  note r = benchmark_rounds_comparable [OF bench_pipe_law [of 3] bench_setup_law bench_read_law bench_drain_law this _ _ c, of 100]
  have "(0::int) \<le> 3" "(3::int) \<le> int 3" "(2::int) \<noteq> 0" by simp_all
  from r [OF this(1,2), unfolded if_not_P [OF this(3)]] c show ?thesis by blast
qed

end
