(* ===== verification/Hpl_Agree.thy ===== *)
theory Hpl_Agree
  imports Hpl_Examples
begin

text \<open>
  Environments that agree as long as an invariant of the program's own state holds. A callback that
  breaks the library's rule does no harm when the program never gets into the state in which it
  does. The locale compares a program's environment with one whose callbacks differ only outside the
  invariant, and shows that \<open>Poll\<close> (\<^verbatim>\<open>src/src/hpl_server.cc\<close>) is the same on both.
\<close>

section \<open>Equal outcomes with a postcondition\<close>

definition same :: "('b \<Rightarrow> bool) \<Rightarrow> 'b res \<Rightarrow> 'b res \<Rightarrow> bool" where
  "same P m m' \<longleftrightarrow> m = m' \<and> (\<forall>y. m' = Inr y \<longrightarrow> P y)"

lemma same_Inr [simp]: "same P (Inr y) (Inr y) = P y"
  by (simp add: same_def)

lemma same_Inl [simp]: "same P (Inl f) (Inl f)"
  by (simp add: same_def)

lemma same_refl: "(\<And>y. m = Inr y \<Longrightarrow> P y) \<Longrightarrow> same P m m"
  by (simp add: same_def)

lemma same_bind: "same P m m' \<Longrightarrow> (\<And>y. P y \<Longrightarrow> same Q (f y) (f' y)) \<Longrightarrow> same Q (rbind m f) (rbind m' f')"
  by (cases m') (auto simp: same_def)

lemma same_bind_eq: "(\<And>y. m = Inr y \<Longrightarrow> same Q (f y) (f' y)) \<Longrightarrow> same Q (rbind m f) (rbind m f')"
  by (cases m) simp_all

section \<open>System calls leave a program's own state alone\<close>

text \<open>
  What no system call adds to an interest list, no system call changes: the list below is empty
  exactly as long as the program's state is \<open>a\<close>, so the facts about registering carry over.
\<close>

definition stays :: "'a \<Rightarrow> ('a \<times> 'w) interest" where
  "stays a x = (\<lambda>_. if fst x = a then Map.empty else [0 \<mapsto> 0])"

lemma stays_kept: "adds_none (stays (fst x)) x y \<Longrightarrow> fst y = fst x"
  by (auto simp: adds_none_def stays_def map_le_def split: if_splits)

lemma stays_no_other_adds: "no_other_adds (app_os os) (stays a)"
  by (simp add: no_other_adds_def adds_none_def stays_def app_os_def split_beta with_app_def)

lemmas app_keeps =
  Connection_Write_quiet [OF stays_no_other_adds, THEN stays_kept]
  ProcessDataIn_quiet [OF stays_no_other_adds, THEN conjunct2, THEN stays_kept]
  ws_receive_quiet [OF stays_no_other_adds, THEN conjunct2, THEN stays_kept]
  UpgradeToWebsocket_quiet [OF stays_no_other_adds, THEN conjunct2, THEN stays_kept]
  ping_loop_quiet [OF stays_no_other_adds, THEN conjunct2, THEN stays_kept]

lemma CloseConn_app:
  "CloseConn (app_os os) p s x = Inr (r, s', x') \<Longrightarrow> request_handlers s' = request_handlers s \<and> fst x' = fst x"
  by (auto simp: CloseConn_def rbind_eq_Inr Let_def split_beta with_app_eq split: prod.splits bool.splits if_splits)

lemma AcceptNewConnection_app:
  assumes "AcceptNewConnection (app_os os) s x = Inr (new, s', x')"
  shows "request_handlers s' = request_handlers s \<and> fst x' = fst x"
proof -
  have "fst x' = fst x"
    using AcceptNewConnection_quiet [OF stays_no_other_adds assms, of "fst x"] stays_kept [of x x'] by (simp add: quiet_def)
  then show ?thesis using assms
    by (auto simp: AcceptNewConnection_def Let_def split: option.splits prod.splits bool.splits)
qed

section \<open>Agreement\<close>

definition holds :: "((bytes \<times> 'h RequestHandler) list \<Rightarrow> 'a \<Rightarrow> bool) \<Rightarrow> 'h Server \<Rightarrow> 'a \<times> 'w \<Rightarrow> bool" where
  "holds J s x \<longleftrightarrow> J (request_handlers s) (fst x)"

lemma holds_set_conn [simp]: "holds J (set_conn p c s) x = holds J s x"
  by (simp add: holds_def)

locale agreeing_callbacks =
  fixes e1 e2 :: "('h, 'a \<times> 'w) env" and os0 :: "'w os" and J :: "(bytes \<times> 'h RequestHandler) list \<Rightarrow> 'a \<Rightarrow> bool"
  assumes os1: "env_os e1 = app_os os0" and os2: "env_os e2 = app_os os0"
    and parts: "regex_match e1 = regex_match e2" "sha1_of e1 = sha1_of e2" "hash_array e1 = hash_array e2"
      "fmt_nat e1 = fmt_nat e2" "fuel e1 = fuel e2"
    and handler_same: "holds J s x \<Longrightarrow> (k, hs) \<in> set (request_handlers s) \<Longrightarrow> Some h \<in> set (http_handlers hs) \<Longrightarrow>
      same (\<lambda>(r, s', x'). holds J s' x') (run_handler e1 h p u d fin s x) (run_handler e2 h p u d fin s x)"
    and hook_same: "holds J s x \<Longrightarrow> same (\<lambda>(r, s', x'). holds J s' x') (run_hook e1 h p u s x) (run_hook e2 h p u s x)"
    and ws_same: "holds J s x \<Longrightarrow> same (\<lambda>(r, s', x'). holds J s' x') (run_ws e1 h p opc d s x) (run_ws e2 h p opc d s x)"
begin

lemma close_and_go_same:
  "holds J s x \<Longrightarrow> same (\<lambda>(s', x'). holds J s' x') (close_and_go e1 p s x) (close_and_go e2 p s x)"
  unfolding close_and_go_def os1 os2
  by (rule same_bind_eq) (auto simp: holds_def dest!: CloseConn_app)

lemma opt_hook_same:
  "holds J s x \<Longrightarrow> same (\<lambda>(r, s', x'). holds J s' x') (opt_hook e1 hook n p u s x) (opt_hook e2 hook n p u s x)"
  by (cases hook) (simp_all add: opt_hook_def hook_same)

lemma hook_then_same:
  assumes "holds J s x" "\<And>r s' x'. holds J s' x' \<Longrightarrow> same Q (f r s' x') (f' r s' x')"
  shows "same Q (rbind (opt_hook e1 hook n p u s x) (\<lambda>(r, s', x'). f r s' x'))
    (rbind (opt_hook e2 hook n p u s x) (\<lambda>(r, s', x'). f' r s' x'))"
  by (rule same_bind [OF opt_hook_same [OF assms(1)]]) (auto intro: assms(2))

lemma ws_read_event_same:
  assumes "holds J s x"
  shows "same (\<lambda>(r, s', x'). holds J s' x') (ws_read_event e1 p s x) (ws_read_event e2 p s x)"
  unfolding ws_read_event_def os1 os2
proof (intro same_bind_eq)
  fix y and c :: "'h Connection"
  assume rd: "ws_receive (app_os os0) c x = Inr y"
  obtain act c1 w1 where y: "y = (act, c1, w1)" by (cases y)
  have "holds J (set_conn p c1 s) w1" using assms app_keeps(3) [OF rd [unfolded y]] by (simp add: holds_def)
  note run = ws_same [OF this]
  show "same (\<lambda>(r, s', x'). holds J s' x')
     (case y of (act, c1, w1) \<Rightarrow> let s1 = set_conn p c1 s in case act of Ret r \<Rightarrow> Inr (r, s1, w1)
        | Call h op data \<Rightarrow> rbind (run_ws e1 h p op data s1 w1) (\<lambda>(r, s2, w2). rbind (conn_at p s2)
            (\<lambda>c2. Inr (r, set_conn p (set_ws (last_payload_update (\<lambda>_. [])) c2) s2, w2))))
     (case y of (act, c1, w1) \<Rightarrow> let s1 = set_conn p c1 s in case act of Ret r \<Rightarrow> Inr (r, s1, w1)
        | Call h op data \<Rightarrow> rbind (run_ws e2 h p op data s1 w1) (\<lambda>(r, s2, w2). rbind (conn_at p s2)
            (\<lambda>c2. Inr (r, set_conn p (set_ws (last_payload_update (\<lambda>_. [])) c2) s2, w2))))"
    using \<open>holds J (set_conn p c1 s) w1\<close>
    by (cases act) (auto simp: y Let_def intro!: same_bind [OF run] same_bind_eq)
qed

lemma handle_websocket_same:
  assumes "holds J s x"
  shows "same (\<lambda>(s', x'). holds J s' x') (handle_websocket e1 p s x) (handle_websocket e2 p s x)"
  unfolding handle_websocket_def
  by (rule same_bind [OF ws_read_event_same [OF assms]])
    (auto intro!: same_bind_eq hook_then_same close_and_go_same split: option.split)

lemma answer_upgrade_same:
  assumes "holds J s x"
  shows "same (\<lambda>(s', x'). holds J s' x') (answer_upgrade e1 p k u n s x) (answer_upgrade e2 p k u n s x)"
proof -
  have w: "holds J (set_conn p c1 s) (snd (Connection_Write (app_os os0) r c1 x))" for r c1
    using assms app_keeps(1) [of os0 r c1 x "fst (Connection_Write (app_os os0) r c1 x)" "snd (Connection_Write (app_os os0) r c1 x)"]
    by (simp add: holds_def)
  show ?thesis
    unfolding answer_upgrade_def os1 os2 parts Let_def
    by (auto intro!: same_bind_eq hook_then_same close_and_go_same w split: prod.split)
qed

lemma handle_upgrade_same:
  assumes "holds J s x"
  shows "same (\<lambda>(s', x'). holds J s' x') (handle_upgrade e1 p k u s x) (handle_upgrade e2 p k u s x)"
  unfolding handle_upgrade_def os1 os2 parts
proof (intro same_bind_eq)
  fix c and hs :: "'h RequestHandler"
  obtain nn c1 w1 where up: "UpgradeToWebsocket (app_os os0) (ws_message_handler hs) (ws_will_close_hook hs) c x = (nn, c1, w1)"
    by (cases "UpgradeToWebsocket (app_os os0) (ws_message_handler hs) (ws_will_close_hook hs) c x") auto
  have "holds J s w1" using assms app_keeps(4) [OF up] by (simp add: holds_def)
  then show "same (\<lambda>(s', x'). holds J s' x')
     (case UpgradeToWebsocket (app_os os0) (ws_message_handler hs) (ws_will_close_hook hs) c x of
       (not_null, c1, w1) \<Rightarrow> if \<not> not_null then Inl NullDeref
         else rbind (GetWsAccept (sha1_of e2) (hash_array e2) c1) (\<lambda>(_, c2).
              rbind (opt_hook e1 (ws_connect_hook hs) 0 p u (set_conn p c2 s) w1) (\<lambda>(n, s2, w2).
              if n = -1 then close_and_go e1 p s2 w2 else answer_upgrade e1 p k u n s2 w2)))
     (case UpgradeToWebsocket (app_os os0) (ws_message_handler hs) (ws_will_close_hook hs) c x of
       (not_null, c1, w1) \<Rightarrow> if \<not> not_null then Inl NullDeref
         else rbind (GetWsAccept (sha1_of e2) (hash_array e2) c1) (\<lambda>(_, c2).
              rbind (opt_hook e2 (ws_connect_hook hs) 0 p u (set_conn p c2 s) w1) (\<lambda>(n, s2, w2).
              if n = -1 then close_and_go e2 p s2 w2 else answer_upgrade e2 p k u n s2 w2)))"
    unfolding up
    by (auto intro!: same_bind_eq hook_then_same close_and_go_same answer_upgrade_same split: prod.split)
qed

lemma FindRequestHandler_same: "FindRequestHandler e1 u s = FindRequestHandler e2 u s"
  by (simp add: FindRequestHandler_def parts)

lemma row_same:
  assumes "holds J s x" "handler_at k s = Inr hs" "i < length (http_handlers hs)" "http_handlers hs ! i = Some h"
  shows "same (\<lambda>(r, s', x'). holds J s' x') (run_handler e1 h p u d fin s x) (run_handler e2 h p u d fin s x)"
proof -
  have "Some h \<in> set (http_handlers hs)" using assms(3,4) by (metis nth_mem)
  moreover have "(k, hs) \<in> set (request_handlers s)"
    using assms(2) by (auto simp: handler_at_def dest: map_of_SomeD split: option.splits)
  ultimately show ?thesis using handler_same [OF assms(1)] by blast
qed

lemma handle_request_same:
  assumes "holds J s x"
  shows "same (\<lambda>(s', x'). holds J s' x') (handle_request e1 p ret s x) (handle_request e2 p ret s x)"
proof -
  have w: "holds J s w1" if "Connection_Write (app_os os0) r c x = (y, w1)" for r w1 y and c :: "'h Connection"
    using assms app_keeps(1) [OF that] by (simp add: holds_def)
  show ?thesis
    unfolding handle_request_def os1 os2 parts Let_def FindRequestHandler_same
    by (intro same_bind_eq)
      (auto intro!: same_bind_eq handle_upgrade_same [OF assms] assms same_bind [OF row_same [OF assms]] close_and_go_same
        split: option.split prod.split dest!: w)
qed

lemma handle_http_same:
  assumes "holds J s x"
  shows "same (\<lambda>(s', x'). holds J s' x') (handle_http e1 p s x) (handle_http e2 p s x)"
proof -
  have w: "holds J (set_conn p c1 s) w1" if "ProcessDataIn n (app_os os0) c x = Some (Inr (r, c1, w1))" for n r c1 w1
    and c :: "'h Connection"
    using assms app_keeps(2) [OF that] by (simp add: holds_def)
  show ?thesis
    unfolding handle_http_def os1 os2 parts Let_def
    by (intro same_bind_eq)
      (auto intro!: same_bind_eq close_and_go_same handle_request_same split: option.split dest!: w)
qed

lemma handle_accept_same:
  assumes "holds J s x"
  shows "same (\<lambda>(r, s', x'). holds J s' x') (handle_accept e1 s x) (handle_accept e2 s x)"
  unfolding handle_accept_def os1 os2
  by (intro same_bind_eq)
    (use assms in \<open>auto simp: holds_def app_os_def with_app_def split_beta split: option.split bool.split dest!: AcceptNewConnection_app [unfolded app_os_def]\<close>)

lemma handle_event_same:
  assumes "holds J s x"
  shows "same (\<lambda>(r, s', x'). holds J s' x') (handle_event e1 ev s x) (handle_event e2 ev s x)"
  unfolding handle_event_def
  by (cases ev)
    (auto simp: assms intro!: same_bind_eq handle_accept_same [OF assms] same_bind [OF handle_websocket_same [OF assms]]
      same_bind [OF handle_http_same [OF assms]])

lemma event_loop_same:
  "holds J s x \<Longrightarrow> same (\<lambda>(r, s', x'). holds J s' x') (event_loop e1 evs s x) (event_loop e2 evs s x)"
proof (induction evs arbitrary: s x)
  case (Cons ev evs)
  show ?case unfolding event_loop.simps
    by (rule same_bind [OF handle_event_same [OF Cons.prems]]) (auto intro: Cons.IH split: option.split)
qed simp

lemma Poll_same:
  assumes "holds J s x"
  shows "same (\<lambda>(r, s', x'). holds J s' x') (Poll e1 t s x) (Poll e2 t s x)"
proof -
  have w: "fst w1 = fst x" if "ping_loop (app_os os0) (pending_conns s) x = Inr (cs, w1)" for cs w1
    using app_keeps(5) [OF that] .
  have ev: "same (\<lambda>(r, s', x'). holds J s' x') (event_loop e1 evs (s\<lparr>pending_conns := cs\<rparr>) w2) (event_loop e2 evs (s\<lparr>pending_conns := cs\<rparr>) w2)"
    if "fst w2 = fst x" for evs cs w2
    using assms that by (intro event_loop_same) (simp add: holds_def)
  have k: "holds J (s\<lparr>pending_conns := cs\<rparr>) w2" if "fst w2 = fst x" for cs w2
    using assms that by (simp add: holds_def)
  have wait: "fst w2 = fst w1" if "sys_epoll_wait (app_os os0) ep n t w1 = (r, w2)" for ep n r w1 w2
    using that by (auto simp: app_os_def with_app_eq)
  show ?thesis unfolding Poll_def os1 os2 Let_def
    by (intro same_bind_eq)
      (auto intro!: k same_bind [OF ev] dest!: w wait split: prod.split option.split)
qed

end

end
