(* ===== verification/Hpl_Programs.thy ===== *)
theory Hpl_Programs
  imports Hpl_Benchmark Hpl_Agree
begin

text \<open>
  The \<^verbatim>\<open>main\<close> functions of the example programs under \<^verbatim>\<open>src/examples/\<close>, up to any number of rounds of their
  endless loops: \<open>Inl\<close> is what \<^verbatim>\<open>main\<close> returns, \<open>Inr\<close> the state after the rounds. What holds of
  every run of \<^verbatim>\<open>basic\<close>; how a message of \<^verbatim>\<open>broadcast\<close> gets to the clients that joined; and what
  \<^verbatim>\<open>proxy_like\<close> does with an answer for a client that has gone.
\<close>

section \<open>The programs\<close>

text \<open>The port from the command line; \<^verbatim>\<open>unsigned\<close> and back to \<^verbatim>\<open>int\<close> keeps the value of \<open>atoi\<close>.\<close>

definition main_port :: "bytes list \<Rightarrow> int res" where
  "main_port argv = (if length argv > 1 then atoi (argv ! 1) else Inr 2999)"

fun poll_rounds :: "('h, 'w) env \<Rightarrow> int \<Rightarrow> nat \<Rightarrow> 'h Server \<Rightarrow> 'w \<Rightarrow> ('h Server \<times> 'w) res" where
  "poll_rounds e timeout 0 s w = Inr (s, w)"
| "poll_rounds e timeout (Suc k) s w = rbind (Poll e timeout s w) (\<lambda>(_, s1, w1). poll_rounds e timeout k s1 w1)"

definition basic_main ::
    "(basic_cb, 'w) env \<Rightarrow> bytes list \<Rightarrow> nat \<Rightarrow> 'w \<Rightarrow> (int + basic_cb Server \<times> AsyncHttpContext \<times> 'w) res" where
  "basic_main e argv k w =
     rbind (main_port argv) (\<lambda>port.
     let (ret, s, w1) = Init (env_os e) None port 5 new_Server w
     in if ret \<noteq> 0 then Inr (Inl ret)
        else rbind (poll_rounds (basic_env e) 30 k (basic_setup s) (\<lparr>pending_get_conn = None\<rparr>, w1)) (\<lambda>x. Inr (Inr x)))"

fun broadcast_loop ::
    "(broadcast_cb, 'w) env \<Rightarrow> nat \<Rightarrow> int \<Rightarrow> broadcast_cb Server \<Rightarrow> BroadcastContext \<Rightarrow> 'w
      \<Rightarrow> (int \<times> broadcast_cb Server \<times> BroadcastContext \<times> 'w) res" where
  "broadcast_loop e 0 time s ctx w = Inr (time, s, ctx, w)"
| "broadcast_loop e (Suc k) time s ctx w =
     rbind (Poll (broadcast_env e) 1000 s (ctx, w)) (\<lambda>(_, s1, ctx1, w1).
     rbind (broadcast_tick (env_os e) s1 ctx1 time w1) (\<lambda>(time1, w2).
     broadcast_loop e k time1 s1 ctx1 w2))"

definition broadcast_main ::
    "(broadcast_cb, 'w) env \<Rightarrow> bytes list \<Rightarrow> nat \<Rightarrow> 'w \<Rightarrow> (int + int \<times> broadcast_cb Server \<times> BroadcastContext \<times> 'w) res" where
  "broadcast_main e argv k w =
     rbind (main_port argv) (\<lambda>port.
     let (ret, s, w1) = Init (env_os e) None port 5 new_Server w
     in if ret \<noteq> 0 then Inr (Inl ret)
        else let (g, w2) = new_BroadcastGroup (env_os e) w1;
                 (time, w3) = sys_now (env_os e) w2
             in rbind (broadcast_loop e k time (broadcast_setup s) \<lparr>bg = g\<rparr> w3) (\<lambda>x. Inr (Inr x)))"

text \<open>\<^verbatim>\<open>curl_write_body_func\<close> and \<^verbatim>\<open>curl_write_headers_func\<close> for the callbacks of one \<^verbatim>\<open>curl_multi_perform\<close>.\<close>

fun run_curl_events ::
    "'w os \<Rightarrow> 'w curl_api \<Rightarrow> curl_event list \<Rightarrow> ServerContext \<Rightarrow> 'h Server \<Rightarrow> 'w \<Rightarrow> (ServerContext \<times> 'h Server \<times> 'w) res" where
  "run_curl_events os api [] ctx s w = Inr (ctx, s, w)"
| "run_curl_events os api (BodyData a d # es) ctx s w =
     rbind (curl_pipe_to_conn_body os api d a ctx s w) (\<lambda>(_, ctx1, s1, w1). run_curl_events os api es ctx1 s1 w1)"
| "run_curl_events os api (HeaderData a d # es) ctx s w =
     rbind (curl_pipe_to_conn_headers os d a ctx s w) (\<lambda>(_, w1). run_curl_events os api es ctx s w1)"

fun proxy_loop ::
    "(proxy_cb, 'w) env \<Rightarrow> 'w curl_api \<Rightarrow> nat \<Rightarrow> proxy_cb Server \<Rightarrow> ServerContext \<Rightarrow> 'w
      \<Rightarrow> (proxy_cb Server \<times> ServerContext \<times> 'w) res" where
  "proxy_loop e api 0 s ctx w = Inr (s, ctx, w)"
| "proxy_loop e api (Suc k) s ctx w =
     rbind (Poll (proxy_env e api) 50 s (ctx, w)) (\<lambda>(_, s1, ctx1, w1).
     let (es, w2) = curl_multi_perform api w1
     in rbind (run_curl_events (env_os e) api es ctx1 s1 w2) (\<lambda>(ctx2, s2, w3). proxy_loop e api k s2 ctx2 w3))"

text \<open>\<^verbatim>\<open>new ServerContext()\<close>, and \<^verbatim>\<open>main\<close>, which does not look at the result of \<open>Init\<close>.\<close>

definition new_ServerContext :: "'w curl_api \<Rightarrow> 'w \<Rightarrow> ServerContext \<times> 'w" where
  "new_ServerContext api w = (\<lparr>req_pipes = [], next_pipe = 0\<rparr>, curl_multi_init api w)"

definition proxy_main ::
    "(proxy_cb, 'w) env \<Rightarrow> 'w curl_api \<Rightarrow> nat \<Rightarrow> 'w \<Rightarrow> (proxy_cb Server \<times> ServerContext \<times> 'w) res" where
  "proxy_main e api k w =
     (let (_, s, w1) = Init (env_os e) (Some ''192.168.64.9'') 2999 50 new_Server w;
          (ctx, w2) = new_ServerContext api w1
      in proxy_loop e api k (proxy_setup s) ctx w2)"

section \<open>basic never gets into the state in which its hook is dangerous\<close>

text \<open>
  The ready hook of \<^verbatim>\<open>basic\<close> closes the remembered connection, against the library's rule. But no
  handler that remembers one is registered, so nothing is ever remembered: the program runs like
  one whose hooks do nothing.
\<close>

definition basic_pinned :: "(basic_cb, 'w) env \<Rightarrow> (basic_cb, AsyncHttpContext \<times> 'w) env" where
  "basic_pinned e = (basic_env e)\<lparr>run_hook := (\<lambda>h _ _ s x.
     case h of WebsocketReady \<Rightarrow> Inr (0, s, x) | WsClose \<Rightarrow> Inr (ws_close, s, x) | _ \<Rightarrow> Inl NullDeref)\<rparr>"

definition nothing_pending :: "(bytes \<times> basic_cb RequestHandler) list \<Rightarrow> AsyncHttpContext \<Rightarrow> bool" where
  "nothing_pending table ctx \<longleftrightarrow>
     pending_get_conn ctx = None \<and> (\<forall>(k, hs) \<in> set table. Some GetHandler \<notin> set (http_handlers hs))"

lemma basic_handler_same:
  assumes "holds nothing_pending s x" "(k, hs) \<in> set (request_handlers s)" "Some h \<in> set (http_handlers hs)"
  shows "same (\<lambda>(r, s', x'). holds nothing_pending s' x') (run_handler (basic_env e) h p u d fin s x) (run_handler (basic_pinned e) h p u d fin s x)"
proof -
  have "h \<noteq> GetHandler" using assms by (auto simp: holds_def nothing_pending_def)
  with assms(1) show ?thesis
    by (cases h; cases x)
      (auto simp: same_def basic_pinned_def basic_env_def basic_handler_def dump_handler_def holds_def rbind_eq_Inr split: prod.splits)
qed

interpretation basic: agreeing_callbacks "basic_env e" "basic_pinned e" "env_os e" nothing_pending for e :: "(basic_cb, 'w) env"
proof
  fix s x k hs h p u d fin
  show "holds nothing_pending s x \<Longrightarrow> same (\<lambda>(r, s', x'). holds nothing_pending s' x')
      (run_hook (basic_env e) h p u s x) (run_hook (basic_pinned e) h p u s x)" for h
    by (cases h; cases x) (simp_all add: basic_pinned_def basic_env_def basic_hook_def holds_def websocket_ready_def nothing_pending_def)
qed ((rule basic_handler_same; assumption) | simp add: basic_pinned_def basic_env_def)+

lemma respond_quiet:
  fixes s :: "'h Server"
  assumes "no_other_adds os reg"
  shows "fd_of s p = Some fd \<Longrightarrow> respond os fmt page p s w \<noteq> Inl UseAfterFree"
    "respond os fmt page p s w = Inr w' \<Longrightarrow> adds_none reg w w'"
proof -
  show "fd_of s p = Some fd \<Longrightarrow> respond os fmt page p s w \<noteq> Inl UseAfterFree"
    by (auto simp: respond_def fd_of_def MakeResponse_spec split: sum.splits)
  assume "respond os fmt page p s w = Inr w'"
  then obtain r and c :: "'h Connection" where "w' = snd (Connection_Write os r c w)" by (auto simp: respond_def rbind_eq_Inr MakeResponse_spec)
  then have "Connection_Write os r c w = (fst (Connection_Write os r c w), w')" by simp
  then show "adds_none reg w w'" by (rule Connection_Write_quiet [OF assms])
qed

lemma basic_pinned_lawful:
  assumes "base_law e reg"
  shows "lawful (basic_pinned e) (reg \<circ> snd)"
proof (rule hands_off_lawful [OF assms])
  have no: "no_other_adds (env_os e) reg" using assms by (simp add: base_law_def)
  note q = respond_quiet [OF no]
  show "hands_off (reg \<circ> snd) (run_handler (basic_pinned e) h p u d fin) s p" for h p u d fin s
    unfolding hands_off_def using q(2)
    by (cases h) (auto simp: q(1) basic_pinned_def basic_env_def basic_handler_def dummy_handler_def dump_handler_def get_handler_def
      rbind_def split: sum.splits)
  show "hands_off (reg \<circ> snd) (run_hook (basic_pinned e) h p u) s p" for h p u s
    by (cases h) (auto simp: basic_pinned_def hands_off_def)
qed (simp_all add: basic_pinned_def basic_env_def)

lemma basic_setup_nothing_pending:
  "request_handlers s = [] \<Longrightarrow> holds nothing_pending (basic_setup s) (\<lparr>pending_get_conn = None\<rparr>, w)"
  by (auto simp: holds_def nothing_pending_def basic_setup_def RegisterRequestHandler_def basic_handlers_def dump_handlers_def new_RequestHandler_def
    eval_nat_numeral)

lemma Init_app:
  "Init (app_os os) addr port backlog s (a, w) = (let (r, s', w') = Init os addr port backlog s w in (r, s', (a, w')))"
  by (simp add: Init_def app_os_def with_app_def Let_def split: prod.split option.split bool.split)

lemma basic_start:
  assumes "base_law e reg" "Init (env_os e) None port 5 new_Server w = (0, s, w1)"
  shows "server_inv (basic_pinned e) (reg \<circ> snd) (basic_setup s, (ctx, w1)) \<and> request_handlers s = []"
proof -
  have os: "env_os (basic_pinned e) = app_os (env_os e)" by (simp add: basic_pinned_def basic_env_def)
  have i: "Init (env_os (basic_pinned e)) None port 5 new_Server (ctx, w) = (0, s, (ctx, w1))"
    using assms(2) by (simp add: os Init_app)
  note law = basic_pinned_lawful [OF assms(1)]
  from Init_tied [OF law i] law have inv: "server_inv (basic_pinned e) (reg \<circ> snd) (s, (ctx, w1))" by (simp add: server_inv_def)
  have len: "length (http_handlers basic_handlers) = method_index UNKNOWN_METHOD" "length (http_handlers dump_handlers) = method_index UNKNOWN_METHOD"
    by (simp_all add: basic_table dump_handlers_def new_RequestHandler_def)
  have "server_inv (basic_pinned e) (reg \<circ> snd) (basic_setup s, (ctx, w1))"
    unfolding basic_setup_def
    by (rule server_step_inv [OF server_step_inv [OF inv register [OF len(1)]] register [OF len(2)]])
  moreover have "request_handlers s = []"
    using assms(2) by (auto simp: Init_def new_Server_def Let_def split: prod.splits option.splits bool.splits if_splits)
  ultimately show ?thesis by blast
qed

lemma basic_rounds:
  "server_inv (basic_pinned e) (reg \<circ> snd) (s, x) \<Longrightarrow> holds nothing_pending s x \<Longrightarrow>
    alive (\<lambda>(s', x'). server_ok s' \<and> holds nothing_pending s' x') (poll_rounds (basic_env e) t k s x)"
proof (induction k arbitrary: s x)
  case 0
  then show ?case by (simp add: server_inv_def)
next
  case (Suc k)
  have i: "lawful (basic_pinned e) (reg \<circ> snd)" "server_ok s" "tied (reg \<circ> snd) s x"
    using Suc.prems(1) unfolding server_inv_def fst_conv snd_conv by blast+
  note eq = basic.Poll_same [OF Suc.prems(2), of e t]
  show ?case
  proof (cases "Poll (basic_pinned e) t s x")
    case (Inl f)
    with eq Poll_alive [OF i, of t] show ?thesis by (simp add: same_def)
  next
    case (Inr y)
    obtain r s' x' where y: "y = (r, s', x')" by (cases y)
    have inv: "server_inv (basic_pinned e) (reg \<circ> snd) (s', x')"
      by (rule server_step_inv [OF Suc.prems(1)]) (rule poll [OF Inr [unfolded y]])
    have "holds nothing_pending s' x'" and p: "Poll (basic_env e) t s x = Inr (r, s', x')" using eq Inr y by (auto simp: same_def)
    from Suc.IH [OF inv this(1)] show ?thesis by (simp add: p)
  qed
qed

section \<open>Joining a group\<close>

text \<open>The calls of a join and of the clock take no bytes from pipes and close nothing.\<close>

definition join_law :: "'w os \<Rightarrow> ('w \<Rightarrow> streams) \<Rightarrow> ('w \<Rightarrow> fd set) \<Rightarrow> bool" where
  "join_law os view opened \<longleftrightarrow>
     (\<forall>fd x w. keeps view opened w (snd (sys_setsockopt os fd x w))) \<and> (\<forall>fd f w. keeps view opened w (snd (sys_setfl os fd f w)))
   \<and> (\<forall>w. view (snd (sys_now os w)) = view w)"

definition group_inv ::
    "(fd \<Rightarrow> fd option) \<Rightarrow> (conn_ptr \<Rightarrow> fd option) \<Rightarrow> ('w \<Rightarrow> streams) \<Rightarrow> ('w \<Rightarrow> fd set) \<Rightarrow> BroadcastGroup \<Rightarrow> 'w \<Rightarrow> bool" where
  "group_inv peer desc view opened g w \<longleftrightarrow>
     group_ok peer desc (fst (view w)) g \<and> fst ` set (pipefd g # map fst (connections g)) \<subseteq> opened w"

lemma join_lawD:
  assumes "join_law os view opened"
  shows "keeps view opened w (snd (sys_setsockopt os fd x w))" "keeps view opened w (snd (sys_setfl os fd f w))"
    "view (snd (sys_now os w)) = view w"
  using assms by (simp_all add: join_law_def)

lemma pipe_succeeds:
  assumes "pipe_opens os peer view opened" "pipes_available os"
  obtains r s w' where "sys_pipe os w = (Some (r, s), w')" "peer s = Some r" "r \<notin> opened w" "0 \<le> r" "0 \<le> s"
    "insert r (opened w) \<subseteq> opened w'" "fst (view w') = (fst (view w))(r := [])"
proof -
  obtain r s w' where p: "sys_pipe os w = (Some (r, s), w')"
    using assms(2) unfolding pipes_available_def by (metis not_None_eq prod.collapse)
  with assms(1) that show thesis by (simp add: pipe_opens_def)
qed

lemma new_group_inv:
  assumes "pipe_opens os peer view opened" "join_law os view opened" "pipes_available os" "new_BroadcastGroup os w = (g, w')"
  shows "group_inv peer desc view opened g w' \<and> connections g = []"
proof -
  obtain r s w1 where p: "sys_pipe os w = (Some (r, s), w1)" "peer s = Some r" "r \<notin> opened w" "0 \<le> r" "0 \<le> s"
    "insert r (opened w) \<subseteq> opened w1" "fst (view w1) = (fst (view w))(r := [])" by (rule pipe_succeeds [OF assms(1,3)])
  have "keeps view opened w1 w'" "g = \<lparr>pipefd = (r, s), connections = []\<rparr>"
    using assms(4) p(1) keeps_trans [OF join_lawD(2) [OF assms(2)] join_lawD(2) [OF assms(2)]]
    by (auto simp: new_BroadcastGroup_def split_beta)
  with p show ?thesis by (auto simp: group_inv_def group_ok_def pipes_ok_def keeps_def)
qed

lemma Join_group_inv:
  assumes "pipe_opens os peer view opened" "join_law os view opened" "pipes_available os"
    "group_inv peer desc view opened g w" "desc p = Some fd" "peer fd = None"
  obtains g' w' where "Join os desc (Some p) g w = Inr (0, g', w')" "group_inv peer desc view opened g' w'"
    "map snd (connections g') = map snd (connections g) @ [p]"
proof -
  let ?w1 = "snd (sys_setsockopt os fd ''SO_ZEROCOPY'' w)"
  obtain r s w2 where q: "sys_pipe os ?w1 = (Some (r, s), w2)" "peer s = Some r" "r \<notin> opened ?w1" "0 \<le> r" "0 \<le> s"
    "insert r (opened ?w1) \<subseteq> opened w2" "fst (view w2) = (fst (view ?w1))(r := [])" by (rule pipe_succeeds [OF assms(1,3)])
  let ?w' = "snd (sys_setfl os s O_NONBLOCK (snd (sys_setfl os r O_NONBLOCK w2)))"
  let ?g = "g\<lparr>connections := connections g @ [((r, s), p)]\<rparr>"
  have k: "keeps view opened w ?w1" "keeps view opened w2 ?w'"
    using join_lawD [OF assms(2)] keeps_trans [OF join_lawD(2) [OF assms(2)] join_lawD(2) [OF assms(2)]] by auto
  have j: "Join os desc (Some p) g w = Inr (0, ?g, ?w')" using assms(5) q(1) by (simp add: Join_def split_beta)
  have new: "r \<notin> fst ` set (pipefd g # map fst (connections g))"
    using assms(4) q(3) k(1) by (auto simp: group_inv_def keeps_def)
  have "fst ` set (pipefd ?g # map fst (connections ?g)) \<subseteq> opened ?w'"
  proof -
    have "opened w \<subseteq> opened ?w'" "r \<in> opened ?w'" using q(6) k unfolding keeps_def by auto
    with assms(4) show ?thesis by (auto simp: group_inv_def)
  qed
  moreover have "group_ok peer desc (fst (view ?w')) ?g"
    using assms(4-6) q k new by (auto simp: group_inv_def group_ok_def pipes_ok_def keeps_def image_iff)
  ultimately have "group_inv peer desc view opened ?g ?w'" by (simp add: group_inv_def)
  with j that show thesis by simp
qed

text \<open>Clients that get ready one after the other, through the connect hook.\<close>

fun join_all ::
    "'w os \<Rightarrow> broadcast_cb Server \<Rightarrow> conn_ptr list \<Rightarrow> BroadcastContext \<Rightarrow> 'w \<Rightarrow> (BroadcastContext \<times> 'w) res" where
  "join_all os s [] ctx w = Inr (ctx, w)"
| "join_all os s (p # ps) ctx w = rbind (on_ws_connected os p ctx s w) (\<lambda>(_, ctx1, w1). join_all os s ps ctx1 w1)"

definition live_socket :: "(fd \<Rightarrow> fd option) \<Rightarrow> 'h Server \<Rightarrow> conn_ptr \<Rightarrow> bool" where
  "live_socket peer s p = (case fd_of s p of None \<Rightarrow> False | Some fd \<Rightarrow> peer fd = None)"

lemma join_all_inv:
  assumes "pipe_opens os peer view opened" "join_law os view opened" "pipes_available os"
  shows "list_all (live_socket peer s) ps \<Longrightarrow> group_inv peer (fd_of s) view opened (bg ctx) w \<Longrightarrow>
    \<exists>ctx' w'. join_all os s ps ctx w = Inr (ctx', w') \<and> group_inv peer (fd_of s) view opened (bg ctx') w'
      \<and> map snd (connections (bg ctx')) = map snd (connections (bg ctx)) @ ps"
proof (induction ps arbitrary: ctx w)
  case (Cons p ps)
  from Cons.prems(1) obtain fd where fd: "fd_of s p = Some fd" "peer fd = None" by (auto simp: live_socket_def split: option.splits)
  obtain g' w' where j: "Join os (fd_of s) (Some p) (bg ctx) w = Inr (0, g', w')" "group_inv peer (fd_of s) view opened g' w'"
    "map snd (connections g') = map snd (connections (bg ctx)) @ [p]"
    by (rule Join_group_inv [OF assms Cons.prems(2) fd])
  from Cons.IH [of "ctx\<lparr>bg := g'\<rparr>" w'] Cons.prems(1) j show ?case by (auto simp: on_ws_connected_def)
qed simp

section \<open>Properties\<close>

text \<open>
  C22. The program \<^verbatim>\<open>basic\<close> never touches a destroyed connection, whatever its arguments, its clients and
  the number of rounds of its loop: every run ends in another fault, returns the error of \<open>Init\<close>, or
  reaches a state in order in which no connection waits for a websocket. The close in its ready
  hook, which breaks the library's rule, never runs.
\<close>

theorem basic_program_safe:
  assumes "base_law e reg"
  shows "case basic_main e argv k w of
      Inl f \<Rightarrow> f \<noteq> UseAfterFree
    | Inr (Inl r) \<Rightarrow> r \<noteq> 0
    | Inr (Inr (s, ctx, w')) \<Rightarrow> server_ok s \<and> pending_get_conn ctx = None"
proof (cases "main_port argv")
  case (Inl f)
  then have "f \<noteq> UseAfterFree" by (auto simp: main_port_def atoi_def Let_def split: if_splits)
  with Inl show ?thesis by (simp add: basic_main_def)
next
  case (Inr port)
  obtain r w1 and s :: "basic_cb Server" where init: "Init (env_os e) None port 5 new_Server w = (r, s, w1)" by (rule prod_cases3)
  show ?thesis
  proof (cases "r = 0")
    case True
    let ?x = "(\<lparr>pending_get_conn = None\<rparr>, w1)"
    from basic_start [OF assms init [unfolded True]]
    have "server_inv (basic_pinned e) (reg \<circ> snd) (basic_setup s, ?x)" "holds nothing_pending (basic_setup s) ?x"
      by (auto intro: basic_setup_nothing_pending)
    from basic_rounds [OF this, of 30 k] show ?thesis using Inr init True
      by (cases "poll_rounds (basic_env e) 30 k (basic_setup s) ?x")
        (auto simp: basic_main_def holds_def nothing_pending_def)
  qed (simp add: basic_main_def Inr init)
qed

theorem basic_program_safe_witness:
  "case basic_main sim_env_for [''basic'', ''8080''] 9 k0 of
      Inl f \<Rightarrow> f \<noteq> UseAfterFree
    | Inr (Inl r) \<Rightarrow> r \<noteq> 0
    | Inr (Inr (s, ctx, w')) \<Rightarrow> server_ok s \<and> pending_get_conn ctx = None"
  by (rule basic_program_safe [OF sim_base_law])

text \<open>
  C37. The program \<^verbatim>\<open>broadcast\<close> reaches its clients: after a new group, joins of connected clients in any number,
  and any time in which the clients stay and the pipes stay empty, the first pass of the main loop more
  than ten seconds after the last message writes exactly one text frame \<^verbatim>\<open>hello world at \<close> to every
  client that joined, in the order of the joins, and leaves the pipes empty for the next one.
\<close>

theorem broadcast_example_delivers:
  assumes "pipe_law os peer cap view" "pipe_opens os peer view opened" "join_law os view opened" "pipes_available os"
    "new_BroadcastGroup os w = (g, w1)" "list_all (live_socket peer s) ps" "ps \<noteq> []" "join_all os s ps \<lparr>bg = g\<rparr> w1 = Inr (ctx, w2)"
    "list_all (live_socket peer s') ps" "fst (view w3) = fst (view w2)"
    "fst (sys_now os w3) - time > 10 * 1000000000" "length (server_frame kTypeText True ''hello world at '') \<le> cap"
  shows "\<exists>w4. broadcast_tick os s' ctx time w3 = Inr (fst (sys_now os w3), w4)
    \<and> view w4 = (fst (view w2), fan_out (server_frame kTypeText True ''hello world at '') (map (the \<circ> fd_of s') ps) (snd (view w3)))"
proof -
  let ?w = "snd (sys_now os w3)"
  have g: "group_inv peer (fd_of s) view opened g w1" "connections g = []"
    using new_group_inv [OF assms(2-5)] by auto
  have "group_inv peer (fd_of s) view opened (bg ctx) w2" and m: "map snd (connections (bg ctx)) = ps"
    using join_all_inv [OF assms(2-4,6), of "\<lparr>bg = g\<rparr>" w1] g assms(8) by auto
  moreover have "\<forall>m \<in> set (connections (bg ctx)). \<exists>fd. fd_of s' (snd m) = Some fd \<and> peer fd = None"
    using assms(9) unfolding m [symmetric] by (auto simp: list_all_iff live_socket_def split: option.splits)
  moreover have v: "view ?w = view w3" using join_lawD(3) [OF assms(3)] .
  ultimately have "group_ok peer (fd_of s') (fst (view ?w)) (bg ctx)"
    using assms(10) by (auto simp: group_inv_def group_ok_def)
  moreover have "connections (bg ctx) \<noteq> []" "member_fds (fd_of s') (bg ctx) = map (the \<circ> fd_of s') ps"
    using m assms(7) by (auto simp: member_fds_def)
  ultimately show ?thesis
    using Broadcast_group [OF assms(1), of "fd_of s'" ?w "bg ctx" "''hello world at ''" kTypeText] assms(10-12) v
    by (auto simp: broadcast_tick_def broadcast_now_def split_beta)
qed

text \<open>A server with two clients, and a kernel whose clock shows twenty seconds.\<close>

definition joined_server :: "broadcast_cb Server" where
  "joined_server = broadcast_server0\<lparr>pending_conns := [(2, new_Connection 7), (3, new_Connection 8)], next_ptr := 4\<rparr>"

definition k20 :: kernel where "k20 = k0\<lparr>k_clock := 20000000000\<rparr>"

lemma bench_join_law: "join_law bench_os k_view k_open"
  by (simp add: join_law_def keeps_def k_view_def k_open_def bench_fd_def) (simp add: bench_os_def pipe_os_def sim_os_def)

lemma joined_fds: "fd_of joined_server 2 = Some 7" "fd_of joined_server 3 = Some 8"
  by (simp_all add: fd_of_def conn_at_def joined_server_def broadcast_server0_def new_Server_def new_Connection_def)

theorem broadcast_example_delivers_witness:
  "\<exists>g w1 ctx w2 w4. new_BroadcastGroup bench_os k20 = (g, w1) \<and> join_all bench_os joined_server [2, 3] \<lparr>bg = g\<rparr> w1 = Inr (ctx, w2)
    \<and> broadcast_tick bench_os joined_server ctx 0 w2 = Inr (20000000000, w4)
    \<and> k_view w4 = (fst (k_view w2), fan_out (server_frame kTypeText True ''hello world at '') [7, 8] (snd (k_view w2)))"
proof -
  obtain g w1 where g: "new_BroadcastGroup bench_os k20 = (g, w1)" "k_clock w1 = 20000000000"
    by (simp add: new_BroadcastGroup_def next_fd_def k20_def k0_def)
  obtain ctx w2 where j: "join_all bench_os joined_server [2, 3] \<lparr>bg = g\<rparr> w1 = Inr (ctx, w2)" "k_clock w2 = 20000000000"
    using g(2) by (simp add: on_ws_connected_def Join_def joined_fds next_fd_def)
  have now: "sys_now bench_os w = (k_clock w, w)" for w by (simp add: bench_os_def pipe_os_def sim_os_def)
  have live: "list_all (live_socket sim_peer joined_server) [2, 3]" by (simp add: live_socket_def joined_fds sim_peer_def)
  have ps: "pipe_opens bench_os sim_peer k_view k_open" "pipes_available bench_os"
    using bench_setup_law by (simp_all add: setup_law_def pipes_available_def)
  have "[2, 3] \<noteq> ([] :: conn_ptr list)" "fst (sys_now bench_os w2) - 0 > 10 * 1000000000"
    "length (server_frame kTypeText True ''hello world at '') \<le> 100" using j(2) by (simp_all add: now server_frame_def len_ext_def)
  from broadcast_example_delivers [OF bench_pipe_law ps(1) bench_join_law ps(2) g(1) live this(1) j(1) live refl this(2,3)]
  show ?thesis using g(1) j by (auto simp: now joined_fds)
qed

text \<open>
  C24. In \<^verbatim>\<open>proxy_like\<close> a client that leaves before the upstream answer is a use after free: the request that
  \<^verbatim>\<open>getter\<close> started keeps the client's pointer, nothing takes it off the list when the connection is
  closed, and the first header line or piece of body that libcurl delivers for it is written to the
  destroyed connection.
\<close>

theorem proxy_client_gone:
  assumes "getter api p u ctx w = (r, ctx1, w1)" "map_of (req_pipes ctx) (next_pipe ctx) = None"
    "map_option fst (server_conn s) \<noteq> Some p" "CloseConn os p s w2 = Inr (0, s', w3)"
    "event \<in> {HeaderData (next_pipe ctx) d, BodyData (next_pipe ctx) d}"
  shows "run_curl_events os api (event # es) ctx1 s' w4 = Inl UseAfterFree"
proof -
  obtain curl where "map_of (req_pipes ctx1) (next_pipe ctx) = Some \<lparr>pipe_conn = p, pipe_curl = curl\<rparr>"
    using assms(1,2) by (auto simp: getter_def new_request_pipe_def Let_def map_add_def split: prod.splits)
  moreover have "conn_at p s' = Inl UseAfterFree"
    using fd_of_closed [OF assms(4,3)] by (auto simp: fd_of_def conn_at_def split: option.splits sum.splits if_splits)
  ultimately show ?thesis using assms(5)
    by (auto simp: curl_pipe_to_conn_body_def curl_pipe_to_conn_headers_def curl_write_body_def curl_write_headers_def)
qed

theorem proxy_client_gone_witness:
  "\<exists>ctx1 w1 s' w3. getter no_curl 2 ''/x'' proxy_ctx0 k0 = (0, ctx1, w1) \<and> CloseConn sim_os 2 basic_server0 w1 = Inr (0, s', w3)
    \<and> run_curl_events sim_os no_curl [HeaderData 6 ''HTTP/1.1 200 OK''] ctx1 s' w3 = Inl UseAfterFree"
proof -
  obtain ctx1 w1 where g: "getter no_curl 2 ''/x'' proxy_ctx0 k0 = (0, ctx1, w1)"
    by (simp add: getter_def split_beta)
  have "conn_at 2 basic_server0 = Inr (new_Connection 7)" by (simp add: conn_at_def basic_server0_def new_Server_def)
  then obtain s' w3 where c: "CloseConn sim_os 2 basic_server0 w1 = Inr (0, s', w3)"
    using CloseConn_done [OF sim_closing_law, of 2 basic_server0 _ w1] by metis
  have "map_of (req_pipes proxy_ctx0) (next_pipe proxy_ctx0) = None" "map_option fst (server_conn basic_server0) \<noteq> Some 2"
    "HeaderData 6 ''HTTP/1.1 200 OK'' \<in> {HeaderData (next_pipe proxy_ctx0) ''HTTP/1.1 200 OK'', BodyData (next_pipe proxy_ctx0) ''HTTP/1.1 200 OK''}"
    by (simp_all add: proxy_ctx0_def basic_server0_def)
  from proxy_client_gone [OF g this(1,2) c this(3), of "[]" w3] show ?thesis using g c by blast
qed

end
