(* ===== verification/Hpl_Main_Loops.thy ===== *)
theory Hpl_Main_Loops
  imports Hpl_Programs
begin

text \<open>
  The endless loops of the example programs all poll and then do some work of their own. The locale
  \<open>polling_program\<close> says once what follows when that work keeps the server in order: the server stays
  in order through any number of rounds, and a use after free can only be the work's. Interpreted
  on \<^verbatim>\<open>broadcast\<close> and \<^verbatim>\<open>proxy_like\<close>, it names the only way in which each of them can touch a
  destroyed connection.
\<close>

section \<open>Polling and then working\<close>

fun work_rounds ::
    "('h, 'w) env \<Rightarrow> int \<Rightarrow> ('a \<Rightarrow> 'h Server \<Rightarrow> 'w \<Rightarrow> ('a \<times> 'h Server \<times> 'w) res) \<Rightarrow> nat \<Rightarrow> 'a \<Rightarrow> 'h Server \<Rightarrow> 'w
      \<Rightarrow> ('a \<times> 'h Server \<times> 'w) res" where
  "work_rounds e t work 0 a s w = Inr (a, s, w)"
| "work_rounds e t work (Suc k) a s w =
     rbind (Poll e t s w) (\<lambda>(_, s1, w1). rbind (work a s1 w1) (\<lambda>(a2, s2, w2). work_rounds e t work k a2 s2 w2))"

text \<open>After \<open>j\<close> rounds and one more \<open>Poll\<close> the program is about to work on \<open>(a', s', w')\<close>.\<close>

definition working_at ::
    "('h, 'w) env \<Rightarrow> int \<Rightarrow> ('a \<Rightarrow> 'h Server \<Rightarrow> 'w \<Rightarrow> ('a \<times> 'h Server \<times> 'w) res) \<Rightarrow> nat \<Rightarrow> 'a \<times> 'h Server \<times> 'w \<Rightarrow> 'a \<times> 'h Server \<times> 'w \<Rightarrow> bool" where
  "working_at e t work j x y \<longleftrightarrow>
     (case (x, y) of ((a, s, w), (a', s', w')) \<Rightarrow>
        \<exists>s1 w1 r. work_rounds e t work j a s w = Inr (a', s1, w1) \<and> Poll e t s1 w1 = Inr (r, s', w'))"

locale polling_program =
  fixes e :: "('h, 'w) env" and reg :: "'w interest" and t :: int
    and work :: "'a \<Rightarrow> 'h Server \<Rightarrow> 'w \<Rightarrow> ('a \<times> 'h Server \<times> 'w) res" and law :: bool
  assumes work_inv: "law \<Longrightarrow> server_inv e reg (s, w) \<Longrightarrow> work a s w = Inr (a', s', w') \<Longrightarrow> server_inv e reg (s', w')"
begin

lemma Poll_inv: "server_inv e reg (s, w) \<Longrightarrow> Poll e t s w = Inr (r, s', w') \<Longrightarrow> server_inv e reg (s', w')"
  by (erule server_step_inv) (rule poll)

lemma Poll_no_uaf: "server_inv e reg (s, w) \<Longrightarrow> Poll e t s w \<noteq> Inl UseAfterFree"
  using Poll_alive [of e reg s w t] by (auto simp: server_inv_def)

lemma rounds_inv:
  assumes law
  shows "server_inv e reg (s, w) \<Longrightarrow> work_rounds e t work k a s w = Inr (a', s', w') \<Longrightarrow> server_inv e reg (s', w')"
proof (induction k arbitrary: a s w)
  case (Suc k)
  from Suc.prems(2) obtain r s1 w1 a2 s2 w2 where
    "Poll e t s w = Inr (r, s1, w1)" "work a s1 w1 = Inr (a2, s2, w2)" "work_rounds e t work k a2 s2 w2 = Inr (a', s', w')"
    by (auto simp: rbind_eq_Inr split: prod.splits)
  with Poll_inv [OF Suc.prems(1)] work_inv [OF assms] Suc.IH show ?case by blast
qed simp

lemma rounds_blame:
  assumes law
  shows "server_inv e reg (s, w) \<Longrightarrow> work_rounds e t work k a s w = Inl UseAfterFree \<Longrightarrow>
    \<exists>j < k. \<exists>a' s' w'. working_at e t work j (a, s, w) (a', s', w') \<and> server_inv e reg (s', w') \<and> work a' s' w' = Inl UseAfterFree"
proof (induction k arbitrary: a s w)
  case (Suc k)
  from Poll_no_uaf [OF Suc.prems(1)] Suc.prems(2) obtain r s1 w1 where p: "Poll e t s w = Inr (r, s1, w1)"
    by (cases "Poll e t s w") auto
  note inv = Poll_inv [OF Suc.prems(1) p]
  show ?case
  proof (cases "work a s1 w1")
    case (Inl f)
    with Suc.prems(2) p inv show ?thesis
      by (intro exI [of _ 0] conjI exI [of _ a] exI [of _ s1] exI [of _ w1]) (simp_all add: working_at_def)
  next
    case (Inr y)
    obtain a2 s2 w2 where y: "y = (a2, s2, w2)" by (rule prod_cases3)
    from Suc.prems(2) p Inr y have "work_rounds e t work k a2 s2 w2 = Inl UseAfterFree" by simp
    from Suc.IH [OF work_inv [OF assms inv Inr [unfolded y]] this] obtain j a' s' w' where
      j: "j < k" "working_at e t work j (a2, s2, w2) (a', s', w')" "server_inv e reg (s', w')" "work a' s' w' = Inl UseAfterFree" by blast
    then have "working_at e t work (Suc j) (a, s, w) (a', s', w')" using p Inr y by (simp add: working_at_def)
    with j show ?thesis by (intro exI [of _ "Suc j"]) blast
  qed
qed simp

end

section \<open>broadcast\<close>

definition broadcast_work ::
    "(broadcast_cb, 'w) env \<Rightarrow> int \<Rightarrow> broadcast_cb Server \<Rightarrow> BroadcastContext \<times> 'w \<Rightarrow> (int \<times> broadcast_cb Server \<times> BroadcastContext \<times> 'w) res" where
  "broadcast_work e time s x =
     rbind (broadcast_tick (env_os e) s (fst x) time (snd x)) (\<lambda>(time1, w1). Inr (time1, s, fst x, w1))"

lemma broadcast_loop_rounds: "broadcast_loop e k time s ctx w = work_rounds (broadcast_env e) 1000 (broadcast_work e) k time s (ctx, w)"
proof (induction k arbitrary: time s ctx w)
  case (Suc k)
  show ?case
  proof (cases "Poll (broadcast_env e) 1000 s (ctx, w)")
    case (Inr y)
    obtain r s1 ctx1 w1 where y: "y = (r, s1, ctx1, w1)" by (rule prod_cases4)
    show ?thesis
      by (cases "broadcast_tick (env_os e) s1 ctx1 time w1") (auto simp: Inr y Suc.IH broadcast_work_def)
  qed simp
qed simp

text \<open>Moving data between pipes and sockets registers nothing.\<close>

definition transfer_law :: "'w os \<Rightarrow> 'w interest \<Rightarrow> bool" where
  "transfer_law os reg \<longleftrightarrow>
     (\<forall>r s n w. adds_none reg w (snd (sys_tee os r s n w))) \<and> (\<forall>r s n w. adds_none reg w (snd (sys_splice os r s n w)))"

lemma tee_loop_quiet:
  assumes "transfer_law os reg"
  shows "adds_none reg w (tee_loop os r ends n w)"
proof (induction ends arbitrary: w)
  case (Cons x ends)
  have "adds_none reg w (snd (sys_tee os r x n w))" using assms by (simp add: transfer_law_def)
  with Cons show ?case by (auto intro: adds_none_trans)
qed simp

lemma splice_loop_quiet:
  assumes "transfer_law os reg"
  shows "splice_loop os desc ms n w = Inr w' \<Longrightarrow> adds_none reg w w'"
proof (induction ms arbitrary: w)
  case (Cons m ms)
  obtain r s p where m: "m = ((r, s), p)" by (metis prod.collapse)
  from Cons.prems obtain fd where rest: "splice_loop os desc ms n (snd (sys_splice os r fd n w)) = Inr w'" by (auto simp: m split: option.splits)
  have "adds_none reg w (snd (sys_splice os r fd n w))" using assms by (simp add: transfer_law_def)
  from adds_none_trans [OF this Cons.IH [OF rest]] show ?case .
qed simp

lemma splice_loop_uaf: "splice_loop os desc ms n w = Inl f \<Longrightarrow> \<exists>m \<in> set ms. desc (snd m) = None"
  by (induction ms arbitrary: w) (auto split: option.splits)

lemma Broadcast_quiet:
  assumes "no_other_adds os reg" "transfer_law os reg" "Broadcast os desc data ty g w = Inr (r, w')"
  shows "adds_none reg w w'"
proof -
  note wr = no_other_adds_calls(2) [OF assms(1)]
  have spl: "adds_none reg u v" if "splice_loop os desc ms n (snd (sys_splice os r s n (tee_loop os r ends n u))) = Inr v" for r s n ends ms u v
    using splice_loop_quiet [OF assms(2) that] tee_loop_quiet [OF assms(2), of u r ends n] assms(2) unfolding transfer_law_def
    by (meson adds_none_trans)
  show ?thesis using assms(3)
    by (auto simp: Broadcast_def Let_def rbind_eq_Inr split: prod.splits if_splits write_res.splits
        dest!: spl wr dest: adds_none_trans)
qed

lemma Broadcast_uaf: "Broadcast os desc data ty g w = Inl f \<Longrightarrow> \<exists>m \<in> set (connections g). desc (snd m) = None"
  by (auto simp: Broadcast_def Let_def rbind_def split: prod.splits if_splits write_res.splits sum.splits dest: splice_loop_uaf)

lemma broadcast_work_inv:
  assumes "base_law e reg" "transfer_law (env_os e) reg" "server_inv (broadcast_env e) (reg \<circ> snd) (s, x)"
    "broadcast_work e a s x = Inr (a', s', x')"
  shows "server_inv (broadcast_env e) (reg \<circ> snd) (s', x')"
proof -
  have no: "no_other_adds (env_os e) reg" using assms(1) by (simp add: base_law_def)
  have "s' = s" "adds_none reg (snd x) (snd x')"
    using assms(4) no_other_adds_calls(4) [OF no]
    by (auto simp: broadcast_work_def broadcast_tick_def broadcast_now_def rbind_eq_Inr split: prod.splits if_splits
        dest!: Broadcast_quiet [OF no assms(2)]) (metis adds_none_trans)+
  then have "server_step (broadcast_env e) (reg \<circ> snd) (s, x) (s', x')" by (auto simp: adds_none_def intro: world)
  with assms(3) show ?thesis by (rule server_step_inv)
qed

interpretation broadcast: polling_program "broadcast_env e" "reg \<circ> snd" 1000 "broadcast_work e"
    "base_law e reg \<and> transfer_law (env_os e) reg" for e :: "(broadcast_cb, 'w) env" and reg
  by unfold_locales (auto intro: broadcast_work_inv)

section \<open>proxy\<open>_\<close>like\<close>

definition proxy_work ::
    "(proxy_cb, 'w) env \<Rightarrow> 'w curl_api \<Rightarrow> unit \<Rightarrow> proxy_cb Server \<Rightarrow> ServerContext \<times> 'w \<Rightarrow> (unit \<times> proxy_cb Server \<times> ServerContext \<times> 'w) res" where
  "proxy_work e api a s x =
     (let (es, w1) = curl_multi_perform api (snd x)
      in rbind (run_curl_events (env_os e) api es (fst x) s w1) (\<lambda>(ctx1, s1, w2). Inr (a, s1, ctx1, w2)))"

lemma proxy_loop_rounds:
  "proxy_loop e api k s ctx w =
     rbind (work_rounds (proxy_env e api) 50 (proxy_work e api) k () s (ctx, w)) (\<lambda>(_, s', ctx', w'). Inr (s', ctx', w'))"
proof (induction k arbitrary: s ctx w)
  case (Suc k)
  show ?case
  proof (cases "Poll (proxy_env e api) 50 s (ctx, w)")
    case (Inr y)
    obtain r s1 ctx1 w1 where y: "y = (r, s1, ctx1, w1)" by (rule prod_cases4)
    obtain es w2 where p: "curl_multi_perform api w1 = (es, w2)" by fastforce
    show ?thesis
      by (cases "run_curl_events (env_os e) api es ctx1 s1 w2") (auto simp: Inr y p Suc.IH proxy_work_def)
  qed simp
qed simp

text \<open>The calls that libcurl makes and is given in the loop register nothing with the server's epoll.\<close>

definition curl_loop_law :: "'w curl_api \<Rightarrow> 'w interest \<Rightarrow> bool" where
  "curl_loop_law api reg \<longleftrightarrow>
     (\<forall>w. adds_none reg w (snd (curl_multi_perform api w))) \<and> (\<forall>c w. adds_none reg w (curl_multi_remove_handle api c w))
   \<and> (\<forall>c w. adds_none reg w (curl_easy_cleanup api c w))"

lemma tied_adds_none: "tied reg s w \<Longrightarrow> adds_none reg w w' \<Longrightarrow> tied reg s w'"
  by (erule tied_quiet) (simp add: quiet_def)

lemma CloseConn_keeps_ok:
  assumes "server_ok s" "CloseConn os p s w = Inr (r, s', w')"
  shows "server_ok s'"
proof (cases "p \<in> set (ptrs s)")
  case True
  from CloseConn_served [OF assms(1) this, of os w] assms(2) show ?thesis by (simp add: served_def)
next
  case False
  then have f: "filter (\<lambda>(q, _). q \<noteq> p) (pending_conns s) = pending_conns s"
    by (auto simp: ptrs_def filter_id_conv image_iff)
  have m: "map (\<lambda>(q, d). (q, if q = p then c else d)) (pending_conns s) = pending_conns s" for c
    using False by (auto simp: ptrs_def image_iff intro!: map_idI)
  have same: "pending_conns s' = pending_conns s \<and> request_handlers s' = request_handlers s \<and> next_ptr s' = next_ptr s
      \<and> map_option fst (server_conn s') = map_option fst (server_conn s)"
    using assms(2) by (auto simp: CloseConn_def Let_def set_conn_def rbind_eq_Inr f m option.map_comp comp_def split_beta
        split: prod.splits bool.splits if_splits)
  then have "\<exists>c'. server_conn s = Some (q, c')" if "server_conn s' = Some (q, c)" for q c
    using that by (cases "server_conn s") auto
  with assms(1) same show ?thesis unfolding server_ok_def ptrs_def by metis
qed

lemma delete_request_pipe_quiet: "curl_loop_law api reg \<Longrightarrow> adds_none reg w (delete_request_pipe api rp w)"
  unfolding delete_request_pipe_def curl_loop_law_def by (auto split: option.split) (metis adds_none_trans)

lemma curl_write_body_inv:
  assumes "base_law e reg" "server_ok s" "tied reg s w" "curl_write_body (env_os e) d rp s w = Inr (r, s', w')"
  shows "server_ok s' \<and> tied reg s' w'"
proof -
  have law: "interest_law (env_os e) reg" "no_other_adds (env_os e) reg" using assms(1) by (simp_all add: base_law_def)
  from assms(4) obtain c where c: "conn_at (pipe_conn rp) s = Inr c" by (auto simp: curl_write_body_def rbind_eq_Inr)
  obtain x w1 where wr: "Connection_Write (env_os e) d c w = (x, w1)" by fastforce
  from assms(4) c wr obtain b where cl: "CloseConn (env_os e) (pipe_conn rp) s w1 = Inr (b, s', w')"
    by (auto simp: curl_write_body_def Connection_Close_def rbind_eq_Inr)
  from wr have "tied reg s w1" using tied_adds_none [OF assms(3) Connection_Write_quiet [OF law(2)]] by blast
  from CloseConn_tied [OF law this cl] CloseConn_keeps_ok [OF assms(2) cl] show ?thesis by simp
qed

lemma run_curl_events_inv:
  assumes "base_law e reg" "curl_loop_law api reg"
  shows "server_ok s \<Longrightarrow> tied reg s w \<Longrightarrow> run_curl_events (env_os e) api es ctx s w = Inr (ctx', s', w') \<Longrightarrow> server_ok s' \<and> tied reg s' w'"
proof (induction es arbitrary: ctx s w)
  case (Cons ev es)
  have no: "no_other_adds (env_os e) reg" using assms(1) by (simp add: base_law_def)
  show ?case
  proof (cases ev)
    case (BodyData a d)
    with Cons.prems(3) obtain r ctx1 s1 w1 where
      b: "curl_pipe_to_conn_body (env_os e) api d a ctx s w = Inr (r, ctx1, s1, w1)"
        "run_curl_events (env_os e) api es ctx1 s1 w1 = Inr (ctx', s', w')" by (auto simp: rbind_eq_Inr split: prod.splits)
    have "server_ok s1 \<and> tied reg s1 w1"
    proof (cases "map_of (req_pipes ctx) a")
      case None
      with b(1) Cons.prems(1,2) show ?thesis by (simp add: curl_pipe_to_conn_body_def)
    next
      case (Some rp)
      with b(1) obtain w2 where "curl_write_body (env_os e) d rp s w = Inr (r, s1, w2)" "w1 = delete_request_pipe api rp w2"
        by (auto simp: curl_pipe_to_conn_body_def rbind_eq_Inr)
      with curl_write_body_inv [OF assms(1) Cons.prems(1,2)] tied_adds_none [OF _ delete_request_pipe_quiet [OF assms(2)]]
      show ?thesis by blast
    qed
    then show ?thesis using Cons.IH [OF _ _ b(2)] by blast
  next
    case (HeaderData a d)
    with Cons.prems(3) obtain r w1 where
      b: "curl_pipe_to_conn_headers (env_os e) d a ctx s w = Inr (r, w1)" "run_curl_events (env_os e) api es ctx s w1 = Inr (ctx', s', w')"
      by (auto simp: rbind_eq_Inr split: prod.splits)
    from b(1) have "adds_none reg w w1"
      by (auto simp: curl_pipe_to_conn_headers_def curl_write_headers_def rbind_eq_Inr split_beta split: option.splits
          intro: Connection_Write_quiet [OF no prod.collapse [symmetric]])
    from Cons.IH [OF Cons.prems(1) tied_adds_none [OF Cons.prems(2) this] b(2)] show ?thesis .
  qed
qed simp

lemma proxy_work_inv:
  assumes "base_law e reg" "curl_loop_law api reg" "server_inv (proxy_env e api) (reg \<circ> snd) (s, x)"
    "proxy_work e api a s x = Inr (a', s', x')"
  shows "server_inv (proxy_env e api) (reg \<circ> snd) (s', x')"
proof -
  obtain es w1 where p: "curl_multi_perform api (snd x) = (es, w1)" by fastforce
  have t: "tied (reg \<circ> snd) u y = tied reg u (snd y)" for u :: "proxy_cb Server" and y :: "ServerContext \<times> 'a" by (simp add: tied_def)
  from p assms(2) have "adds_none reg (snd x) w1" unfolding curl_loop_law_def by (metis snd_conv)
  with assms(3) have i: "server_ok s" "tied reg s w1" by (auto simp: server_inv_def t intro: tied_adds_none)
  from assms(4) p have "run_curl_events (env_os e) api es (fst x) s w1 = Inr (fst x', s', snd x')"
    by (auto simp: proxy_work_def rbind_eq_Inr)
  from run_curl_events_inv [OF assms(1,2) i this] assms(3) show ?thesis by (simp add: server_inv_def t)
qed

interpretation proxy: polling_program "proxy_env e api" "reg \<circ> snd" 50 "proxy_work e api"
    "base_law e reg \<and> curl_loop_law api reg" for e :: "(proxy_cb, 'w) env" and api reg
  by unfold_locales (auto intro: proxy_work_inv)

fun event_pipe :: "curl_event \<Rightarrow> nat" where
  "event_pipe (BodyData a d) = a"
| "event_pipe (HeaderData a d) = a"

text \<open>A fault of the callbacks is that of the first one whose request belongs to a destroyed client.\<close>

lemma run_curl_events_uaf:
  "run_curl_events os api es ctx s w = Inl f \<Longrightarrow>
    \<exists>pre ev post ctx' s' w' rp. es = pre @ ev # post \<and> run_curl_events os api pre ctx s w = Inr (ctx', s', w')
      \<and> map_of (req_pipes ctx') (event_pipe ev) = Some rp \<and> fd_of s' (pipe_conn rp) = None"
proof (induction es arbitrary: ctx s w)
  case (Cons ev es)
  show ?case
  proof (cases "run_curl_events os api [ev] ctx s w")
    case (Inl g)
    then have "\<exists>rp. map_of (req_pipes ctx) (event_pipe ev) = Some rp \<and> fd_of s (pipe_conn rp) = None"
      by (cases ev) (auto simp: curl_pipe_to_conn_body_def curl_pipe_to_conn_headers_def curl_write_body_def curl_write_headers_def
          Connection_Close_def CloseConn_def fd_of_def rbind_def Let_def split: option.splits sum.splits prod.splits bool.splits if_splits)
    then show ?thesis by (intro exI [of _ "[]"] exI [of _ ev] exI [of _ es]) auto
  next
    case (Inr y)
    obtain ctx1 s1 w1 where y: "y = (ctx1, s1, w1)" by (rule prod_cases3)
    have run: "run_curl_events os api (ev # xs) ctx s w = run_curl_events os api xs ctx1 s1 w1" for xs
      using Inr y by (cases ev) (auto simp: rbind_def split: sum.splits)
    from Cons.IH [OF Cons.prems [unfolded run]] obtain pre ev' post ctx' s' w' rp where
      "es = pre @ ev' # post" "run_curl_events os api pre ctx1 s1 w1 = Inr (ctx', s', w')"
      "map_of (req_pipes ctx') (event_pipe ev') = Some rp" "fd_of s' (pipe_conn rp) = None" by blast
    then show ?thesis by (intro exI [of _ "ev # pre"] exI [of _ ev'] exI [of _ post]) (auto simp: run)
  qed
qed simp

section \<open>The programs start in order\<close>

lemma setup_in_order:
  assumes "lawful e (reg \<circ> snd)" "env_os e = app_os os" "Init os addr port backlog new_Server w = (0, s, w1)"
    "length (http_handlers h) = method_index UNKNOWN_METHOD"
  shows "server_inv e (reg \<circ> snd) (RegisterRequestHandler u h s, (a, w1))"
proof -
  have "Init (env_os e) addr port backlog new_Server (a, w) = (0, s, (a, w1))" using assms(3) by (simp add: assms(2) Init_app)
  from Init_tied [OF assms(1) this] assms(1) have "server_inv e (reg \<circ> snd) (s, (a, w1))" by (simp add: server_inv_def)
  from server_step_inv [OF this register [OF assms(4)]] show ?thesis .
qed

lemma broadcast_starts_in_order:
  assumes "base_law e reg" "Init (env_os e) addr port backlog new_Server w = (0, s, w1)"
  shows "server_inv (broadcast_env e) (reg \<circ> snd) (broadcast_setup s, (ctx, w1))"
  unfolding broadcast_setup_def
  by (rule setup_in_order [OF broadcast_lawful [OF assms(1)] _ assms(2)])
    (simp_all add: broadcast_env_def broadcast_handlers_def new_RequestHandler_def)

lemma proxy_starts_in_order:
  assumes "base_law e reg" "curl_law api reg" "Init (env_os e) addr port backlog new_Server w = (0, s, w1)"
  shows "server_inv (proxy_env e api) (reg \<circ> snd) (proxy_setup s, (ctx, w1))"
  unfolding proxy_setup_def
  by (rule setup_in_order [OF proxy_lawful [OF assms(1,2)] _ assms(3)])
    (simp_all add: proxy_env_def proxy_handlers_def new_RequestHandler_def)

text \<open>Servers whose clients have all gone, on a kernel without events.\<close>

definition empty_server :: "'h Server" where
  "empty_server = new_Server\<lparr>poll_fd := 4, server_conn := Some (1, new_Connection 5), next_ptr := 3\<rparr>"

definition answering_curl :: "kernel curl_api" where
  "answering_curl = no_curl\<lparr>curl_multi_perform := (\<lambda>k. ([HeaderData 7 ''x'', HeaderData 5 ''HTTP/1.1 200 OK''], k))\<rparr>"

lemma empty_server_in_order: "lawful e (k_reg \<circ> snd) \<Longrightarrow> server_inv e (k_reg \<circ> snd) (empty_server, (ctx, k0))"
  by (simp add: server_inv_def server_ok_def tied_def empty_server_def new_Server_def ptrs_def table_ok_def k0_def)

lemma empty_server_poll:
  assumes "env_os e = app_os sim_os"
  shows "Poll e t empty_server (ctx, k0) = Inr (0, empty_server, ctx, k0)"
  by (simp add: Poll_def assms app_os_def with_app_def sim_os_def k0_def empty_server_def new_Server_def)

lemma sim_transfer_law: "transfer_law sim_os k_reg"
  by (simp add: transfer_law_def sim_os_def adds_none_def)

lemma answering_curl_law: "curl_law answering_curl k_reg" "curl_loop_law answering_curl k_reg"
  by (simp_all add: curl_law_def curl_loop_law_def answering_curl_def no_curl_def adds_none_def)

section \<open>Properties\<close>

text \<open>
  C23. The only use after free in \<^verbatim>\<open>broadcast\<close>. If its main loop, started in order (as \<^verbatim>\<open>main\<close> starts it, lemma
  \<open>broadcast_starts_in_order\<close>), ever touches a destroyed connection, then in the timed broadcast of some round
  \<open>j\<close>, more than ten seconds after the one before, at a moment when a member of the group had been
  destroyed: no poll, join or earlier broadcast of the run can be to blame.
\<close>

theorem broadcast_blames_stale_member:
  assumes "base_law e reg" "transfer_law (env_os e) reg" "server_inv (broadcast_env e) (reg \<circ> snd) (s, (ctx, w))"
    "broadcast_loop e k time s ctx w = Inl UseAfterFree"
  shows "\<exists>j < k. \<exists>time0 s0 ctx0 w0 r s1 ctx1 w1. broadcast_loop e j time s ctx w = Inr (time0, s0, ctx0, w0)
    \<and> Poll (broadcast_env e) 1000 s0 (ctx0, w0) = Inr (r, s1, ctx1, w1)
    \<and> fst (sys_now (env_os e) w1) - time0 > 10 * 1000000000 \<and> (\<exists>m \<in> set (connections (bg ctx1)). fd_of s1 (snd m) = None)"
proof -
  from broadcast.rounds_blame [OF conjI [OF assms(1,2)] assms(3) assms(4) [unfolded broadcast_loop_rounds]]
  obtain j time0 s1 ctx1 w1 where j: "j < k" "working_at (broadcast_env e) 1000 (broadcast_work e) j (time, s, ctx, w) (time0, s1, ctx1, w1)"
    "broadcast_work e time0 s1 (ctx1, w1) = Inl UseAfterFree" by auto
  from j(2) obtain s0 ctx0 w0 r where "broadcast_loop e j time s ctx w = Inr (time0, s0, ctx0, w0)"
    "Poll (broadcast_env e) 1000 s0 (ctx0, w0) = Inr (r, s1, ctx1, w1)"
    by (auto simp: working_at_def broadcast_loop_rounds)
  moreover have "fst (sys_now (env_os e) w1) - time0 > 10 * 1000000000 \<and> (\<exists>m \<in> set (connections (bg ctx1)). fd_of s1 (snd m) = None)"
    using j(3) by (auto simp: broadcast_work_def broadcast_tick_def broadcast_now_def rbind_def split: prod.splits if_splits sum.splits dest: Broadcast_uaf)
  ultimately show ?thesis using j(1) by blast
qed

theorem broadcast_blames_stale_member_witness:
  "broadcast_loop sim_env_for 1 (-20000000000) empty_server \<lparr>bg = sim_group\<rparr> k0 = Inl UseAfterFree
    \<and> (\<exists>j < 1. \<exists>time0 s0 ctx0 w0 r s1 ctx1 w1. broadcast_loop sim_env_for j (-20000000000) empty_server \<lparr>bg = sim_group\<rparr> k0 = Inr (time0, s0, ctx0, w0)
    \<and> Poll (broadcast_env sim_env_for) 1000 s0 (ctx0, w0) = Inr (r, s1, ctx1, w1)
    \<and> fst (sys_now sim_os w1) - time0 > 10 * 1000000000 \<and> (\<exists>m \<in> set (connections (bg ctx1)). fd_of s1 (snd m) = None))"
proof -
  let ?e = "sim_env_for :: (broadcast_cb, kernel) env"
  have p: "Poll (broadcast_env ?e) 1000 empty_server (\<lparr>bg = sim_group\<rparr>, k0) = Inr (0, empty_server, \<lparr>bg = sim_group\<rparr>, k0)"
    by (rule empty_server_poll) (simp add: broadcast_env_def)
  have gone: "fd_of empty_server 2 = None"
    by (simp add: fd_of_def conn_at_def empty_server_def new_Server_def)
  have "((1004, 1005), 2) \<in> set (connections sim_group)" by (simp add: sim_group_def)
  from splice_loop_stale [OF this, of "fd_of empty_server"] gone
  have spl: "splice_loop sim_os (fd_of empty_server) (connections sim_group) n v = Inl UseAfterFree" for n v by simp
  have wr: "sys_write sim_os fd d v = (Wrote (length d), snd (sys_write sim_os fd d v))" for fd d v by (simp add: sim_os_def)
  have "broadcast_now sim_os ''hello world at '' empty_server \<lparr>bg = sim_group\<rparr> k0 = Inl UseAfterFree"
    unfolding broadcast_now_def Broadcast_def BroadcastContext.simps Let_def split_beta
    by (subst wr, subst wr) (simp add: spl, simp add: sim_group_def)
  then have run: "broadcast_loop ?e 1 (-20000000000) empty_server \<lparr>bg = sim_group\<rparr> k0 = Inl UseAfterFree"
    by (simp add: p broadcast_tick_def) (simp add: sim_os_def k0_def)
  have inv: "server_inv (broadcast_env ?e) (k_reg \<circ> snd) (empty_server, (\<lparr>bg = sim_group\<rparr>, k0))"
    by (rule empty_server_in_order [OF broadcast_lawful [OF sim_base_law]])
  have "transfer_law (env_os ?e) k_reg" by (simp add: sim_transfer_law)
  from broadcast_blames_stale_member [OF sim_base_law this inv run] run show ?thesis unfolding sim_env_for_fields by (rule conjI [rotated])
qed

text \<open>
  C35. The only use after free in \<^verbatim>\<open>proxy_like\<close>: if its main loop, started in order (lemma \<open>proxy_starts_in_order\<close>), ever
  touches a destroyed connection, then in a callback that libcurl makes in some round for a
  request whose client had been destroyed before; the polls, the other callbacks and the closing of
  connections inside callbacks keep the server in order.
\<close>

theorem proxy_blames_gone_client:
  assumes "base_law e reg" "curl_loop_law api reg" "server_inv (proxy_env e api) (reg \<circ> snd) (s, (ctx, w))"
    "proxy_loop e api k s ctx w = Inl UseAfterFree"
  shows "\<exists>j < k. \<exists>s0 ctx0 w0 r s1 ctx1 w1 pre ev post w2 ctx2 s2 w3 rp. proxy_loop e api j s ctx w = Inr (s0, ctx0, w0)
    \<and> Poll (proxy_env e api) 50 s0 (ctx0, w0) = Inr (r, s1, ctx1, w1) \<and> curl_multi_perform api w1 = (pre @ ev # post, w2)
    \<and> run_curl_events (env_os e) api pre ctx1 s1 w2 = Inr (ctx2, s2, w3)
    \<and> map_of (req_pipes ctx2) (event_pipe ev) = Some rp \<and> fd_of s2 (pipe_conn rp) = None"
proof -
  have "work_rounds (proxy_env e api) 50 (proxy_work e api) k () s (ctx, w) = Inl UseAfterFree"
    using assms(4) by (auto simp: proxy_loop_rounds rbind_def split: sum.splits prod.splits)
  from proxy.rounds_blame [OF conjI [OF assms(1,2)] assms(3) this]
  obtain j s1 ctx1 w1 where j: "j < k" "working_at (proxy_env e api) 50 (proxy_work e api) j ((), s, ctx, w) ((), s1, ctx1, w1)"
    "proxy_work e api () s1 (ctx1, w1) = Inl UseAfterFree" by auto
  from j(2) obtain s0 ctx0 w0 r where p: "proxy_loop e api j s ctx w = Inr (s0, ctx0, w0)"
    "Poll (proxy_env e api) 50 s0 (ctx0, w0) = Inr (r, s1, ctx1, w1)"
    by (auto simp: working_at_def proxy_loop_rounds)
  obtain es w2 where es: "curl_multi_perform api w1 = (es, w2)" by fastforce
  with j(3) have "run_curl_events (env_os e) api es ctx1 s1 w2 = Inl UseAfterFree"
    by (auto simp: proxy_work_def rbind_def split: sum.splits)
  from run_curl_events_uaf [OF this] es p j(1) show ?thesis by blast
qed

theorem proxy_blames_gone_client_witness:
  "\<exists>j < 1. \<exists>s0 ctx0 w0 r s1 ctx1 w1 pre ev post w2 ctx2 s2 w3 rp. proxy_loop sim_env_for answering_curl j empty_server proxy_ctx0 k0 = Inr (s0, ctx0, w0)
    \<and> Poll (proxy_env sim_env_for answering_curl) 50 s0 (ctx0, w0) = Inr (r, s1, ctx1, w1) \<and> curl_multi_perform answering_curl w1 = (pre @ ev # post, w2)
    \<and> run_curl_events sim_os answering_curl pre ctx1 s1 w2 = Inr (ctx2, s2, w3)
    \<and> map_of (req_pipes ctx2) (event_pipe ev) = Some rp \<and> fd_of s2 (pipe_conn rp) = None"
proof -
  let ?e = "sim_env_for :: (proxy_cb, kernel) env" and ?api = answering_curl
  have p: "Poll (proxy_env ?e ?api) 50 empty_server (proxy_ctx0, k0) = Inr (0, empty_server, proxy_ctx0, k0)"
    by (rule empty_server_poll) (simp add: proxy_env_def)
  have c: "curl_multi_perform ?api k0 = ([HeaderData 7 ''x'', HeaderData 5 ''HTTP/1.1 200 OK''], k0)" by (simp add: answering_curl_def)
  have "conn_at 2 (empty_server :: proxy_cb Server) = Inl UseAfterFree" by (simp add: conn_at_def empty_server_def new_Server_def)
  then have "curl_pipe_to_conn_headers sim_os d 7 proxy_ctx0 (empty_server :: proxy_cb Server) k = Inr (of_nat (length d), k)"
    "curl_pipe_to_conn_headers sim_os d 5 proxy_ctx0 (empty_server :: proxy_cb Server) k = Inl UseAfterFree" for d k
    by (simp_all add: curl_pipe_to_conn_headers_def curl_write_headers_def proxy_ctx0_def)
  with p have run: "proxy_loop ?e ?api 1 empty_server proxy_ctx0 k0 = Inl UseAfterFree" by (simp add: c)
  have inv: "server_inv (proxy_env ?e ?api) (k_reg \<circ> snd) (empty_server, (proxy_ctx0, k0))"
    by (rule empty_server_in_order [OF proxy_lawful [OF sim_base_law answering_curl_law(1)]])
  from proxy_blames_gone_client [OF sim_base_law answering_curl_law(2) inv run] show ?thesis unfolding sim_env_for_fields .
qed

end
