(* ===== verification/Spec2Isabelle.thy ===== *)
theory Spec2Isabelle
  imports Hpl_Circular_Buffer Hpl_Str Hpl_Requests Hpl_Parsed_Fields Hpl_Large_Memory Hpl_Main_Loops
begin

text \<open>
  Verification of httpoll (\<^verbatim>\<open>src/\<close>), an HTTP and WebSocket server framework in a single thread on
  epoll.

  \<^bold>\<open>The program.\<close> A program creates a \<open>Server\<close> (\<^verbatim>\<open>hpl_server.cc\<close>), calls \<open>Init\<close>, registers
  \<open>RequestHandler\<close> rows for path patterns and calls \<open>Poll\<close> in a loop. \<open>Poll\<close> pings idle WebSockets, waits for
  events and serves them: it accepts connections, and for a readable \<open>Connection\<close> (\<^verbatim>\<open>hpl_connection.cc\<close>)
  it reads into a buffer of 1024 bytes, cuts lines off it and feeds them to the \<open>HttpHeaderParser\<close>
  (\<^verbatim>\<open>hpl_header_parser.cc\<close>, with \<^verbatim>\<open>hpl_method.cc\<close>, \<^verbatim>\<open>hpl_version.cc\<close>, \<^verbatim>\<open>hpl_str.h\<close>). A complete head goes to the
  handler of its path and method, or upgrades the connection to a \<open>WebsocketConnection\<close>
  (\<^verbatim>\<open>hpl_websocket_connection.cc\<close>, frames in \<^verbatim>\<open>hpl_websocket_utils.cc\<close>, the accept key with
  \<^verbatim>\<open>external_helpers.h\<close>). Answers are made by \<^verbatim>\<open>hpl_response.h\<close>. A \<open>BroadcastGroup\<close>
  (\<^verbatim>\<open>hpl_broadcast_group.cc\<close>) sends one frame to many WebSockets through pipes. \<^verbatim>\<open>hpl_circular_buffer.h\<close> is a
  stand-alone ring buffer.

  \<^bold>\<open>The theories\<close>, each importing those it needs:
  \<^item> \<open>Hpl_Prelude\<close>: outcomes (a fault or a value) and their bind, bytes and words, bounds-checked loads,
    the C library functions used, \<^verbatim>\<open>std::map\<close> as a sorted association list.
  \<^item> \<open>Hpl_Circular_Buffer\<close>: the ring; the locale \<open>byte_queue\<close> (a FIFO of bytes with an abstraction function)
    is interpreted on it, under the protocol its caller has to keep, which gives the refinement; bounds;
    \<open>Extend\<close>; the full-or-empty confusion without that protocol.
  \<^item> \<open>Hpl_Str\<close>, \<open>Hpl_Base64\<close>, \<open>Hpl_Method_Version\<close>, \<open>Hpl_Response\<close>: case-insensitive search, the encoder against
    a reference and a decoder, tokens as 32-bit loads, responses as a total function.
  \<^item> \<open>Hpl_Header_Parser\<close>: \<open>PushLine\<close> with every header branch and the body count; the locale
    \<open>ranked_machine\<close> gives the run invariant; what each kind of line does; where the parser overreads and
    where it loops for ever.
  \<^item> \<open>Hpl_Os\<close>: the system calls as a record of functions on an abstract world, the documented laws that
    properties assume of them, \<open>setnonblocking\<close>, and a small kernel on which all laws hold.
  \<^item> \<open>Hpl_Connection\<close>: reading, line cutting, \<open>ProcessDataIn\<close>, writing, the upgrade; the locale \<open>line_source\<close>
    makes the lines independent of how the stream was cut; a request head arrives intact however the stream
    is cut into wake-ups and reads (\<open>pours\<close>, and the locale \<open>head_reader\<close>, shared by both configurations);
    \<open>parser_blamed\<close> says that a run fails by the parser, on a piece of what it has read.
  \<^item> \<open>Hpl_Large_Memory\<close>: the reading of the configuration without \<^verbatim>\<open>SMALL_MEMORY\<close>, in which lines of any
    length arrive and nothing limits the buffer.
  \<^item> \<open>Hpl_Websocket\<close>: frame encoding and decoding, masks, fragments, pings, the accept key.
  \<^item> \<open>Hpl_Broadcast\<close>: the group with \<^verbatim>\<open>tee\<close> and \<^verbatim>\<open>splice\<close>; a broadcast equals plain writes to every socket.
  \<^item> \<open>Hpl_Benchmark\<close>: \<^verbatim>\<open>src/benchmark/broadcast/broadcast.cc\<close> from the command line to the destructor; in every
    round its two ways of sending have the same effect.
  \<^item> \<open>Hpl_Server\<close>: set-up, handler table, accepting, closing and every branch of \<open>Poll\<close>. Connections
    live at pointers; the relations \<open>calm\<close> and \<open>served\<close> say what an event may do to the others.
  \<^item> \<open>Hpl_Life\<close>: the server over many calls. The kernel's interest list holds raw pointers; \<open>tied\<close> says that
    they are live, and every branch keeps it. The step relation \<open>server_step\<close> lists the calls of a
    program; the locale \<open>invariant_system\<close>, interpreted on it, gives the invariant in every reachable state.
  \<^item> \<open>Hpl_Examples\<close>: the programs under \<^verbatim>\<open>src/examples/\<close> as instances of the callbacks; \<^verbatim>\<open>basic\<close> is followed from
    the bytes of a request to the bytes of the answer, \<^verbatim>\<open>broadcast\<close> polls safely but broadcasts to dead
    connections, \<^verbatim>\<open>proxy_like\<close> cuts bodies off.
  \<^item> \<open>Hpl_Parsed_Fields\<close>: what the fields of the parser can hold after any run, as an invariant that the locale
    \<open>ranked_machine\<close> carries over runs; and the unit test \<^verbatim>\<open>http_header_parser_test.cc\<close> on the model.
  \<^item> \<open>Hpl_Requests\<close>: one connection over several wake-ups, as the sequence of handler calls it causes: bodies in
    pieces, a body in the same read as its head, a second request.
  \<^item> \<open>Hpl_Agree\<close>: the locale \<open>agreeing_callbacks\<close>: two sets of callbacks that agree as long as a condition on
    the handler table and the program's own state holds give the same \<open>Poll\<close>, which keeps the condition.
  \<^item> \<open>Hpl_Programs\<close>: the \<^verbatim>\<open>main\<close> functions of the examples for any number of rounds. The locale of
    \<open>Hpl_Agree\<close> is interpreted on \<^verbatim>\<open>basic\<close> and on a copy whose ready hook does nothing, which makes every run of
    \<^verbatim>\<open>basic\<close> safe; a message of \<^verbatim>\<open>broadcast\<close> is followed from the joins to the sockets.
  \<^item> \<open>Hpl_Main_Loops\<close>: the locale \<open>polling_program\<close> for a loop that polls and then works, interpreted on the
    main loops of \<^verbatim>\<open>broadcast\<close> and \<^verbatim>\<open>proxy_like\<close>: it names the only way in which each can use a destroyed
    connection.
  \<^item> this theory: properties that span components, from bytes on a socket to handlers and WebSockets.

  \<^bold>\<open>How code becomes definitions.\<close> A class is a record, an enum a datatype, a member function a function of
  the object (and the world where it makes system calls) that returns the object after the call.
  Reads and writes outside an object, null and dangling pointers, exceptions and endless loops are the
  faults of the type \<open>fault\<close>, so each is a branch of the definition. \<^verbatim>\<open>size_t\<close> and flag words are
  machine words. User callbacks, \<^verbatim>\<open>std::regex\<close>, SHA-1, libfmt and libcurl are arguments; what a property
  needs of them is one of its hypotheses, and every such property has a witness with concrete
  functions in their place.

  \<^bold>\<open>Bounds and fuel.\<close> The server is modelled in the build's configuration: \<^verbatim>\<open>SMALL_MEMORY=1024\<close> and
  \<^verbatim>\<open>HPL_ENABLE_PING_PONG=10\<close>. \<open>ProcessDataIn\<close> loops as long as the peer sends, so it runs on fuel:
  \<open>process_data_in_returns\<close> shows that bounded input needs no more rounds than its bound, and the properties that
  follow a request need one round per read. The server takes its fuel from the environment and reports
  exhaustion as the fault \<open>Diverges\<close>; the safety properties hold for every amount of fuel, so for as many
  rounds as a run takes. The loop over
  the options of a Connection header runs on two rounds more than the line has bytes, and when they do not
  suffice no number does (\<open>header_line_diverges_only_for_ever\<close>).

  \<^bold>\<open>Not modelled.\<close> Log output (\<^verbatim>\<open>hpl_logger.h\<close>), the signal disposition set in \<open>Init\<close>, trivial getters, the
  scratch program \<^verbatim>\<open>test.c\<close>; of the configuration without \<^verbatim>\<open>SMALL_MEMORY\<close>, the edge-triggered registration of
  accepted connections and the server on top of its reading; in the benchmark,
  the clock, the averages and the log; in the unit test, the expectation on \<^verbatim>\<open>GetBody\<close>, which the
  parser does not have. The endless loops of the examples are modelled for every number of rounds. The
  back pointer from a connection to its server is the server argument of the operations that use it.
\<close>

section \<open>Request heads as text\<close>

text \<open>The head a browser sends to open a WebSocket.\<close>

definition handshake_head :: "bytes \<Rightarrow> bytes \<Rightarrow> bytes list" where
  "handshake_head u key =
     [''GET '' @ u @ '' HTTP/1.1'' @ CRLF, ''Upgrade: websocket'' @ CRLF, ''Connection: keep-alive, Upgrade'' @ CRLF,
      ''Sec-WebSocket-Key: '' @ key @ CRLF, CRLF]"

definition handshake_parser :: "bytes \<Rightarrow> bytes \<Rightarrow> HttpHeaderParser" where
  "handshake_parser u key = new_HttpHeaderParser\<lparr>http_method := GET, uri := u, version := HTTP_1_1, state := Done,
     upgrade_flags := UpgradeWebSocket, connection_flags := ConnectionKeepAlive OR ConnectionUpgrade,
     headers := [(''Sec-WebSocket-Key'', key)]\<rparr>"

lemma handshake_head_parsed:
  assumes "u \<noteq> []" "SP \<notin> set u" "CR \<notin> set u" "key \<noteq> []" "hd key \<noteq> SP" "CR \<notin> set key" "LF \<notin> set key"
  shows "list_all one_line (handshake_head u key)"
    "parse_head (handshake_head u key) new_HttpHeaderParser = Some (handshake_parser u key)"
proof -
  have "one_line ((''GET '' @ u @ '' HTTP/1.1'') @ CRLF)" "one_line (''Upgrade: websocket'' @ CRLF)"
    "one_line (''Connection: keep-alive, Upgrade'' @ CRLF)" "one_line ((''Sec-WebSocket-Key: '' @ key) @ CRLF)" "one_line ([] @ CRLF)"
    using assms(3,6) by (intro one_line_text; simp)+
  then show "list_all one_line (handshake_head u key)" by (simp add: handshake_head_def)
  let ?p1 = "new_HttpHeaderParser\<lparr>http_method := GET, version := HTTP_1_1, state := Headers, uri := u\<rparr>"
  let ?p2 = "?p1\<lparr>upgrade_flags := UpgradeWebSocket\<rparr>"
  let ?p3 = "?p2\<lparr>connection_flags := ConnectionKeepAlive OR ConnectionUpgrade\<rparr>"
  let ?p4 = "?p3\<lparr>headers := [(''Sec-WebSocket-Key'', key)]\<rparr>"
  have "ParseFirstLine (''GET '' @ u @ '' HTTP/1.1'' @ CRLF) = Inr (GET, u, HTTP_1_1)"
    using request_line_lemma [of GET u HTTP_1_1] assms(1,2) by simp
  then have l1: "PushLine (''GET '' @ u @ '' HTTP/1.1'' @ CRLF) new_HttpHeaderParser = Inr ?p1"
    by (simp add: PushLine_def new_HttpHeaderParser_def)
  have low: "map tolower ''Upgrade:'' = kUpgrade" "map tolower ''websocket'' = kUpgradeWs" "map tolower ''Connection:'' = kConnection"
    by code_simp+
  have l2: "PushLine (''Upgrade: websocket'' @ CRLF) ?p1 = Inr ?p2"
    using PushLine_upgrade [OF _ low(1,2), of ?p1 SP] by (simp add: new_HttpHeaderParser_def)
  have opts: "option_flag ''keep-alive'' = Some ConnectionKeepAlive" "option_flag ''Upgrade'' = Some ConnectionUpgrade"
    by code_simp+
  have l3: "PushLine (''Connection: keep-alive, Upgrade'' @ CRLF) ?p2 = Inr ?p3"
    using PushLine_options [OF _ low(3), of ?p2 "[('' '', ''keep-alive''), ('' '', ''Upgrade'')]"] opts
    by (simp add: option_flags_def known_option_def new_HttpHeaderParser_def)
  have name: "map tolower ''Sec-WebSocket-Key'' \<notin> set known_names" by code_simp
  have l4: "PushLine (''Sec-WebSocket-Key: '' @ key @ CRLF) ?p3 = Inr ?p4"
    using PushLine_other [of ?p3 "''Sec-WebSocket-Key''" "'' ''" key] name assms(4-7)
    by (simp add: new_HttpHeaderParser_def map_emplace_def)
  have l5: "PushLine CRLF ?p4 = Inr (handshake_parser u key)"
    by (simp add: PushLine_def handshake_parser_def new_HttpHeaderParser_def)
  show "parse_head (handshake_head u key) new_HttpHeaderParser = Some (handshake_parser u key)"
    unfolding handshake_head_def by (simp add: l1 l2 l3 l4 l5 del: append.simps) (simp add: handshake_parser_def)
qed

section \<open>A readable connection\<close>

lemma rbind_triple: "rbind (rbind m (\<lambda>(r, s, w). f r s w)) g = rbind m (\<lambda>(r, s, w). rbind (f r s w) g)"
  by (cases m) (auto split: prod.split)

lemma handle_event_head:
  assumes "read_law (env_os e)" "reads_silent (env_os e) out" "conn_at p s = Inr (new_Connection fd)"
    "map_option fst (server_conn s) \<noteq> Some p" "head_arrives (env_os e) fd w n hs q" "n \<le> fuel e"
  shows "\<exists>c w'. head_done fd q c \<and> out w' = out w \<and> conn_at p (set_conn p c s) = Inr c
    \<and> handle_event e (p, EPOLLIN) s w = rbind (handle_request e p (state_ret (state q)) (set_conn p c s) w')
        (\<lambda>(s1, w1). Inr (None, s1, w1))"
proof -
  obtain c w' where "head_done fd q c" "out w' = out w"
    "handle_http e p s w = handle_request e p (state_ret (state q)) (set_conn p c s) w'"
    using handle_http_head [OF assms(1-3,5,6)] by blast
  moreover have "handle_event e (p, EPOLLIN) s w = rbind (handle_http e p s w) (\<lambda>(s1, w1). Inr (None, s1, w1))"
    by (rule handle_event_http [OF assms(3) _ assms(4)]) (simp add: new_Connection_def)
  ultimately show ?thesis using conn_at_set [OF assms(3)] by (intro exI [of _ c] exI [of _ w']) simp
qed

text \<open>The rest of an event that upgrades, after the connection became a WebSocket.\<close>

lemma upgrade_outcome:
  assumes "wire_law (env_os e) out" "a \<noteq> []" "c_fd c \<noteq> -1" "fmt_nat e 101 = ''101''"
    "ev = rbind (rbind (opt_hook e (ws_connect_hook table) 0 p u s1 w1)
        (\<lambda>(n, s2, w2). if n = -1 then close_and_go e p s2 w2 else answer_upgrade e p k u n s2 w2))
      (\<lambda>(s1, w1). Inr (None, s1, w1))"
  shows "case opt_hook e (ws_connect_hook table) 0 p u s1 w1 of
         Inl f \<Rightarrow> ev = Inl f
       | Inr (r, s2, w2) \<Rightarrow>
           if r = -1
           then ev = rbind (close_and_go e p s2 w2) (\<lambda>(s3, w3). Inr (None, s3, w3))
           else conn_at p s2 = Inr (upgraded table a now c) \<and> handler_at k s2 = Inr table \<longrightarrow>
             (\<exists>w3. out w3 = (out w2)(c_fd c := out w2 (c_fd c) @ switch_response (version (c_parser c)) a)
              \<and> ev =
                rbind (opt_hook e (ws_ready_hook table) r p u (set_conn p (upgraded table a now c) s2) w3) (\<lambda>(r', s4, w4).
                rbind (if r' = -1 then close_and_go e p s4 w4 else Inr (s4, w4)) (\<lambda>(s5, w5). Inr (None, s5, w5))))"
proof (cases "opt_hook e (ws_connect_hook table) 0 p u s1 w1")
  case (Inr y)
  let ?c = "upgraded table a now c"
  obtain r s2 w2 where y: "y = (r, s2, w2)" by (cases y)
  show ?thesis
  proof (cases "r \<noteq> -1 \<and> conn_at p s2 = Inr ?c \<and> handler_at k s2 = Inr table")
    case True
    obtain w3 where "out w3 = (out w2)(c_fd c := out w2 (c_fd c) @ switch_response (version (c_parser c)) a)"
      "answer_upgrade e p k u r s2 w2 = rbind (opt_hook e (ws_ready_hook table) r p u (set_conn p ?c s2) w3)
        (\<lambda>(r', s4, w4). if r' = -1 then close_and_go e p s4 w4 else Inr (s4, w4))"
      using answer_upgrade_sends [OF assms(1) _ assms(2-4), of p s2 table now k w2 u r] True by auto
    then show ?thesis using Inr y True assms(5) by (auto simp: rbind_triple intro!: exI [of _ w3])
  qed (use Inr y assms(5) in auto)
qed (use assms(5) in simp)

section \<open>Properties across components\<close>

text \<open>
  C4. A request reaches its handler. Let a connection be fresh and the head of a request arrive on it within
  one wake-up, cut into reads in any way, each line at most 1024 bytes long; let the table have an entry for
  its path with a handler for its method, and let it be no upgrade. Then handling the event runs exactly that
  handler, once, on that connection, with the path of the request, an empty piece of body and the flag
  whether the request is complete; the connection holds the parsed head; and the connection is closed if and
  only if the handler asks.
\<close>

theorem request_reaches_handler:
  assumes "read_law (env_os e)" "reads_silent (env_os e) out" "conn_at p s = Inr (new_Connection fd)"
    "map_option fst (server_conn s) \<noteq> Some p" "head_arrives (env_os e) fd w n hs q" "n \<le> fuel e"
    "FindRequestHandler e (uri q) s = Inr (Some k)" "handler_at k s = Inr table"
    "upgrade_flags q AND UpgradeWebSocket = 0" "method_index (http_method q) < length (http_handlers table)"
    "http_handlers table ! method_index (http_method q) = Some h"
  shows "\<exists>c w'. c_parser c = q \<and> conn_at p (set_conn p c s) = Inr c \<and> out w' = out w
    \<and> handle_event e (p, EPOLLIN) s w =
       rbind (run_handler e h p (uri q) [] (state q = Done) (set_conn p c s) w') (\<lambda>(r, s1, w1).
       rbind (if r = -1 then close_and_go e p s1 w1 else Inr (s1, w1)) (\<lambda>(s2, w2). Inr (None, s2, w2)))"
proof -
  obtain c w' where c: "head_done fd q c" "out w' = out w" "conn_at p (set_conn p c s) = Inr c"
    "handle_event e (p, EPOLLIN) s w = rbind (handle_request e p (state_ret (state q)) (set_conn p c s) w')
        (\<lambda>(s1, w1). Inr (None, s1, w1))"
    using handle_event_head [OF assms(1-6)] by blast
  then have f: "c_parser c = q" "PopBody c = []" by (simp_all add: head_done_def)
  have find: "FindRequestHandler e (uri (c_parser c)) (set_conn p c s) = Inr (Some k)" "handler_at k (set_conn p c s) = Inr table"
    using assms(7,8) f by (simp_all add: FindRequestHandler_def)
  have "\<not> ShouldUpgradeWebsocket c" using assms(9) f by (simp add: ShouldUpgradeWebsocket_def)
  note call = handle_request_calls [OF c(3) find this, unfolded f, OF assms(10,11), of "state_ret (state q)" w']
  have "(state_ret (state q) = 1) = (state q = Done)" by (cases "state q") simp_all
  with call c f(1) show ?thesis
    by (intro exI [of _ c] exI [of _ w'])
      (cases "run_handler e h p (uri q) [] (state q = Done) (set_conn p c s) w'"; auto)
qed

theorem request_reaches_handler_witness:
  "\<exists>s' w' c. handle_event sim_env (2, EPOLLIN) put_server (k0\<lparr>k_input := (\<lambda>_. [])(7 := map Data [''PUT /a HT'', ''TP/1.0'' @ CRLF @ CRLF])\<rparr>)
      = Inr (None, s', w') \<and> conn_at 2 s' = Inr c \<and> uri (c_parser c) = ''/a'' \<and> http_method (c_parser c) = PUT"
proof -
  let ?cs = "[''PUT /a HT'', ''TP/1.0'' @ CRLF @ CRLF]" and ?hs = "[''PUT /a HTTP/1.0'' @ CRLF, CRLF]"
  let ?k = "k0\<lparr>k_input := (\<lambda>_. [])(7 := map Data ?cs)\<rparr>"
  let ?q = "new_HttpHeaderParser\<lparr>http_method := PUT, uri := ''/a'', version := HTTP_1_0, state := Done\<rparr>"
  have "parse_head ?hs new_HttpHeaderParser = Some ?q" "list_all one_line ?hs" by code_simp+
  moreover have "delivers sim_os 7 ?k ?cs" by (rule sim_delivers) simp_all
  then have "pours sim_os 7 100 (length ?cs) ?k [concat ?hs @ []]" using delivers_pours [of sim_os 7 ?k ?cs 100] by simp
  ultimately have arr: "head_arrives (env_os sim_env) 7 ?k (length ?cs) ?hs ?q"
    unfolding head_arrives_def sim_env_fields by (intro conjI exI [of _ "[]"] exI [of _ 100]) (assumption | simp)+
  have env: "read_law (env_os sim_env)" "reads_silent (env_os sim_env) k_output" "length ?cs \<le> fuel sim_env"
    using sim_wire_law by (simp_all add: sim_read_law reads_silent_def wire_law_def) (simp add: sim_env_def)
  have srv: "conn_at 2 put_server = Inr (new_Connection 7)" "map_option fst (server_conn put_server) \<noteq> Some 2"
    "FindRequestHandler sim_env (uri ?q) put_server = Inr (Some ''/a'')" "handler_at ''/a'' put_server = Inr put_table"
    "upgrade_flags ?q AND UpgradeWebSocket = 0" "method_index (http_method ?q) < length (http_handlers put_table)"
    "http_handlers put_table ! method_index (http_method ?q) = Some ()"
    by (simp_all add: put_server_def put_table_def sim_server_def conn_at_def handler_at_def FindRequestHandler_def RegisterRequestHandler_def
        new_Server_def new_RequestHandler_def c_str_def new_HttpHeaderParser_def)
  from request_reaches_handler [OF env(1,2) srv(1,2) arr env(3) srv(3-7)] obtain c w' where
    c: "c_parser c = ?q" "conn_at 2 (set_conn 2 c put_server) = Inr c"
    "handle_event sim_env (2, EPOLLIN) put_server ?k = rbind (run_handler sim_env () 2 (uri ?q) [] (state ?q = Done) (set_conn 2 c put_server) w')
       (\<lambda>(r, s1, w1). rbind (if r = -1 then close_and_go sim_env 2 s1 w1 else Inr (s1, w1)) (\<lambda>(s2, w2). Inr (None, s2, w2)))" by blast
  moreover have "run_handler sim_env () 2 (uri ?q) [] (state ?q = Done) (set_conn 2 c put_server) w' = Inr (0, set_conn 2 c put_server, w')"
    by (simp add: sim_env_def)
  ultimately show ?thesis by (intro exI [of _ "set_conn 2 c put_server"] exI [of _ w'] exI [of _ c]) simp
qed

text \<open>
  C5. A WebSocket opens, from bytes to bytes: a client sends the usual opening head - GET on a registered
  path, the Upgrade, Connection and Sec-WebSocket-Key headers - on a fresh connection, within one wake-up,
  cut into reads in any way, each line at most 1024 bytes long. When the event is handled, the connection
  becomes a WebSocket with the callbacks registered for the path, nothing is sent, and the connect hook of
  the path runs, if there is one; no hook counts as a hook that returns 0. What follows is up to the hook.
  If it fails, so does the event. If it returns -1, the connection is closed and no answer is sent. If it
  returns anything else and left this connection and the row of its path alone, the server sends exactly the
  101 response, whose accept value is the Base64 text of the SHA-1 digest of the client's key and the
  protocol's GUID, and then the ready hook runs, if there is one; the connection is closed if and only if it
  returns -1.
\<close>

theorem websocket_opens:
  assumes "read_law (env_os e)" "wire_law (env_os e) out" "clock_law (env_os e)"
    "conn_at p s = Inr (new_Connection fd)" "fd \<noteq> -1" "map_option fst (server_conn s) \<noteq> Some p"
    "FindRequestHandler e u s = Inr (Some k)" "handler_at k s = Inr table" "fmt_nat e 101 = ''101''"
    "\<forall>m. length (sha1_of e m) = SHA_DIGEST_LENGTH" "length (hash_array e) = SHA_DIGEST_LENGTH * 2"
    "u \<noteq> []" "SP \<notin> set u" "CR \<notin> set u" "key \<noteq> []" "hd key \<noteq> SP" "CR \<notin> set key" "LF \<notin> set key"
    "pours (env_os e) fd m n w [concat (handshake_head u key) @ rest]" "n \<le> fuel e"
    "\<forall>h \<in> set (handshake_head u key). length h + m \<le> 1025"
  shows "\<exists>c ws a w1. ws_conn c = Some ws \<and> on_data ws = ws_message_handler table \<and> will_close_hook ws = ws_will_close_hook table
    \<and> b64_decode a = sha1_of e (key @ ''258EAFA5-E914-47DA-95CA-C5AB0DC85B11'')
    \<and> c_fd c = fd \<and> conn_at p (set_conn p c s) = Inr c \<and> out w1 = out w
    \<and> (case opt_hook e (ws_connect_hook table) 0 p u (set_conn p c s) w1 of
         Inl f \<Rightarrow> handle_event e (p, EPOLLIN) s w = Inl f
       | Inr (r, s2, w2) \<Rightarrow>
           if r = -1
           then handle_event e (p, EPOLLIN) s w = rbind (close_and_go e p s2 w2) (\<lambda>(s3, w3). Inr (None, s3, w3))
           else conn_at p s2 = Inr c \<and> handler_at k s2 = Inr table \<longrightarrow>
             (\<exists>w3. out w3 = (out w2)(fd := out w2 fd @ ''HTTP/1.1 101 Switching Protocols'' @ CRLF @ ''Connection: Upgrade'' @ CRLF
                  @ ''Sec-WebSocket-Accept: '' @ a @ CRLF @ ''Upgrade: websocket'' @ CRLF @ CRLF)
              \<and> handle_event e (p, EPOLLIN) s w =
                rbind (opt_hook e (ws_ready_hook table) r p u (set_conn p c s2) w3) (\<lambda>(r', s4, w4).
                rbind (if r' = -1 then close_and_go e p s4 w4 else Inr (s4, w4)) (\<lambda>(s5, w5). Inr (None, s5, w5)))))"
proof -
  let ?q = "handshake_parser u key"
  have q: "uri ?q = u" "version ?q = HTTP_1_1" "websocket_key ?q = key" "upgrade_flags ?q = UpgradeWebSocket"
    "connection_flags ?q = ConnectionKeepAlive OR ConnectionUpgrade"
    using assms(15) by (simp_all add: handshake_parser_def websocket_key_def GetHeader_def)
  have "head_arrives (env_os e) fd w n (handshake_head u key) ?q"
    unfolding head_arrives_def using handshake_head_parsed [OF assms(12-18)] assms(19,21) by blast
  moreover have "reads_silent (env_os e) out" using assms(2) by (simp add: reads_silent_def wire_law_def)
  ultimately obtain c w1 where c: "head_done fd ?q c" "out w1 = out w" "conn_at p (set_conn p c s) = Inr c"
    "handle_event e (p, EPOLLIN) s w = rbind (handle_request e p (state_ret (state ?q)) (set_conn p c s) w1)
        (\<lambda>(s1, w1). Inr (None, s1, w1))"
    using handle_event_head [OF assms(1) _ assms(4,6) _ assms(20)] by blast
  then have f: "c_parser c = ?q" "c_fd c = fd" "ws_conn c = None" by (simp_all add: head_done_def)
  have up: "ShouldUpgradeWebsocket c"
    using f q by (simp add: ShouldUpgradeWebsocket_def UpgradeWebSocket_def ConnectionKeepAlive_def ConnectionUpgrade_def)
  define a where a: "a = b64_ref (sha1_of e (key @ ws_guid))"
  have hs: "handler_at k (set_conn p c s) = Inr table" using assms(8) by simp
  have key: "websocket_key (c_parser c) \<noteq> []" "a = b64_ref (sha1_of e (websocket_key (c_parser c) @ ws_guid))" "c_fd c \<noteq> -1"
    using f q assms(5,15) a by simp_all
  obtain now where ne: "a \<noteq> []" and hu: "handle_upgrade e p k u (set_conn p c s) w1
    = rbind (opt_hook e (ws_connect_hook table) 0 p u (set_conn p (upgraded table a now c) (set_conn p c s)) w1)
        (\<lambda>(n, s2, w2). if n = -1 then close_and_go e p s2 w2 else answer_upgrade e p k u n s2 w2)"
    using handle_upgrade_connects [OF assms(3) c(3) hs f(3) key(1) assms(10,11) key(2), of u w1] by blast
  let ?c = "upgraded table a now c"
  have "FindRequestHandler e u (set_conn p c s) = Inr (Some k)" using assms(7) by (simp add: FindRequestHandler_def)
  then have ev: "handle_event e (p, EPOLLIN) s w = rbind (rbind (opt_hook e (ws_connect_hook table) 0 p u (set_conn p ?c s) w1)
        (\<lambda>(n, s2, w2). if n = -1 then close_and_go e p s2 w2 else answer_upgrade e p k u n s2 w2))
      (\<lambda>(s1, w1). Inr (None, s1, w1))"
    using c(3,4) f q up hu by (simp add: handle_request_def)
  have "switch_response HTTP_1_1 a = ''HTTP/1.1 101 Switching Protocols'' @ CRLF @ ''Connection: Upgrade'' @ CRLF
      @ ''Sec-WebSocket-Accept: '' @ a @ CRLF @ ''Upgrade: websocket'' @ CRLF @ CRLF" by (simp add: switch_response_def)
  note resp = this
  have "conn_at p (set_conn p ?c s) = Inr ?c" by (rule conn_at_set [OF assms(4)])
  moreover have "b64_decode a = sha1_of e (key @ ''258EAFA5-E914-47DA-95CA-C5AB0DC85B11'')"
    by (simp only: a b64_decode_ref ws_guid_def)
  moreover note upgrade_outcome [OF assms(2) ne key(3) assms(9) ev, of now, unfolded f q resp]
  moreover have "ws_conn ?c = Some (the (ws_conn ?c))" "on_data (the (ws_conn ?c)) = ws_message_handler table"
    "will_close_hook (the (ws_conn ?c)) = ws_will_close_hook table" "c_fd ?c = fd" using f(2) by (simp_all add: upgraded_def)
  ultimately show ?thesis using c(2) unfolding resp
    by (intro exI [of _ ?c] exI [of _ "the (ws_conn ?c)"] exI [of _ a] exI [of _ w1] conjI)
qed

theorem websocket_opens_witness:
  "\<exists>s' x' a. handle_event (broadcast_env sim_env_for) (2, EPOLLIN) (broadcast_setup broadcast_server0)
        (\<lparr>bg = sim_group\<rparr>, k0\<lparr>k_input := (\<lambda>_. [])(7 := map Data [''GET '', drop 4 (concat (handshake_head ''/broadcast'' ''k1''))])\<rparr>)
      = Inr (None, s', x')
    \<and> k_output (snd x') 7 = ''HTTP/1.1 101 Switching Protocols'' @ CRLF @ ''Connection: Upgrade'' @ CRLF
        @ ''Sec-WebSocket-Accept: '' @ a @ CRLF @ ''Upgrade: websocket'' @ CRLF @ CRLF
    \<and> b64_decode a = replicate 20 SP"
proof -
  let ?e = "broadcast_env sim_env_for" and ?h = "handshake_head ''/broadcast'' ''k1''" and ?s = "broadcast_setup broadcast_server0"
  let ?cs = "[''GET '', drop 4 (concat ?h)]"
  let ?k = "k0\<lparr>k_input := (\<lambda>_. [])(7 := map Data ?cs)\<rparr>"
  let ?x = "(\<lparr>bg = sim_group\<rparr>, ?k)"
  have env: "env_os ?e = app_os sim_os" "fmt_nat ?e = dec" "fuel ?e = 100" "sha1_of ?e = (\<lambda>m. replicate 20 SP)"
    "hash_array ?e = replicate 40 NUL" "regex_match ?e = (\<lambda>k u. Some (k = ''.*'' \<or> k = u))"
    by (simp_all add: broadcast_env_def sim_env_for_def)
  have "delivers sim_os 7 ?k ?cs" by (rule sim_delivers) (simp_all add: handshake_head_def)
  moreover have "\<forall>c \<in> set ?cs. length c \<le> 200" "concat ?cs = concat ?h @ []" by (simp_all add: handshake_head_def)
  ultimately have "pours sim_os 7 200 (length ?cs) ?k [concat ?h @ []]" by (metis delivers_pours)
  then have src: "pours (env_os ?e) 7 200 (length ?cs) ?x [concat ?h @ []]" unfolding env by (rule pours_app)
  have laws: "read_law (env_os ?e)" "wire_law (env_os ?e) (k_output \<circ> snd)" "clock_law (env_os ?e)" "fmt_nat ?e 101 = ''101''"
    "\<forall>m. length (sha1_of ?e m) = SHA_DIGEST_LENGTH" "length (hash_array ?e) = SHA_DIGEST_LENGTH * 2"
    unfolding env by (simp_all add: read_law_app sim_read_law wire_law_app sim_wire_law SHA_DIGEST_LENGTH_def dec_status)
      (simp add: clock_law_def app_os_def with_app_def sim_os_def)
  have srv: "conn_at 2 ?s = Inr (new_Connection 7)" "map_option fst (server_conn ?s) \<noteq> Some 2"
    "FindRequestHandler ?e ''/broadcast'' ?s = Inr (Some ''/broadcast'')" "handler_at ''/broadcast'' ?s = Inr broadcast_handlers"
    by (simp_all add: broadcast_setup_def broadcast_server0_def conn_at_def handler_at_def FindRequestHandler_def RegisterRequestHandler_def
        new_Server_def c_str_def env)
  have texts: "(7 :: fd) \<noteq> -1" "''/broadcast'' \<noteq> []" "SP \<notin> set ''/broadcast''" "CR \<notin> set ''/broadcast''" "''k1'' \<noteq> []" "hd ''k1'' \<noteq> SP"
    "CR \<notin> set ''k1''" "LF \<notin> set ''k1''" by simp_all
  have len: "length ?cs \<le> fuel ?e" "\<forall>x \<in> set ?h. length x + 200 \<le> 1025" by (simp_all add: env handshake_head_def)
  have hooks: "ws_connect_hook broadcast_handlers = Some OnWsConnected" "ws_ready_hook broadcast_handlers = None"
    by (simp_all add: broadcast_handlers_def new_RequestHandler_def)
  from websocket_opens [OF laws(1-3) srv(1) texts(1) srv(2-4) laws(4-6) texts(2-8) src len]
  obtain c ws a and x1 :: "BroadcastContext \<times> kernel" where c: "b64_decode a = replicate 20 SP" "c_fd c = 7" "conn_at 2 (set_conn 2 c ?s) = Inr c"
    "k_output (snd x1) = k_output (snd ?x)"
    and ev: "case opt_hook ?e (Some OnWsConnected) 0 2 ''/broadcast'' (set_conn 2 c ?s) x1 of
         Inl f \<Rightarrow> handle_event ?e (2, EPOLLIN) ?s ?x = Inl f
       | Inr (r, s2, w2) \<Rightarrow>
           if r = -1
           then handle_event ?e (2, EPOLLIN) ?s ?x = rbind (close_and_go ?e 2 s2 w2) (\<lambda>(s3, w3). Inr (None, s3, w3))
           else conn_at 2 s2 = Inr c \<and> handler_at ''/broadcast'' s2 = Inr broadcast_handlers \<longrightarrow>
             (\<exists>w3. (k_output \<circ> snd) w3 = ((k_output \<circ> snd) w2)(7 := (k_output \<circ> snd) w2 7 @ ''HTTP/1.1 101 Switching Protocols'' @ CRLF @ ''Connection: Upgrade'' @ CRLF
                  @ ''Sec-WebSocket-Accept: '' @ a @ CRLF @ ''Upgrade: websocket'' @ CRLF @ CRLF)
              \<and> handle_event ?e (2, EPOLLIN) ?s ?x =
                rbind (opt_hook ?e None r 2 ''/broadcast'' (set_conn 2 c s2) w3) (\<lambda>(r', s4, w4).
                rbind (if r' = -1 then close_and_go ?e 2 s4 w4 else Inr (s4, w4)) (\<lambda>(s5, w5). Inr (None, s5, w5))))"
    unfolding hooks env by auto
  let ?S = "set_conn 2 c ?s"
  obtain ctx v where x1: "x1 = (ctx, v)" by (cases x1)
  have "fd_of ?S 2 = Some 7" using c(2,3) by (simp add: fd_of_def)
  then obtain ctx2 v2 where "opt_hook ?e (Some OnWsConnected) 0 2 ''/broadcast'' ?S x1 = Inr (0, ?S, ctx2, v2)" "k_output v2 = k_output v"
    by (simp add: opt_hook_def broadcast_env_def on_ws_connected_def Join_def x1) (simp add: sim_os_def)
  with ev c(3) srv(4) obtain x3 where
    "k_output (snd x3) = (k_output v)(7 := k_output v 7 @ ''HTTP/1.1 101 Switching Protocols'' @ CRLF @ ''Connection: Upgrade'' @ CRLF
                  @ ''Sec-WebSocket-Accept: '' @ a @ CRLF @ ''Upgrade: websocket'' @ CRLF @ CRLF)"
    "handle_event ?e (2, EPOLLIN) ?s ?x = Inr (None, set_conn 2 c ?S, x3)" by (auto simp: opt_hook_def)
  with c(1,4) x1 show ?thesis
    by (intro exI [of _ "set_conn 2 c ?S"] exI [of _ x3] exI [of _ a]) (simp add: k0_def)
qed

text \<open>
  The server's own Content-Length is one its parser understands: for every response with a body
  (shorter than 2 GB), the line \<open>MakeResponse\<close> prints before the empty line makes the header parser set
  the content length to the length of that body.
\<close>

theorem response_length_read_back:
  assumes "decimal_fmt fmt" "body \<noteq> []" "length body < 2 ^ 31" "state p = Headers"
  shows "\<exists>front line. MakeResponse fmt status v hdrs body = Inr (front @ line @ CRLF @ body)
    \<and> PushLine line p = Inr (p\<lparr>content_length := Some (of_nat (length body))\<rparr>)"
proof -
  let ?line = "''Content-Length:'' @ '' '' @ fmt (length body) @ CRLF"
  have "map tolower ''Content-Length:'' = kContentLength" by code_simp
  from PushLine_content_length [OF assms(4) this, of "'' ''" "fmt (length body)"]
  have "PushLine ?line p = Inr (p\<lparr>content_length := Some (of_nat (length body))\<rparr>)"
    using assms(1,3) by (simp add: decimal_fmt_def)
  moreover have "MakeResponse fmt status v hdrs body = Inr ((HttpVersionToString v @ '' '' @ fmt (nat (fst (status_pair status)))
      @ '' '' @ snd (status_pair status) @ CRLF @ header_lines hdrs) @ ?line @ CRLF @ body)"
    using assms(2) by (simp add: MakeResponse_spec)
  ultimately show ?thesis by blast
qed

theorem response_length_read_back_witness:
  "\<exists>front line. MakeResponse dec 200 HTTP_1_1 [(''A'', ''b'')] ''hello'' = Inr (front @ line @ CRLF @ ''hello'')
    \<and> PushLine line (new_HttpHeaderParser\<lparr>state := Headers\<rparr>) = Inr (new_HttpHeaderParser\<lparr>state := Headers, content_length := Some 5\<rparr>)"
  using response_length_read_back [OF decimal_fmt_dec, of "''hello''" "new_HttpHeaderParser\<lparr>state := Headers\<rparr>" 200 HTTP_1_1 "[(''A'', ''b'')]"]
  by simp

end
